(* ===== verification/Rust_Prelude.thy ===== *)
theory Rust_Prelude
  imports Main "HOL-Library.Word" "HOL-Library.Multiset"
begin

text \<open>
  Shared vocabulary of the development: the machine integers of the Rust sources, the two build
  profiles, errors and panics as values, and a small program logic.

  A Rust function that takes \<open>&mut self\<close> becomes a function from the state to an outcome \<^emph>\<open>and\<close> a
  state. The state is returned on every outcome, because a Rust \<open>?\<close> or a caught panic keeps the
  mutations made before it: the callers in \<^verbatim>\<open>statmon\<close> go on using the object after an error.
\<close>

section \<open>Machine integers and build profiles\<close>

text \<open>
  Signed and unsigned integers of one width share a type; the operations choose the reading
  (\<open>uint\<close>/\<open>unat\<close> or \<open>sint\<close>), and an \<open>as\<close> cast between them is the identity.
\<close>

type_synonym i8 = "8 word"
type_synonym u8 = "8 word"
type_synonym i32 = "32 word"
type_synonym i64 = "64 word"
type_synonym u64 = "64 word"
type_synonym usize = "64 word"
type_synonym u128 = "128 word"

text \<open>
  \<open>Dev\<close> is the default profile (overflow checks on, panics unwind); \<open>Release\<close> is the profile of the
  two Cargo files (overflow wraps, \<^verbatim>\<open>panic = "abort"\<close>).
\<close>

datatype profile = Dev | Release

section \<open>Errors, panics and outcomes\<close>

datatype int_error = IntEmpty | InvalidDigit | PosOverflow | NegOverflow

datatype io_error = Errno int

datatype error =
    IoError io_error
  | UnexpectedEof
  | ParseIntError int_error
  | ParseFloatError
  | ErrMsg string
  | ErrContext string error

datatype panic =
    Overflow
  | DivByZero
  | IndexOutOfBounds
  | UnwrapNone
  | UnwrapErr error
  | Expect string
  | Explicit string
  | AssertFailed

datatype 'a outcome = Ok 'a | Err error | Panic panic

fun obind :: "'a outcome \<Rightarrow> ('a \<Rightarrow> 'b outcome) \<Rightarrow> 'b outcome" where
  "obind (Ok x) f = f x"
| "obind (Err e) f = Err e"
| "obind (Panic q) f = Panic q"

fun is_panic :: "'a outcome \<Rightarrow> bool" where
  "is_panic (Panic q) = True"
| "is_panic x = False"

text \<open>The \<open>anyhow\<close> adaptors: \<open>context\<close> on a \<open>Result\<close> and on an \<open>Option\<close>; \<open>unwrap\<close> and \<open>expect\<close>.\<close>

fun with_context :: "string \<Rightarrow> 'a outcome \<Rightarrow> 'a outcome" where
  "with_context msg (Err e) = Err (ErrContext msg e)"
| "with_context msg x = x"

definition context_opt :: "string \<Rightarrow> 'a option \<Rightarrow> 'a outcome" where
  "context_opt msg x = (case x of None \<Rightarrow> Err (ErrMsg msg) | Some v \<Rightarrow> Ok v)"

definition expect_opt :: "string \<Rightarrow> 'a option \<Rightarrow> 'a outcome" where
  "expect_opt msg x = (case x of None \<Rightarrow> Panic (Expect msg) | Some v \<Rightarrow> Ok v)"

definition unwrap_opt :: "'a option \<Rightarrow> 'a outcome" where
  "unwrap_opt x = (case x of None \<Rightarrow> Panic UnwrapNone | Some v \<Rightarrow> Ok v)"

fun unwrap_res :: "'a outcome \<Rightarrow> 'a outcome" where
  "unwrap_res (Err e) = Panic (UnwrapErr e)"
| "unwrap_res x = x"

definition nth_opt :: "'a list \<Rightarrow> nat \<Rightarrow> 'a option" where
  "nth_opt xs i = (if i < length xs then Some (xs ! i) else None)"

definition index_vec :: "'a list \<Rightarrow> nat \<Rightarrow> 'a outcome" where
  "index_vec xs i = (if i < length xs then Ok (xs ! i) else Panic IndexOutOfBounds)"

section \<open>Integer arithmetic under a profile\<close>

text \<open>An overflowing operation panics under \<open>Dev\<close> and keeps the wrapped word under \<open>Release\<close>.\<close>

definition arith_res :: "profile \<Rightarrow> bool \<Rightarrow> 'w::len word \<Rightarrow> 'w word outcome" where
  "arith_res p overflows w = (if p = Dev \<and> overflows then Panic Overflow else Ok w)"

definition uadd :: "profile \<Rightarrow> 'w::len word \<Rightarrow> 'w word \<Rightarrow> 'w word outcome" where
  "uadd p a b = arith_res p (uint a + uint b \<noteq> uint (a + b)) (a + b)"

definition usub :: "profile \<Rightarrow> 'w::len word \<Rightarrow> 'w word \<Rightarrow> 'w word outcome" where
  "usub p a b = arith_res p (uint a < uint b) (a - b)"

definition umul :: "profile \<Rightarrow> 'w::len word \<Rightarrow> 'w word \<Rightarrow> 'w word outcome" where
  "umul p a b = arith_res p (uint a * uint b \<noteq> uint (a * b)) (a * b)"

definition sadd :: "profile \<Rightarrow> 'w::len word \<Rightarrow> 'w word \<Rightarrow> 'w word outcome" where
  "sadd p a b = arith_res p (sint a + sint b \<noteq> sint (a + b)) (a + b)"

definition ssub :: "profile \<Rightarrow> 'w::len word \<Rightarrow> 'w word \<Rightarrow> 'w word outcome" where
  "ssub p a b = arith_res p (sint a - sint b \<noteq> sint (a - b)) (a - b)"

definition smul :: "profile \<Rightarrow> 'w::len word \<Rightarrow> 'w word \<Rightarrow> 'w word outcome" where
  "smul p a b = arith_res p (sint a * sint b \<noteq> sint (a * b)) (a * b)"

definition udiv :: "'w::len word \<Rightarrow> 'w word \<Rightarrow> 'w word outcome" where
  "udiv a b = (if b = 0 then Panic DivByZero else Ok (a div b))"

definition smin :: "'w::len word \<Rightarrow> 'w word \<Rightarrow> 'w word" where
  "smin a b = (if sint b < sint a then b else a)"

definition smax :: "'w::len word \<Rightarrow> 'w word \<Rightarrow> 'w word" where
  "smax a b = (if sint b < sint a then a else b)"

section \<open>Stateful programs\<close>

type_synonym ('s, 'a) rust = "'s \<Rightarrow> 'a outcome \<times> 's"

definition ret :: "'a \<Rightarrow> ('s, 'a) rust" where
  "ret x s = (Ok x, s)"

definition lift_o :: "'a outcome \<Rightarrow> ('s, 'a) rust" where
  "lift_o r s = (r, s)"

definition gets :: "('s \<Rightarrow> 'a) \<Rightarrow> ('s, 'a) rust" where
  "gets f s = (Ok (f s), s)"

definition modify :: "('s \<Rightarrow> 's) \<Rightarrow> ('s, unit) rust" where
  "modify f s = (Ok (), f s)"

definition bind :: "('s, 'a) rust \<Rightarrow> ('a \<Rightarrow> ('s, 'b) rust) \<Rightarrow> ('s, 'b) rust" where
  "bind m f s = (case m s of
      (Ok x, s') \<Rightarrow> f x s'
    | (Err e, s') \<Rightarrow> (Err e, s')
    | (Panic q, s') \<Rightarrow> (Panic q, s'))"

definition seq :: "('s, 'a) rust \<Rightarrow> ('s, 'b) rust \<Rightarrow> ('s, 'b) rust" where
  "seq m n = bind m (\<lambda>_. n)"

text \<open>\<open>zoom\<close> runs a program of a field inside the program of the struct (\<open>self.cpu.update(..)\<close>).\<close>

definition zoom :: "('s \<Rightarrow> 't) \<Rightarrow> ('t \<Rightarrow> 's \<Rightarrow> 's) \<Rightarrow> ('t, 'a) rust \<Rightarrow> ('s, 'a) rust" where
  "zoom g put m s = (case m (g s) of (r, t) \<Rightarrow> (r, put t s))"

text \<open>\<open>adapt\<close> post-processes the outcome (\<open>unwrap\<close>, \<open>context\<close>) and leaves the state.\<close>

definition adapt :: "('a outcome \<Rightarrow> 'b outcome) \<Rightarrow> ('s, 'a) rust \<Rightarrow> ('s, 'b) rust" where
  "adapt f m s = (case m s of (r, s') \<Rightarrow> (f r, s'))"

primrec for_each :: "('x \<Rightarrow> ('s, unit) rust) \<Rightarrow> 'x list \<Rightarrow> ('s, unit) rust" where
  "for_each f [] = ret ()"
| "for_each f (x # xs) = seq (f x) (for_each f xs)"

primrec omap :: "('a \<Rightarrow> 'b outcome) \<Rightarrow> 'a list \<Rightarrow> 'b list outcome" where
  "omap f [] = Ok []"
| "omap f (x # xs) = obind (f x) (\<lambda>y. obind (omap f xs) (\<lambda>ys. Ok (y # ys)))"

section \<open>Program logic\<close>

text \<open>
  \<open>triple P m Q\<close> holds when from every state of \<open>P\<close> the outcome and the state that \<open>m\<close> returns
  satisfy \<open>Q\<close>; the programs are total, so this is total correctness, errors and panics included.
  \<open>pres I m\<close> says that \<open>m\<close> keeps \<open>I\<close> on every outcome.
\<close>

definition triple :: "('s \<Rightarrow> bool) \<Rightarrow> ('s, 'a) rust \<Rightarrow> ('a outcome \<Rightarrow> 's \<Rightarrow> bool) \<Rightarrow> bool" where
  "triple P m Q \<longleftrightarrow> (\<forall>s. P s \<longrightarrow> Q (fst (m s)) (snd (m s)))"

definition pres :: "('s \<Rightarrow> bool) \<Rightarrow> ('s, 'a) rust \<Rightarrow> bool" where
  "pres I m \<longleftrightarrow> triple I m (\<lambda>_. I)"

named_theorems rust_eval "unfolding rules of the program combinators on a given state"
named_theorems rust_pres "rules that show an invariant preserved, one per combinator"
named_theorems arith_eval "unfolding rules of the integer operations"

lemmas [arith_eval] = arith_res_def uadd_def usub_def umul_def sadd_def ssub_def smul_def udiv_def

lemma obind_eq_Ok [simp]: "obind r f = Ok y \<longleftrightarrow> (\<exists>x. r = Ok x \<and> f x = Ok y)"
  by (cases r) auto

lemma obind_assoc: "obind (obind r f) g = obind r (\<lambda>x. obind (f x) g)"
  by (cases r) auto

lemma with_context_eq_Ok [simp]: "with_context msg r = Ok x \<longleftrightarrow> r = Ok x"
  by (cases r) auto

lemma is_panic_with_context [simp]: "is_panic (with_context msg r) = is_panic r"
  by (cases r) auto

lemma context_opt_eq_Ok [simp]: "context_opt msg x = Ok v \<longleftrightarrow> x = Some v"
  by (cases x) (auto simp: context_opt_def)

lemma is_panic_obind: "is_panic (obind r f) \<longleftrightarrow> is_panic r \<or> (\<exists>x. r = Ok x \<and> is_panic (f x))"
  by (cases r) auto

lemma nth_opt_simps [simp]:
  "nth_opt [] i = None"
  "nth_opt (x # xs) 0 = Some x"
  "nth_opt (x # xs) (Suc i) = nth_opt xs i"
  by (auto simp: nth_opt_def)

lemma nth_opt_eq_Some: "nth_opt xs i = Some x \<longleftrightarrow> i < length xs \<and> xs ! i = x"
  by (auto simp: nth_opt_def)

lemma omap_Ok:
  "omap f xs = Ok ys \<longleftrightarrow> length ys = length xs \<and> (\<forall>i < length xs. f (xs ! i) = Ok (ys ! i))"
proof (induction xs arbitrary: ys)
  case Nil
  then show ?case by auto
next
  case (Cons x xs)
  then show ?case by (cases ys) (auto simp: All_less_Suc2)
qed

lemma list_all_drop_iff:
  "list_all P (drop n xs) \<longleftrightarrow> (\<forall>j. n \<le> j \<and> j < length xs \<longrightarrow> P (xs ! j))"
proof
  assume all: "list_all P (drop n xs)"
  show "\<forall>j. n \<le> j \<and> j < length xs \<longrightarrow> P (xs ! j)"
  proof (intro allI impI)
    fix j
    assume j: "n \<le> j \<and> j < length xs"
    then have "j - n < length (drop n xs)" by auto
    with all have "P (drop n xs ! (j - n))" by (metis list_all_length)
    with j show "P (xs ! j)" by simp
  qed
qed (simp add: list_all_length)

lemma ret_eval [rust_eval]: "ret x s = (Ok x, s)"
  by (simp add: ret_def)

lemma lift_o_eval [rust_eval]: "lift_o r s = (r, s)"
  by (simp add: lift_o_def)

lemma gets_eval [rust_eval]: "gets f s = (Ok (f s), s)"
  by (simp add: gets_def)

lemma modify_eval [rust_eval]: "modify f s = (Ok (), f s)"
  by (simp add: modify_def)

lemma bind_Ok [rust_eval]: "m s = (Ok x, s') \<Longrightarrow> bind m f s = f x s'"
  by (simp add: bind_def)

lemma bind_Err [rust_eval]: "m s = (Err e, s') \<Longrightarrow> bind m f s = (Err e, s')"
  by (simp add: bind_def)

lemma bind_Panic [rust_eval]: "m s = (Panic q, s') \<Longrightarrow> bind m f s = (Panic q, s')"
  by (simp add: bind_def)

lemma bind_lift_Ok [simp]: "bind (lift_o (Ok x)) f = f x"
  by (rule ext) (simp add: bind_def lift_o_def)

lemma bind_ret [simp]: "bind (ret x) f = f x"
  by (rule ext) (simp add: bind_def ret_def)

lemma bind_eq_Ok:
  "bind m f s = (Ok y, s'') \<longleftrightarrow> (\<exists>x s'. m s = (Ok x, s') \<and> f x s' = (Ok y, s''))"
  by (auto simp: bind_def split: prod.splits outcome.splits)

lemma seq_eq_Ok:
  "seq m n s = (Ok y, s'') \<longleftrightarrow> (\<exists>x s'. m s = (Ok x, s') \<and> n s' = (Ok y, s''))"
  by (simp add: seq_def bind_eq_Ok)

lemma bind_bind: "bind (bind m f) g = bind m (\<lambda>x. bind (f x) g)"
  by (rule ext) (auto simp: bind_def split: prod.splits outcome.splits)

lemma lift_o_eq_Ok [simp]: "lift_o r s = (Ok x, s') \<longleftrightarrow> r = Ok x \<and> s' = s"
  by (auto simp: lift_o_def)

lemma modify_eq_Ok [simp]: "modify f s = (r, s') \<longleftrightarrow> r = Ok () \<and> s' = f s"
  by (auto simp: modify_def)

lemma gets_eq_Ok [simp]: "gets f s = (r, s') \<longleftrightarrow> r = Ok (f s) \<and> s' = s"
  by (auto simp: gets_def)

lemma ret_eq_Ok [simp]: "ret x s = (r, s') \<longleftrightarrow> r = Ok x \<and> s' = s"
  by (auto simp: ret_def)

lemma zoom_eq: "zoom g put m s = (r, s') \<longleftrightarrow> (\<exists>t. m (g s) = (r, t) \<and> s' = put t s)"
  by (auto simp: zoom_def split: prod.splits)

lemmas prog_Ok_iff = bind_eq_Ok seq_eq_Ok zoom_eq

lemma for_each_append: "for_each f (xs @ ys) = seq (for_each f xs) (for_each f ys)"
  by (induction xs) (simp_all add: seq_def bind_bind)

lemma for_each_Ok_Cons:
  "for_each f (x # xs) s = (Ok (), s'') \<longleftrightarrow> (\<exists>s'. f x s = (Ok (), s') \<and> for_each f xs s' = (Ok (), s''))"
  by (simp add: seq_eq_Ok)

lemma presI: "(\<And>s. I s \<Longrightarrow> I (snd (m s))) \<Longrightarrow> pres I m"
  by (simp add: pres_def triple_def)

lemma presD: "pres I m \<Longrightarrow> I s \<Longrightarrow> I (snd (m s))"
  by (simp add: pres_def triple_def)

lemma presE: "pres I m \<Longrightarrow> m s = (r, s') \<Longrightarrow> I s \<Longrightarrow> I s'"
  using presD by fastforce

lemma pres_ret [rust_pres]: "pres I (ret x)"
  by (rule presI) (simp add: ret_def)

lemma pres_lift_o [rust_pres]: "pres I (lift_o r)"
  by (rule presI) (simp add: lift_o_def)

lemma pres_gets [rust_pres]: "pres I (gets f)"
  by (rule presI) (simp add: gets_def)

lemma pres_modify: "(\<And>s. I s \<Longrightarrow> I (f s)) \<Longrightarrow> pres I (modify f)"
  by (rule presI) (simp add: modify_def)

lemma pres_bind [rust_pres]: "pres I m \<Longrightarrow> (\<And>x. pres I (f x)) \<Longrightarrow> pres I (bind m f)"
  by (rule presI) (auto simp: bind_def split: prod.splits outcome.splits dest: presE intro: presD)

lemma pres_seq [rust_pres]: "pres I m \<Longrightarrow> pres I n \<Longrightarrow> pres I (seq m n)"
  by (simp add: seq_def pres_bind)

lemma pres_adapt [rust_pres]: "pres I m \<Longrightarrow> pres I (adapt f m)"
  by (rule presI) (auto simp: adapt_def split: prod.splits dest: presE)

lemma pres_for_each [rust_pres]: "(\<And>x. pres I (f x)) \<Longrightarrow> pres I (for_each f xs)"
  by (induction xs) (auto intro: pres_ret pres_seq)

lemma pres_if [rust_pres]: "(b \<Longrightarrow> pres I m) \<Longrightarrow> (\<not> b \<Longrightarrow> pres I n) \<Longrightarrow> pres I (if b then m else n)"
  by simp

lemma pres_zoom:
  assumes "pres J m" and "\<And>s. I s \<Longrightarrow> J (g s)" and "\<And>t s. I s \<Longrightarrow> J t \<Longrightarrow> I (put t s)"
  shows "pres I (zoom g put m)"
  using assms by (intro presI) (auto simp: zoom_def split: prod.splits dest: presE)

lemma pres_zoom_frame:
  assumes "\<And>t s. I s \<Longrightarrow> I (put t s)"
  shows "pres I (zoom g put m)"
  using assms by (intro presI) (auto simp: zoom_def split: prod.splits)

lemma bind_panic_cases:
  "bind m f s = (Panic q, s'') \<longleftrightarrow>
     m s = (Panic q, s'') \<or> (\<exists>x s'. m s = (Ok x, s') \<and> f x s' = (Panic q, s''))"
  by (auto simp: bind_def split: prod.splits outcome.splits)

section \<open>Facts about machine words\<close>

lemma smin_sint: "sint (smin a b) = min (sint a) (sint b)"
  by (simp add: smin_def min_def)

lemma smax_sint: "sint (smax a b) = max (sint a) (sint b)"
  by (simp add: smax_def max_def)

lemma sint_range64: "- (2 ^ 63) \<le> sint (w :: 64 word)" "sint (w :: 64 word) < 2 ^ 63"
  using sint_greater_eq [of w] sint_less [of w] by simp_all

lemma uint_eq_sint: "0 \<le> sint (w :: 'w::len word) \<Longrightarrow> uint w = sint w"
proof -
  assume "0 \<le> sint w"
  moreover have "sint w < 2 ^ LENGTH('w)"
    using sint_less [of w] by (rule less_le_trans) simp
  ultimately show ?thesis by (simp add: uint_sint take_bit_int_eq_self)
qed

lemma usub_Ok: "usub p a b = Ok d \<Longrightarrow> d = a - b"
  by (simp add: arith_eval split: if_splits)

lemma uadd_Ok: "uadd p a b = Ok d \<Longrightarrow> d = a + b"
  by (simp add: arith_eval split: if_splits)

lemma ssub_Ok: "ssub p a b = Ok d \<Longrightarrow> d = a - b"
  by (simp add: arith_eval split: if_splits)

lemma sadd_Ok: "sadd p a b = Ok d \<Longrightarrow> d = a + b"
  by (simp add: arith_eval split: if_splits)

lemma sadd_cases: "sadd p a b = Ok (a + b) \<or> (sadd p a b = Panic Overflow \<and> p = Dev)"
  by (simp add: sadd_def arith_res_def)

lemma release_arith [simp]:
  "uadd Release a b = Ok (a + b)" "usub Release a b = Ok (a - b)" "umul Release a b = Ok (a * b)"
  "sadd Release a b = Ok (a + b)" "ssub Release a b = Ok (a - b)" "smul Release a b = Ok (a * b)"
  by (simp_all add: arith_eval)

end
