(* ===== verification/Offload_Sim.thy ===== *)
theory Offload_Sim
  imports Rust_Prelude
begin

text \<open>
  The data model of \<^verbatim>\<open>ndoffloadsim/src/main.rs\<close>: nodes, task segments, scheduling problems and
  solutions, and the one operation on them, \<open>node_mask\<close>, which encodes a node as a bit of an \<open>i64\<close>.
\<close>

unbundle bit_operations_syntax

type_synonym NodeId = i8
type_synonym SimTime = i64

text \<open>
  \<open>1i64 << n\<close> with an \<open>i8\<close> shift amount: a shift outside \<open>0..64\<close> panics where overflow checks are on,
  and otherwise only the low six bits of the amount count.
\<close>

definition node_mask :: "profile \<Rightarrow> NodeId \<Rightarrow> i64 outcome" where
  "node_mask p n =
     (if p = Dev \<and> (sint n < 0 \<or> 64 \<le> sint n) then Panic Overflow
      else Ok (push_bit (unat (n AND 63)) 1))"

definition NODE_COMPUTE :: NodeId where
  "NODE_COMPUTE = 0"

definition NODE_STORAGE :: NodeId where
  "NODE_STORAGE = 1"

record TaskSegment =
  seg_time :: SimTime
  in_mem :: i64
  out_mem :: i64
  delta_mem :: i64
  allowed_on :: i64

record Task =
  task_start_time :: SimTime
  segments :: "TaskSegment list"

record SchedulingProblem =
  tasks :: "Task list"

text \<open>
  The keys of the solution are references, but \<open>&TaskSegment\<close> hashes and compares by value, so the map
  is keyed by the segment itself.
\<close>

record SchedulingSolution =
  nodes_allowed :: i64
  actual_start_times :: "TaskSegment \<rightharpoonup> NodeId \<times> SimTime"

section \<open>A mask is the set of its nodes\<close>

text \<open>The bit-or of node masks that the comment on \<open>allowed_on\<close> describes.\<close>

primrec masks_or :: "profile \<Rightarrow> NodeId list \<Rightarrow> i64 outcome" where
  "masks_or p [] = Ok 0"
| "masks_or p (n # ns) = obind (node_mask p n) (\<lambda>m. obind (masks_or p ns) (\<lambda>w. Ok (m OR w)))"

lemma and_63_small:
  assumes "0 \<le> sint (n :: i8)" "sint n < 64"
  shows "unat (n AND 63) = nat (sint n)"
proof -
  have "uint n = sint n"
    using assms by (simp add: uint_eq_sint)
  then have u: "unat n = nat (sint n)" by (simp add: unat_eq_nat_uint)
  have "unat (n AND 63) = unat n AND 63"
    by (simp add: unsigned_and_eq)
  also have "\<dots> = unat n mod 64"
    using and_nat_def take_bit_eq_mask [of 6 "unat n"] by (simp add: take_bit_eq_mod mask_eq_exp_minus_1)
  finally show ?thesis using u assms by simp
qed

lemma node_mask_valid:
  assumes "0 \<le> sint n" "sint n < 64"
  shows "node_mask p n = Ok (push_bit (nat (sint n)) 1)"
  using assms and_63_small [OF assms] by (simp add: node_mask_def)

lemma bit_node_mask:
  assumes "0 \<le> sint n" "sint n < 64"
  shows "\<exists>w. node_mask p n = Ok w \<and> (\<forall>k. bit w k \<longleftrightarrow> k = nat (sint n))"
  using assms by (auto simp: node_mask_valid bit_simps)

text \<open>
  C40. For nodes numbered 0 to 63, under either profile, the bit-or of their masks exists and has bit
  \<open>k\<close> set exactly when node \<open>k\<close> is among them: \<open>allowed_on\<close> represents the set of allowed nodes.
\<close>

theorem masks_represent_node_sets:
  assumes "\<forall>n \<in> set ns. 0 \<le> sint n \<and> sint n < 64"
  shows "\<exists>w. masks_or p ns = Ok w \<and> (\<forall>k. bit w k \<longleftrightarrow> int k \<in> sint ` set ns)"
  using assms
proof (induction ns)
  case Nil
  then show ?case by simp
next
  case (Cons n ns)
  then obtain w where w: "masks_or p ns = Ok w" "\<forall>k. bit w k \<longleftrightarrow> int k \<in> sint ` set ns" by auto
  obtain m where m: "node_mask p n = Ok m" "\<forall>k. bit m k \<longleftrightarrow> k = nat (sint n)"
    using bit_node_mask [of n p] Cons.prems by auto
  have "\<forall>k. bit (m OR w) k \<longleftrightarrow> int k \<in> sint ` set (n # ns)"
    using w(2) m(2) Cons.prems by (auto simp: bit_or_iff)
  with w(1) m(1) show ?case by simp
qed

theorem masks_represent_node_sets_witness:
  "list_all (\<lambda>n. 0 \<le> sint n \<and> sint n < 64) [NODE_COMPUTE, NODE_STORAGE] \<and>
   (\<exists>w. masks_or Dev [NODE_COMPUTE, NODE_STORAGE] = Ok w \<and>
     (\<forall>k. bit w k \<longleftrightarrow> int k \<in> sint ` set [NODE_COMPUTE, NODE_STORAGE]))"
proof -
  have h: "\<forall>n \<in> set [NODE_COMPUTE, NODE_STORAGE]. 0 \<le> sint n \<and> sint n < 64"
    by (simp add: NODE_COMPUTE_def NODE_STORAGE_def)
  show ?thesis using h masks_represent_node_sets [OF h, of Dev] by (simp add: list_all_iff)
qed

end
