(* ===== verification/Rust_Map.thy ===== *)
theory Rust_Map
  imports Rust_Prelude "HOL-Library.AList"
begin

text \<open>
  Rust's \<open>HashMap\<close>: the entries of a map as an association list with distinct keys. The iteration
  order of a hash map is unspecified, so the code that iterates takes the order as a parameter, a
  function on the entries that only permutes them (\<open>iterates\<close>).
\<close>

type_synonym ('k, 'v) hashmap = "('k \<times> 'v) list"

definition hm_empty :: "('k, 'v) hashmap" where
  "hm_empty = []"

definition hm_insert :: "'k \<Rightarrow> 'v \<Rightarrow> ('k, 'v) hashmap \<Rightarrow> ('k, 'v) hashmap" where
  "hm_insert k v m = AList.update k v m"

definition hm_get :: "('k, 'v) hashmap \<Rightarrow> 'k \<Rightarrow> 'v option" where
  "hm_get m k = map_of m k"

definition hm_inv :: "('k, 'v) hashmap \<Rightarrow> bool" where
  "hm_inv m = distinct (map fst m)"

definition iterates :: "(('k, 'v) hashmap \<Rightarrow> ('k \<times> 'v) list) \<Rightarrow> bool" where
  "iterates order \<longleftrightarrow> (\<forall>m. mset (order m) = mset m)"

text \<open>
  The contract the clients use: lookup after insert, one entry per key, and an entry list that agrees
  with lookup. Counting entries is then counting keys, in whatever order they are visited.
\<close>

locale hash_map =
  fixes m_empty :: "'m"
    and m_insert :: "'k \<Rightarrow> 'v \<Rightarrow> 'm \<Rightarrow> 'm"
    and m_get :: "'m \<Rightarrow> 'k \<Rightarrow> 'v option"
    and m_inv :: "'m \<Rightarrow> bool"
    and m_entries :: "'m \<Rightarrow> ('k \<times> 'v) list"
  assumes get_empty: "m_get m_empty k = None"
    and get_insert: "m_inv m \<Longrightarrow> m_get (m_insert k v m) = (m_get m)(k \<mapsto> v)"
    and inv_empty: "m_inv m_empty"
    and inv_insert: "m_inv m \<Longrightarrow> m_inv (m_insert k v m)"
    and entries_get: "m_inv m \<Longrightarrow> (k, v) \<in> set (m_entries m) \<longleftrightarrow> m_get m k = Some v"
    and entries_distinct: "m_inv m \<Longrightarrow> distinct (map fst (m_entries m))"
begin

lemma finite_keys: "m_inv m \<Longrightarrow> finite {k. \<exists>v. m_get m k = Some v \<and> P k v}"
proof -
  assume "m_inv m"
  then have "{k. \<exists>v. m_get m k = Some v \<and> P k v} \<subseteq> fst ` set (m_entries m)"
    by (force simp: entries_get [symmetric])
  then show ?thesis by (rule finite_subset) simp
qed

lemma count_entries:
  assumes inv: "m_inv m" and perm: "mset es = mset (m_entries m)"
  shows "length (filter (\<lambda>(k, v). P k v) es) = card {k. \<exists>v. m_get m k = Some v \<and> P k v}"
proof -
  let ?f = "filter (\<lambda>(k, v). P k v) es"
  have "distinct (map fst es)"
    using entries_distinct [OF inv] perm by (metis mset_eq_imp_distinct_iff mset_map)
  then have d: "distinct (map fst ?f)"
    by (rule distinct_map_filter)
  have "set es = set (m_entries m)"
    using perm by (rule mset_eq_setD)
  then have "set (map fst ?f) = {k. \<exists>v. m_get m k = Some v \<and> P k v}"
    using entries_get [OF inv] by force
  with distinct_card [OF d] show ?thesis by simp
qed

primrec insert_all :: "('k \<times> 'v) list \<Rightarrow> 'm \<Rightarrow> 'm" where
  "insert_all [] m = m"
| "insert_all (e # es) m = insert_all es (m_insert (fst e) (snd e) m)"

lemma insert_all_last:
  "m_inv m \<Longrightarrow> m_inv (insert_all es m) \<and> m_get (insert_all es m) = m_get m ++ map_of (rev es)"
  by (induction es arbitrary: m) (auto simp: get_insert inv_insert map_add_def fun_eq_iff split: option.splits)

end

interpretation hm: hash_map hm_empty hm_insert hm_get hm_inv "\<lambda>m. m"
proof unfold_locales
  fix m :: "('a, 'b) hashmap" and k :: 'a and v :: 'b
  show "hm_get (hm_empty :: ('a, 'b) hashmap) k = None"
    by (simp add: hm_get_def hm_empty_def)
  show "hm_get (hm_insert k v m) = (hm_get m)(k \<mapsto> v)"
    by (rule ext) (simp add: hm_get_def hm_insert_def update_conv')
  show "hm_inv (hm_empty :: ('a, 'b) hashmap)"
    by (simp add: hm_inv_def hm_empty_def)
  show "hm_inv m \<Longrightarrow> hm_inv (hm_insert k v m)"
    by (simp add: hm_inv_def hm_insert_def distinct_update)
  show "hm_inv m \<Longrightarrow> (k, v) \<in> set m \<longleftrightarrow> hm_get m k = Some v"
    by (simp add: hm_inv_def hm_get_def)
  show "hm_inv m \<Longrightarrow> distinct (map fst m)"
    by (simp add: hm_inv_def)
qed

lemma iterates_id: "iterates (\<lambda>m. m)"
  by (simp add: iterates_def)

lemma iterates_rev: "iterates rev"
  by (simp add: iterates_def)

lemma iteratesD: "iterates order \<Longrightarrow> mset (order m) = mset m"
  by (simp add: iterates_def)

end
