(* ===== verification/Rust_Str.thy ===== *)
theory Rust_Str
  imports Rust_Prelude
begin

text \<open>
  What the sources use of Rust's \<open>str\<close>. A \<open>str\<close> is the list of its UTF-8 bytes (HOL's \<open>char\<close> is a
  byte), so lengths and indices are the ones of Rust. \<open>trim\<close> and \<open>split_whitespace\<close> recognise the
  25 code points of the Unicode White\_Space property by their encodings; UTF-8 is
  self-synchronising, so matching an encoding at the front or at the back of a valid string matches
  a whole code point.
\<close>

section \<open>White space\<close>

definition ascii_white :: "char list" where
  "ascii_white = [CHR 0x09, CHR 0x0A, CHR 0x0B, CHR 0x0C, CHR 0x0D, CHR 0x20]"

definition white2 :: "(char \<times> char) list" where
  "white2 = [(CHR 0xC2, CHR 0x85), (CHR 0xC2, CHR 0xA0)]"

definition white3 :: "(char \<times> char \<times> char) list" where
  "white3 = [(CHR 0xE1, CHR 0x9A, CHR 0x80),
    (CHR 0xE2, CHR 0x80, CHR 0x80), (CHR 0xE2, CHR 0x80, CHR 0x81), (CHR 0xE2, CHR 0x80, CHR 0x82),
    (CHR 0xE2, CHR 0x80, CHR 0x83), (CHR 0xE2, CHR 0x80, CHR 0x84), (CHR 0xE2, CHR 0x80, CHR 0x85),
    (CHR 0xE2, CHR 0x80, CHR 0x86), (CHR 0xE2, CHR 0x80, CHR 0x87), (CHR 0xE2, CHR 0x80, CHR 0x88),
    (CHR 0xE2, CHR 0x80, CHR 0x89), (CHR 0xE2, CHR 0x80, CHR 0x8A), (CHR 0xE2, CHR 0x80, CHR 0xA8),
    (CHR 0xE2, CHR 0x80, CHR 0xA9), (CHR 0xE2, CHR 0x80, CHR 0xAF), (CHR 0xE2, CHR 0x81, CHR 0x9F),
    (CHR 0xE3, CHR 0x80, CHR 0x80)]"

text \<open>Bytes of the white space code point at the front of a string, or at the front of a reversed one.\<close>

fun ws_len :: "string \<Rightarrow> nat" where
  "ws_len [] = 0"
| "ws_len (a # r) =
    (if a \<in> set ascii_white then 1
     else case r of
       [] \<Rightarrow> 0
     | b # r' \<Rightarrow>
         (if (a, b) \<in> set white2 then 2
          else case r' of [] \<Rightarrow> 0 | c # _ \<Rightarrow> (if (a, b, c) \<in> set white3 then 3 else 0)))"

fun ws_len_rev :: "string \<Rightarrow> nat" where
  "ws_len_rev [] = 0"
| "ws_len_rev (a # r) =
    (if a \<in> set ascii_white then 1
     else case r of
       [] \<Rightarrow> 0
     | b # r' \<Rightarrow>
         (if (b, a) \<in> set white2 then 2
          else case r' of [] \<Rightarrow> 0 | c # _ \<Rightarrow> (if (c, b, a) \<in> set white3 then 3 else 0)))"

definition ascii_ws_len :: "string \<Rightarrow> nat" where
  "ascii_ws_len s = (case s of [] \<Rightarrow> 0
     | a # _ \<Rightarrow> (if a \<in> set [CHR 0x09, CHR 0x0A, CHR 0x0C, CHR 0x0D, CHR 0x20] then 1 else 0))"

function drop_ws :: "(string \<Rightarrow> nat) \<Rightarrow> string \<Rightarrow> string" where
  "drop_ws w s = (if s = [] \<or> w s = 0 then s else drop_ws w (drop (w s) s))"
  by pat_completeness auto
termination
  by (relation "measure (\<lambda>(w, s). length s)") auto

declare drop_ws.simps [simp del]

definition trim_start :: "string \<Rightarrow> string" where
  "trim_start s = drop_ws ws_len s"

definition trim_end :: "string \<Rightarrow> string" where
  "trim_end s = rev (drop_ws ws_len_rev (rev s))"

definition trim :: "string \<Rightarrow> string" where
  "trim s = trim_end (trim_start s)"

section \<open>Splitting and searching\<close>

function split_ws :: "(string \<Rightarrow> nat) \<Rightarrow> string \<Rightarrow> string \<Rightarrow> string list" where
  "split_ws w acc [] = (if acc = [] then [] else [rev acc])"
| "split_ws w acc (c # cs) =
    (if w (c # cs) = 0 then split_ws w (c # acc) cs
     else (if acc = [] then [] else [rev acc]) @ split_ws w [] (drop (w (c # cs)) (c # cs)))"
  by pat_completeness auto
termination
  by (relation "measure (\<lambda>(w, acc, s). length s)") auto

definition split_whitespace :: "string \<Rightarrow> string list" where
  "split_whitespace s = split_ws ws_len [] s"

definition split_ascii_whitespace :: "string \<Rightarrow> string list" where
  "split_ascii_whitespace s = split_ws ascii_ws_len [] s"

primrec split_on :: "char \<Rightarrow> string \<Rightarrow> string list" where
  "split_on c [] = [[]]"
| "split_on c (x # xs) =
    (if x = c then [] # split_on c xs
     else (case split_on c xs of [] \<Rightarrow> [[x]] | p # ps \<Rightarrow> (x # p) # ps))"

primrec split_once :: "char \<Rightarrow> string \<Rightarrow> (string \<times> string) option" where
  "split_once c [] = None"
| "split_once c (x # xs) =
    (if x = c then Some ([], xs)
     else (case split_once c xs of None \<Rightarrow> None | Some (a, b) \<Rightarrow> Some (x # a, b)))"

fun strip_prefix :: "string \<Rightarrow> string \<Rightarrow> string option" where
  "strip_prefix [] s = Some s"
| "strip_prefix (x # xs) [] = None"
| "strip_prefix (x # xs) (y # ys) = (if x = y then strip_prefix xs ys else None)"

definition starts_with :: "string \<Rightarrow> string \<Rightarrow> bool" where
  "starts_with pat s = (strip_prefix pat s \<noteq> None)"

definition strip_suffix :: "string \<Rightarrow> string \<Rightarrow> string option" where
  "strip_suffix pat s = map_option rev (strip_prefix (rev pat) (rev s))"

definition strip_cr :: "string \<Rightarrow> string" where
  "strip_cr l = (case strip_suffix [CHR 0x0D] l of None \<Rightarrow> l | Some l' \<Rightarrow> l')"

text \<open>\<open>str::lines\<close>: a line keeps neither its \<open>\n\<close> nor the \<open>\r\<close> before it; no empty last line.\<close>

function str_lines :: "string \<Rightarrow> string list" where
  "str_lines s = (if s = [] then []
     else case dropWhile (\<lambda>c. c \<noteq> CHR 0x0A) s of
       [] \<Rightarrow> [s]
     | _ # r \<Rightarrow> strip_cr (takeWhile (\<lambda>c. c \<noteq> CHR 0x0A) s) # str_lines r)"
  by pat_completeness auto
termination
proof (relation "measure length")
  show "wf (measure (length :: string \<Rightarrow> nat))" by simp
next
  fix s :: string and c r
  assume "dropWhile (\<lambda>c. c \<noteq> CHR 0x0A) s = c # r"
  then have "length r < length (dropWhile (\<lambda>c. c \<noteq> CHR 0x0A) s)" by simp
  also have "\<dots> \<le> length s" by (rule length_dropWhile_le)
  finally show "(r, s) \<in> measure length" by simp
qed

declare str_lines.simps [simp del]

text \<open>\<open>.lines().map(str::trim).filter(|l| !l.is_empty())\<close>, the loop header of every \<open>/proc\<close> reader.\<close>

definition trimmed_lines :: "string \<Rightarrow> string list" where
  "trimmed_lines s = filter (\<lambda>l. l \<noteq> []) (map trim (str_lines s))"

text \<open>\<open>itertools::tuples\<close> at pairs: an odd last element is dropped.\<close>

fun tuples :: "'a list \<Rightarrow> ('a \<times> 'a) list" where
  "tuples (x # y # r) = (x, y) # tuples r"
| "tuples r = []"

section \<open>Parsing and printing integers\<close>

definition digit_val :: "char \<Rightarrow> int option" where
  "digit_val c = (let n = of_char c :: int in if 48 \<le> n \<and> n \<le> 57 then Some (n - 48) else None)"

text \<open>
  \<open>from_str_radix\<close> at radix 10: the digits are folded with checked arithmetic, so a bad digit wins
  over an overflow only when it comes first.
\<close>

primrec parse_pos :: "int \<Rightarrow> int \<Rightarrow> string \<Rightarrow> int_error + int" where
  "parse_pos hi v [] = Inr v"
| "parse_pos hi v (c # cs) =
    (case digit_val c of
       None \<Rightarrow> Inl InvalidDigit
     | Some d \<Rightarrow> (if hi < v * 10 + d then Inl PosOverflow else parse_pos hi (v * 10 + d) cs))"

primrec parse_neg :: "int \<Rightarrow> int \<Rightarrow> string \<Rightarrow> int_error + int" where
  "parse_neg lo v [] = Inr v"
| "parse_neg lo v (c # cs) =
    (case digit_val c of
       None \<Rightarrow> Inl InvalidDigit
     | Some d \<Rightarrow> (if v * 10 - d < lo then Inl NegOverflow else parse_neg lo (v * 10 - d) cs))"

definition parse_int :: "bool \<Rightarrow> int \<Rightarrow> int \<Rightarrow> string \<Rightarrow> int_error + int" where
  "parse_int sgnd lo hi s =
    (case s of
       [] \<Rightarrow> Inl IntEmpty
     | c # cs \<Rightarrow>
         (if (c = CHR ''+'' \<or> c = CHR ''-'') \<and> cs = [] then Inl InvalidDigit
          else if c = CHR ''+'' then parse_pos hi 0 cs
          else if c = CHR ''-'' \<and> sgnd then parse_neg lo 0 cs
          else parse_pos hi 0 s))"

definition int_outcome :: "int_error + int \<Rightarrow> 'w::len word outcome" where
  "int_outcome r = (case r of Inl e \<Rightarrow> Err (ParseIntError e) | Inr v \<Rightarrow> Ok (word_of_int v))"

definition parse_u64 :: "string \<Rightarrow> u64 outcome" where
  "parse_u64 s = int_outcome (parse_int False 0 (2 ^ 64 - 1) s)"

definition parse_i64 :: "string \<Rightarrow> i64 outcome" where
  "parse_i64 s = int_outcome (parse_int True (- (2 ^ 63)) (2 ^ 63 - 1) s)"

definition digit_char :: "int \<Rightarrow> char" where
  "digit_char d = char_of (48 + d)"

function show_pos :: "int \<Rightarrow> string" where
  "show_pos n = (if n < 10 then [digit_char n] else show_pos (n div 10) @ [digit_char (n mod 10)])"
  by pat_completeness auto
termination
  by (relation "measure nat") auto

declare show_pos.simps [simp del]

definition show_nat :: "nat \<Rightarrow> string" where
  "show_nat n = show_pos (int n)"

definition show_int :: "int \<Rightarrow> string" where
  "show_int i = (if i < 0 then CHR ''-'' # show_pos (- i) else show_pos i)"

definition show_u64 :: "u64 \<Rightarrow> string" where
  "show_u64 w = show_pos (uint w)"

definition show_i64 :: "i64 \<Rightarrow> string" where
  "show_i64 w = show_int (sint w)"


section \<open>Characters that no white space encoding starts or ends with\<close>

definition plain_char :: "char \<Rightarrow> bool" where
  "plain_char c \<longleftrightarrow> c \<notin> set ascii_white \<and> (of_char c :: nat) < 128"

definition number_chars :: "char set" where
  "number_chars = set ''-0123456789''"

primrec join_with :: "char \<Rightarrow> string list \<Rightarrow> string" where
  "join_with c [] = []"
| "join_with c (x # xs) = (case xs of [] \<Rightarrow> x | _ \<Rightarrow> x @ c # join_with c xs)"

lemma of_char_literal_high:
  "(a, b) \<in> set white2 \<Longrightarrow> 128 \<le> (of_char a :: nat) \<and> 128 \<le> (of_char b :: nat)"
  "(a, b, c) \<in> set white3 \<Longrightarrow> 128 \<le> (of_char a :: nat) \<and> 128 \<le> (of_char c :: nat)"
  by (auto simp: white2_def white3_def)

lemma ws_len_plain: "plain_char c \<Longrightarrow> ws_len (c # r) = 0"
  using of_char_literal_high by (fastforce simp: plain_char_def split: list.splits)

lemma ws_len_rev_plain: "plain_char c \<Longrightarrow> ws_len_rev (c # r) = 0"
  using of_char_literal_high by (fastforce simp: plain_char_def split: list.splits)

lemma ascii_ws_len_plain [simp]: "plain_char c \<Longrightarrow> ascii_ws_len (c # r) = 0"
  by (auto simp: plain_char_def ascii_ws_len_def ascii_white_def)

lemma ws_len_space [simp]:
  "ws_len (CHR 0x20 # r) = 1" "ws_len_rev (CHR 0x20 # r) = 1" "ascii_ws_len (CHR 0x20 # r) = 1"
  by (simp_all add: ascii_white_def ascii_ws_len_def)

declare ws_len.simps(2) [simp del] ws_len_rev.simps(2) [simp del]
declare ws_len_plain [simp] ws_len_rev_plain [simp]

lemma number_chars_plain: "c \<in> number_chars \<Longrightarrow> plain_char c"
  by (auto simp: number_chars_def plain_char_def ascii_white_def)

lemma drop_ws_Nil [simp]: "drop_ws w [] = []"
  by (simp add: drop_ws.simps)

lemma drop_ws_stop: "w s = 0 \<Longrightarrow> drop_ws w s = s"
  by (simp add: drop_ws.simps)

lemma drop_ws_space [simp]:
  "drop_ws ws_len (CHR 0x20 # s) = drop_ws ws_len s"
  "drop_ws ws_len_rev (CHR 0x20 # s) = drop_ws ws_len_rev s"
  by (simp_all add: drop_ws.simps [of _ "CHR 0x20 # s"])

lemma drop_ws_spaces [simp]:
  "drop_ws ws_len (replicate k (CHR 0x20) @ s) = drop_ws ws_len s"
  "drop_ws ws_len_rev (replicate k (CHR 0x20) @ s) = drop_ws ws_len_rev s"
  by (induction k) simp_all

text \<open>What \<open>trim\<close> leaves neither starts nor ends with white space.\<close>

lemma drop_ws_done: "drop_ws w s = [] \<or> w (drop_ws w s) = 0"
  by (induction w s rule: drop_ws.induct) (metis drop_ws.simps)

lemma drop_ws_suffix: "\<exists>p. s = p @ drop_ws w s"
proof (induction w s rule: drop_ws.induct)
  case (1 w s)
  show ?case
  proof (cases "s = [] \<or> w s = 0")
    case True
    then show ?thesis by (simp add: drop_ws.simps [of w s])
  next
    case False
    with 1 obtain p where "drop (w s) s = p @ drop_ws w (drop (w s) s)" by auto
    with False have "s = (take (w s) s @ p) @ drop_ws w s"
      by (metis append.assoc append_take_drop_id drop_ws.simps)
    then show ?thesis ..
  qed
qed

lemma trim_id:
  assumes "s \<noteq> []" "plain_char (hd s)" "plain_char (last s)"
  shows "trim s = s"
proof -
  obtain c r where s: "s = c # r" using assms(1) by (cases s) auto
  obtain r' d where d: "s = r' @ [d]" using assms(1) by (metis append_butlast_last_id)
  have "trim_start s = s"
    using assms s by (simp add: trim_start_def drop_ws_stop)
  moreover have "trim_end s = s"
    using assms d by (simp add: trim_end_def drop_ws_stop)
  ultimately show ?thesis by (simp add: trim_def)
qed

lemma trim_start_spaces [simp]: "trim_start (replicate k (CHR 0x20) @ s) = trim_start s"
  by (simp add: trim_start_def)

lemma trim_end_spaces [simp]: "trim_end (s @ replicate k (CHR 0x20)) = trim_end s"
  by (simp add: trim_end_def)

lemma trim_start_id: "s \<noteq> [] \<Longrightarrow> plain_char (hd s) \<Longrightarrow> trim_start (s @ r) = s @ r"
  by (cases s) (simp_all add: trim_start_def drop_ws_stop)

lemma trim_end_id: "s \<noteq> [] \<Longrightarrow> plain_char (last s) \<Longrightarrow> trim_end (r @ s) = r @ s"
  by (cases s rule: rev_cases) (simp_all add: trim_end_def drop_ws_stop)

lemma trim_padded:
  assumes "s \<noteq> []" "plain_char (hd s)" "plain_char (last s)"
  shows "trim (replicate k (CHR 0x20) @ s @ replicate m (CHR 0x20)) = s"
  using assms trim_end_id [of s "[]"]
  by (simp add: trim_def trim_start_id)

lemma trim_Nil [simp]: "trim [] = []"
  by (simp add: trim_def trim_start_def trim_end_def)

section \<open>Splitting undoes joining\<close>

lemma split_on_not_Nil [simp]: "split_on c s \<noteq> []"
  by (induction s) (auto split: list.splits)

lemma split_on_none: "c \<notin> set s \<Longrightarrow> split_on c s = [s]"
  by (induction s) auto

lemma split_on_piece: "c \<notin> set a \<Longrightarrow> split_on c (a @ c # b) = a # split_on c b"
  by (induction a) auto

lemma split_on_join:
  "xs \<noteq> [] \<Longrightarrow> (\<And>x. x \<in> set xs \<Longrightarrow> c \<notin> set x) \<Longrightarrow> split_on c (join_with c xs) = xs"
proof (induction xs)
  case Nil
  then show ?case by simp
next
  case (Cons x xs)
  then show ?case
    by (cases xs) (simp_all add: split_on_none split_on_piece)
qed

lemma split_on_pieces: "p \<in> set (split_on c s) \<Longrightarrow> c \<notin> set p"
  by (induction s arbitrary: p) (auto split: if_splits list.splits)

lemma join_split_on: "join_with c (split_on c s) = s"
proof (induction s)
  case Nil
  then show ?case by simp
next
  case (Cons x s)
  show ?case
  proof (cases "split_on c s")
    case Nil
    then show ?thesis by (simp add: split_on_not_Nil)
  next
    case (Cons p ps)
    with Cons.IH show ?thesis by (cases ps) simp_all
  qed
qed

lemma split_once_Some [simp]: "c \<notin> set a \<Longrightarrow> split_once c (a @ c # b) = Some (a, b)"
  by (induction a) auto

lemma split_once_None: "split_once c s = None \<longleftrightarrow> c \<notin> set s"
  by (induction s) (auto split: option.splits)

lemma split_once_eq: "split_once c s = Some (a, b) \<longleftrightarrow> c \<notin> set a \<and> s = a @ c # b"
proof
  show "split_once c s = Some (a, b) \<Longrightarrow> c \<notin> set a \<and> s = a @ c # b"
    by (induction s arbitrary: a) (auto split: option.splits if_splits)
qed auto

lemma strip_prefix_eq: "strip_prefix p s = Some r \<longleftrightarrow> s = p @ r"
  by (induction p s rule: strip_prefix.induct) auto

lemma strip_prefix_append [simp]: "strip_prefix p (p @ r) = Some r"
  by (simp add: strip_prefix_eq)

lemma starts_with_iff: "starts_with p s \<longleftrightarrow> (\<exists>r. s = p @ r)"
  by (auto simp: starts_with_def strip_prefix_eq)

lemma strip_suffix_eq: "strip_suffix p s = Some r \<longleftrightarrow> s = r @ p"
proof -
  have "strip_suffix p s = Some r \<longleftrightarrow> strip_prefix (rev p) (rev s) = Some (rev r)"
    by (auto simp: strip_suffix_def)
  then show ?thesis
    by (metis rev_append rev_rev_ident strip_prefix_eq)
qed

lemma strip_suffix_None: "strip_suffix p s = None \<longleftrightarrow> \<not> (\<exists>r. s = r @ p)"
  by (metis not_None_eq strip_suffix_eq option.distinct(1))

lemma split_ws_word:
  assumes "\<And>c r. plain_char c \<Longrightarrow> w (c # r) = 0" and "\<And>c. c \<in> set x \<Longrightarrow> plain_char c"
  shows "split_ws w acc (x @ r) = split_ws w (rev x @ acc) r"
  using assms(2) by (induction x arbitrary: acc) (simp_all add: assms(1))

lemma split_ws_words:
  assumes w: "\<And>c r. plain_char c \<Longrightarrow> w (c # r) = 0" "\<And>r. w (CHR 0x20 # r) = 1"
    and xs: "\<And>x. x \<in> set xs \<Longrightarrow> x \<noteq> [] \<and> (\<forall>c \<in> set x. plain_char c)"
  shows "split_ws w [] (join_with (CHR 0x20) xs) = xs"
  using xs
proof (induction xs)
  case Nil
  then show ?case by simp
next
  case (Cons x xs)
  have x: "x \<noteq> []" "\<And>c. c \<in> set x \<Longrightarrow> plain_char c" using Cons.prems by auto
  have IH: "split_ws w [] (join_with (CHR 0x20) xs) = xs" using Cons by auto
  show ?case
  proof (cases xs)
    case Nil
    then show ?thesis
      using split_ws_word [of w x "[]" "[]"] w(1) x by simp
  next
    case (Cons y ys)
    then have "split_ws w [] (join_with (CHR 0x20) (x # xs))
        = split_ws w (rev x) (CHR 0x20 # join_with (CHR 0x20) xs)"
      using split_ws_word [of w x "[]" "CHR 0x20 # join_with (CHR 0x20) xs"] w(1) x(2) by simp
    also have "\<dots> = x # split_ws w [] (join_with (CHR 0x20) xs)"
      using x(1) by (simp add: w(2))
    finally show ?thesis using IH by simp
  qed
qed

text \<open>A first word, spaces, and then words.\<close>

lemma split_ws_spaces:
  "(\<And>r. w (CHR 0x20 # r) = 1) \<Longrightarrow> split_ws w [] (replicate k (CHR 0x20) @ s) = split_ws w [] s"
  by (induction k) simp_all

lemma split_ws_after_word:
  assumes w: "\<And>c r. plain_char c \<Longrightarrow> w (c # r) = 0" "\<And>r. w (CHR 0x20 # r) = 1"
    and x: "x \<noteq> []" "\<And>c. c \<in> set x \<Longrightarrow> plain_char c"
  shows "split_ws w [] (x @ replicate (Suc k) (CHR 0x20) @ s) = x # split_ws w [] s"
proof -
  have "split_ws w [] (x @ replicate (Suc k) (CHR 0x20) @ s) =
      split_ws w (rev x @ []) (replicate (Suc k) (CHR 0x20) @ s)"
    by (rule split_ws_word) (simp_all add: w(1) x(2))
  then show ?thesis
    using x(1) split_ws_spaces [of w k s] by (simp add: w(2))
qed

lemmas split_whitespace_after_word = split_ws_after_word [where w = ws_len, folded split_whitespace_def]
lemmas split_ascii_after_word =
  split_ws_after_word [where w = ascii_ws_len, folded split_ascii_whitespace_def]
lemmas split_whitespace_words = split_ws_words [where w = ws_len, folded split_whitespace_def]
lemmas split_ascii_words =
  split_ws_words [where w = ascii_ws_len, folded split_ascii_whitespace_def]

section \<open>Files made of lines\<close>

definition file_of :: "string list \<Rightarrow> string" where
  "file_of ls = concat (map (\<lambda>l. l @ [CHR 0x0A]) ls)"

lemma str_lines_file:
  assumes "\<And>l. l \<in> set ls \<Longrightarrow> CHR 0x0A \<notin> set l \<and> (l = [] \<or> last l \<noteq> CHR 0x0D)"
  shows "str_lines (file_of ls) = ls"
  using assms
proof (induction ls)
  case Nil
  then show ?case by (simp add: file_of_def str_lines.simps)
next
  case (Cons l ls)
  have l: "\<And>c. c \<in> set l \<Longrightarrow> c \<noteq> CHR 0x0A" "l = [] \<or> last l \<noteq> CHR 0x0D" using Cons.prems by auto
  have cr: "strip_cr l = l"
  proof (cases "strip_suffix [CHR 0x0D] l")
    case (Some r)
    then have "l = r @ [CHR 0x0D]" by (simp only: strip_suffix_eq)
    with l(2) show ?thesis by simp
  qed (simp add: strip_cr_def)
  have f: "file_of (l # ls) = l @ CHR 0x0A # file_of ls" by (simp add: file_of_def)
  have d: "dropWhile (\<lambda>c. c \<noteq> CHR 0x0A) (l @ CHR 0x0A # r) = CHR 0x0A # r"
    and t: "takeWhile (\<lambda>c. c \<noteq> CHR 0x0A) (l @ CHR 0x0A # r) = l" for r
    using l(1) by (induction l) auto
  have "str_lines (file_of (l # ls)) = strip_cr l # str_lines (file_of ls)"
    by (subst str_lines.simps) (simp add: f d t)
  with Cons cr show ?case by simp
qed

definition proper_line :: "string \<Rightarrow> bool" where
  "proper_line l \<longleftrightarrow> l \<noteq> [] \<and> CHR 0x0A \<notin> set l \<and> plain_char (hd l) \<and> plain_char (last l)"

lemma proper_line_trim: "proper_line l \<Longrightarrow> trim l = l"
  by (simp add: proper_line_def trim_id)

lemma proper_lines_file:
  "list_all proper_line ls \<Longrightarrow> str_lines (file_of ls) = ls"
  by (rule str_lines_file) (auto simp: list_all_iff proper_line_def plain_char_def ascii_white_def)

lemma trimmed_lines_file: "list_all proper_line ls \<Longrightarrow> trimmed_lines (file_of ls) = ls"
  unfolding trimmed_lines_def proper_lines_file
  by (induction ls) (auto simp: proper_line_trim, auto simp: proper_line_def)

section \<open>Integers round trip through their decimal form\<close>

lemma digit_val_digit_char [simp]: "0 \<le> d \<Longrightarrow> d < 10 \<Longrightarrow> digit_val (digit_char d) = Some d"
  by (simp add: digit_val_def digit_char_def Let_def)

lemma digit_val_range: "digit_val c = Some d \<Longrightarrow> 0 \<le> d \<and> d \<le> 9"
  by (auto simp: digit_val_def Let_def split: if_splits)

lemma digit_char_number: "0 \<le> d \<Longrightarrow> d < 10 \<Longrightarrow> digit_char d \<in> set ''0123456789''"
proof -
  have "\<forall>d \<in> set [0..9]. digit_char d \<in> set ''0123456789''" by code_simp
  then show "0 \<le> d \<Longrightarrow> d < 10 \<Longrightarrow> digit_char d \<in> set ''0123456789''" by simp
qed

lemma show_pos_not_Nil [simp]: "show_pos n \<noteq> []"
  by (subst show_pos.simps) simp

lemma show_pos_chars: "0 \<le> n \<Longrightarrow> set (show_pos n) \<subseteq> set ''0123456789''"
proof (induction n rule: show_pos.induct)
  case (1 n)
  then show ?case
    using digit_char_number [of n] digit_char_number [of "n mod 10"]
    by (cases "n < 10") (auto simp: show_pos.simps [of n])
qed

lemma parse_pos_append:
  "parse_pos hi v (xs @ ys) = (case parse_pos hi v xs of Inl e \<Rightarrow> Inl e | Inr v' \<Rightarrow> parse_pos hi v' ys)"
  by (induction xs arbitrary: v) (auto split: option.splits)

lemma parse_neg_append:
  "parse_neg lo v (xs @ ys) = (case parse_neg lo v xs of Inl e \<Rightarrow> Inl e | Inr v' \<Rightarrow> parse_neg lo v' ys)"
  by (induction xs arbitrary: v) (auto split: option.splits)

lemma parse_pos_show: "0 \<le> n \<Longrightarrow> n \<le> hi \<Longrightarrow> parse_pos hi 0 (show_pos n) = Inr n"
proof (induction n rule: show_pos.induct)
  case (1 n)
  show ?case
  proof (cases "n < 10")
    case True
    with "1.prems" show ?thesis by (simp add: show_pos.simps [of n])
  next
    case False
    with 1 have "parse_pos hi 0 (show_pos (n div 10)) = Inr (n div 10)" by simp
    with False "1.prems" show ?thesis
      by (simp add: show_pos.simps [of n] parse_pos_append)
  qed
qed

lemma parse_neg_show: "0 \<le> n \<Longrightarrow> lo \<le> - n \<Longrightarrow> parse_neg lo 0 (show_pos n) = Inr (- n)"
proof (induction n rule: show_pos.induct)
  case (1 n)
  show ?case
  proof (cases "n < 10")
    case True
    with "1.prems" show ?thesis by (simp add: show_pos.simps [of n])
  next
    case False
    with 1 have "parse_neg lo 0 (show_pos (n div 10)) = Inr (- (n div 10))" by simp
    moreover have "- (n div 10) * 10 - n mod 10 = - n" by presburger
    ultimately show ?thesis
      using False "1.prems" by (simp add: show_pos.simps [of n] parse_neg_append)
  qed
qed

lemma parse_pos_range:
  "parse_pos hi v s = Inr r \<Longrightarrow> 0 \<le> v \<Longrightarrow> v \<le> hi \<Longrightarrow> 0 \<le> r \<and> r \<le> hi"
  by (induction s arbitrary: v) (auto split: option.splits if_splits dest: digit_val_range)

lemma show_pos_head: "0 \<le> n \<Longrightarrow> \<exists>c r. show_pos n = c # r \<and> c \<in> set ''0123456789''"
  using show_pos_chars [of n] show_pos_not_Nil [of n] by (cases "show_pos n") auto

lemma parse_int_show:
  assumes "lo \<le> i" "i \<le> hi" "sgnd \<or> 0 \<le> i"
  shows "parse_int sgnd lo hi (show_int i) = Inr i"
proof (cases "i < 0")
  case True
  with assms show ?thesis
    using parse_neg_show [of "- i" lo] by (simp add: parse_int_def show_int_def)
next
  case False
  then obtain c r where cr: "show_pos i = c # r" "c \<in> set ''0123456789''"
    using show_pos_head [of i] by auto
  moreover have "parse_pos hi 0 (c # r) = Inr i"
    using parse_pos_show [of i hi] assms False cr(1) by simp
  ultimately show ?thesis
    using False by (auto simp: parse_int_def show_int_def)
qed

lemma digits_number: "set ''0123456789'' \<subseteq> number_chars"
  by (simp add: number_chars_def)

lemma show_int_chars: "set (show_int i) \<subseteq> number_chars"
proof -
  have "CHR ''-'' \<in> number_chars" by (simp add: number_chars_def)
  then show ?thesis
    using show_pos_chars [of i] show_pos_chars [of "- i"] digits_number by (auto simp: show_int_def)
qed

text \<open>
  A printable type: the printer and the parser of one integer type. The laws are what the readers of
  \<^verbatim>\<open>/proc\<close> and of the statistics packet rely on.
\<close>

locale printable =
  fixes shows_as :: "'a \<Rightarrow> string" and parses_as :: "string \<Rightarrow> 'a outcome"
  assumes parse_show: "parses_as (shows_as x) = Ok x"
    and show_chars: "set (shows_as x) \<subseteq> number_chars"
    and show_not_Nil: "shows_as x \<noteq> []"
begin

lemma show_inj: "shows_as x = shows_as y \<Longrightarrow> x = y"
  using parse_show by (metis outcome.inject(1))

lemma show_plain: "c \<in> set (shows_as x) \<Longrightarrow> plain_char c"
  using show_chars number_chars_plain by blast

lemma show_ends_plain: "plain_char (hd (shows_as x)) \<and> plain_char (last (shows_as x))"
  by (simp add: show_plain [of _ x] show_not_Nil [of x])

lemma parse_trim_padded:
  "parses_as (trim (replicate k (CHR 0x20) @ shows_as x @ replicate m (CHR 0x20))) = Ok x"
  by (simp add: trim_padded show_not_Nil show_ends_plain parse_show)

lemma split_show_fields:
  assumes "xs \<noteq> []" and "c \<notin> number_chars"
  shows "split_on c (join_with c (map shows_as xs)) = map shows_as xs"
  using assms show_chars by (intro split_on_join) auto

end

interpretation u64_text: printable show_u64 parse_u64
proof unfold_locales
  fix x :: u64
  have eq: "show_u64 x = show_int (uint x)"
    by (simp add: show_u64_def show_int_def not_less)
  have "uint x \<le> 2 ^ 64 - 1"
    using uint_bounded [of x] by simp
  then show "parse_u64 (show_u64 x) = Ok x"
    by (simp add: parse_u64_def eq parse_int_show int_outcome_def)
  show "set (show_u64 x) \<subseteq> number_chars"
    using show_int_chars eq by simp
  show "show_u64 x \<noteq> []"
    by (simp add: show_u64_def)
qed

interpretation i64_text: printable show_i64 parse_i64
proof unfold_locales
  fix x :: i64
  show "parse_i64 (show_i64 x) = Ok x"
    using sint_range64 [of x] by (simp add: parse_i64_def show_i64_def parse_int_show int_outcome_def)
  show "set (show_i64 x) \<subseteq> number_chars"
    using show_int_chars by (simp add: show_i64_def)
  show "show_i64 x \<noteq> []"
    by (simp add: show_i64_def show_int_def)
qed

end
