(* ===== verification/Trace_Analysis.thy ===== *)
theory Trace_Analysis
  imports Rust_Map Rust_Str
begin

text \<open>
  The trace analyser, \<^verbatim>\<open>pin-NearMAP/analyse-results/src/main.rs\<close>: it reads the logs of the memory
  tracing tool, one \<open>phase;\<close> line per program phase followed by its \<open>trace;\<close> lines, and prints per
  phase how many bytes of pages were read, written, written in vain and read for the first time.

  The file system is a parameter: what opening and reading a path and listing a folder give.
\<close>

section \<open>Accesses and phases\<close>

datatype AccessType = Read | Write | ReadWrite

fun try_from_rw :: "bool \<Rightarrow> bool \<Rightarrow> AccessType option" where
  "try_from_rw True False = Some Read"
| "try_from_rw False True = Some Write"
| "try_from_rw True True = Some ReadWrite"
| "try_from_rw False False = None"

fun is_read :: "AccessType \<Rightarrow> bool" where
  "is_read Read = True"
| "is_read ReadWrite = True"
| "is_read Write = False"

fun is_write :: "AccessType \<Rightarrow> bool" where
  "is_write Write = True"
| "is_write ReadWrite = True"
| "is_write Read = False"

type_synonym PageNumber = u64

record TracePhase =
  phase_name :: string
  page_size :: u64
  phase_start_time :: u64
  instructions :: u64
  io_bytes :: u64
  accesses :: "(PageNumber, AccessType) hashmap"

definition TracePhase_new :: "string \<Rightarrow> u64 \<Rightarrow> u64 \<Rightarrow> u64 \<Rightarrow> u64 \<Rightarrow> TracePhase" where
  "TracePhase_new nm ps st ins io =
     \<lparr>phase_name = nm, page_size = ps, phase_start_time = st, instructions = ins, io_bytes = io,
      accesses = hm_empty\<rparr>"

section \<open>Reading a trace\<close>

definition next_field :: "string list \<Rightarrow> nat \<Rightarrow> string outcome" where
  "next_field spl i = unwrap_opt (nth_opt spl i)"

definition trace_line :: "string \<Rightarrow> TracePhase list \<Rightarrow> TracePhase list outcome" where
  "trace_line line phases =
    (if phases = [] then Panic UnwrapNone
     else let spl = split_on (CHR '';'') line in
       obind (next_field spl 0) (\<lambda>_.
       obind (next_field spl 1) (\<lambda>_.
       obind (next_field spl 2) (\<lambda>_.
       obind (next_field spl 3) (\<lambda>_.
       obind (next_field spl 4) (\<lambda>pagestr.
       obind (unwrap_res (parse_u64 pagestr)) (\<lambda>pageidx.
       obind (next_field spl 5) (\<lambda>accessty.
       obind (unwrap_opt (try_from_rw (CHR ''R'' \<in> set accessty) (CHR ''W'' \<in> set accessty))) (\<lambda>at.
       let phase = last phases in
       Ok (butlast phases @ [phase\<lparr>accesses := hm_insert pageidx at (accesses phase)\<rparr>]))))))))))"

text \<open>The optional fields: \<open>spl.next().unwrap_or("0").parse().unwrap()\<close>.\<close>

definition opt_field :: "string list \<Rightarrow> nat \<Rightarrow> u64 outcome" where
  "opt_field spl i =
     unwrap_res (parse_u64 (case nth_opt spl i of None \<Rightarrow> ''0'' | Some f \<Rightarrow> f))"

definition phase_line :: "string \<Rightarrow> TracePhase list \<Rightarrow> string \<Rightarrow> (TracePhase list \<times> string) outcome" where
  "phase_line line phases next_phase =
    (let spl = split_on (CHR '';'') line in
     obind (next_field spl 0) (\<lambda>_.
     obind (next_field spl 1) (\<lambda>ps.
     obind (unwrap_res (parse_u64 ps)) (\<lambda>psize.
     obind (next_field spl 2) (\<lambda>st.
     obind (unwrap_res (parse_u64 st)) (\<lambda>prev_start_time.
     obind (next_field spl 3) (\<lambda>et.
     obind (unwrap_res (parse_u64 et)) (\<lambda>_.
     obind (next_field spl 4) (\<lambda>name.
     obind (opt_field spl 5) (\<lambda>ins.
     obind (opt_field spl 6) (\<lambda>io.
     Ok (phases @ [TracePhase_new next_phase psize prev_start_time ins io], name))))))))))))"

definition scan_line :: "string \<Rightarrow> TracePhase list \<times> string \<Rightarrow> (TracePhase list \<times> string) outcome" where
  "scan_line line st =
    (case st of (phases, next_phase) \<Rightarrow>
      if starts_with ''trace;'' line then obind (trace_line line phases) (\<lambda>ph. Ok (ph, next_phase))
      else if starts_with ''phase;'' line then phase_line line phases next_phase
      else Ok (phases, next_phase))"

primrec scan_lines ::
  "(io_error + string) list \<Rightarrow> TracePhase list \<times> string \<Rightarrow> (TracePhase list \<times> string) outcome" where
  "scan_lines [] st = Ok st"
| "scan_lines (l # ls) st =
    (case l of Inl e \<Rightarrow> Err (IoError e) | Inr line \<Rightarrow> obind (scan_line line st) (scan_lines ls))"

section \<open>Counting pages\<close>

record counts =
  read_pages :: u64
  written_pages :: u64
  dead_writes :: u64
  new_reads :: u64

definition counts_zero :: counts where
  "counts_zero = \<lparr>read_pages = 0, written_pages = 0, dead_writes = 0, new_reads = 0\<rparr>"

definition is_new_read :: "TracePhase list \<Rightarrow> nat \<Rightarrow> PageNumber \<Rightarrow> bool" where
  "is_new_read phases i pid = list_all (\<lambda>q. hm_get (accesses q) pid = None) (take i phases)"

definition is_dead_write :: "TracePhase list \<Rightarrow> nat \<Rightarrow> PageNumber \<Rightarrow> bool" where
  "is_dead_write phases i pid =
     list_all (\<lambda>q. case hm_get (accesses q) pid of None \<Rightarrow> True | Some at \<Rightarrow> \<not> is_read at)
       (drop (i + 1) phases)"

definition count_read :: "profile \<Rightarrow> TracePhase list \<Rightarrow> nat \<Rightarrow> PageNumber \<times> AccessType \<Rightarrow> counts \<Rightarrow> counts outcome" where
  "count_read p phases i e c =
    (if is_read (snd e) then
       obind (uadd p (read_pages c) 1) (\<lambda>r.
         let c1 = c\<lparr>read_pages := r\<rparr> in
         if is_new_read phases i (fst e)
         then obind (uadd p (new_reads c1) 1) (\<lambda>n. Ok (c1\<lparr>new_reads := n\<rparr>))
         else Ok c1)
     else Ok c)"

definition count_write :: "profile \<Rightarrow> TracePhase list \<Rightarrow> nat \<Rightarrow> PageNumber \<times> AccessType \<Rightarrow> counts \<Rightarrow> counts outcome" where
  "count_write p phases i e c =
    (if is_write (snd e) then
       obind (uadd p (written_pages c) 1) (\<lambda>w.
         let c1 = c\<lparr>written_pages := w\<rparr> in
         if is_dead_write phases i (fst e)
         then obind (uadd p (dead_writes c1) 1) (\<lambda>d. Ok (c1\<lparr>dead_writes := d\<rparr>))
         else Ok c1)
     else Ok c)"

primrec count_entries ::
  "profile \<Rightarrow> TracePhase list \<Rightarrow> nat \<Rightarrow> (PageNumber \<times> AccessType) list \<Rightarrow> counts \<Rightarrow> counts outcome" where
  "count_entries p phases i [] c = Ok c"
| "count_entries p phases i (e # es) c =
     obind (count_read p phases i e c) (\<lambda>c1. obind (count_write p phases i e c1) (count_entries p phases i es))"

definition phase_counts ::
  "profile \<Rightarrow> ((PageNumber, AccessType) hashmap \<Rightarrow> (PageNumber \<times> AccessType) list) \<Rightarrow>
   TracePhase list \<Rightarrow> nat \<Rightarrow> counts outcome" where
  "phase_counts p order phases i = count_entries p phases i (order (accesses (phases ! i))) counts_zero"

section \<open>The report\<close>

definition csv_row :: "string list \<Rightarrow> string" where
  "csv_row fs = join_with (CHR '','') fs @ [CHR 0x0A]"

definition phase_row :: "profile \<Rightarrow> string \<Rightarrow> TracePhase \<Rightarrow> counts \<Rightarrow> string outcome" where
  "phase_row p path phase c =
    obind (umul p (read_pages c) (page_size phase)) (\<lambda>rb.
    obind (umul p (written_pages c) (page_size phase)) (\<lambda>wb.
    obind (umul p (dead_writes c) (page_size phase)) (\<lambda>db.
    obind (umul p (new_reads c) (page_size phase)) (\<lambda>nb.
    Ok (csv_row [path, phase_name phase, show_u64 (page_size phase), show_u64 rb, show_u64 wb,
      show_u64 db, show_u64 nb, show_u64 (io_bytes phase), show_u64 (instructions phase)])))))"

primrec phase_rows ::
  "profile \<Rightarrow> ((PageNumber, AccessType) hashmap \<Rightarrow> (PageNumber \<times> AccessType) list) \<Rightarrow>
   string \<Rightarrow> TracePhase list \<Rightarrow> nat list \<Rightarrow> string outcome" where
  "phase_rows p order path phases [] = Ok []"
| "phase_rows p order path phases (i # is) =
     obind (phase_counts p order phases i) (\<lambda>c.
     obind (phase_row p path (phases ! i) c) (\<lambda>row.
     obind (phase_rows p order path phases is) (\<lambda>rest. Ok (row @ rest))))"

text \<open>
  A readable file is its text up to the point where reading stops, and the error that stopped it, if
  any; \<open>BufRead::lines\<close> yields the lines and then the error.
\<close>

record file_data =
  contents :: string
  read_error :: "io_error option"

record file_system =
  fs_open :: "string \<Rightarrow> io_error + file_data"
  fs_read_dir :: "string \<Rightarrow> io_error + (io_error + string) list"
  fs_write :: "string \<Rightarrow> string \<Rightarrow> io_error option"

definition reader_lines :: "file_data \<Rightarrow> (io_error + string) list" where
  "reader_lines f = map Inr (str_lines (contents f)) @
     (case read_error f of None \<Rightarrow> [] | Some e \<Rightarrow> [Inl e])"

definition analyse_file ::
  "profile \<Rightarrow> ((PageNumber, AccessType) hashmap \<Rightarrow> (PageNumber \<times> AccessType) list) \<Rightarrow>
   file_system \<Rightarrow> string \<Rightarrow> string \<Rightarrow> string outcome" where
  "analyse_file p order fs path out =
    (case fs_open fs path of
       Inl e \<Rightarrow> Err (IoError e)
     | Inr f \<Rightarrow>
         obind (scan_lines (reader_lines f) ([], ''pre-main'')) (\<lambda>(phases, _).
         obind (phase_rows p order path phases [0..<length phases]) (\<lambda>rows. Ok (out @ rows))))"

definition path_join :: "string \<Rightarrow> string \<Rightarrow> string" where
  "path_join folder name =
     (if folder = [] \<or> last folder = CHR ''/'' then folder @ name else folder @ CHR ''/'' # name)"

text \<open>\<open>Path::extension\<close> of a file name: what follows the last dot, unless that dot is the first character.\<close>

definition path_extension :: "string \<Rightarrow> string option" where
  "path_extension name =
    (case split_once (CHR ''.'') (rev name) of
       None \<Rightarrow> None
     | Some (ext, stem) \<Rightarrow> (if stem = [] then None else Some (rev ext)))"

definition csv_header :: string where
  "csv_header = ''Trace,Phase,Page size,Read bytes,Written bytes,Dead written bytes,New read bytes,IO Bytes,Instructions''
     @ [CHR 0x0A]"

primrec analyse_entries ::
  "profile \<Rightarrow> ((PageNumber, AccessType) hashmap \<Rightarrow> (PageNumber \<times> AccessType) list) \<Rightarrow>
   file_system \<Rightarrow> string \<Rightarrow> (io_error + string) list \<Rightarrow> string \<Rightarrow> string outcome" where
  "analyse_entries p order fs folder [] out = Ok out"
| "analyse_entries p order fs folder (f # fs') out =
    (case f of
       Inl e \<Rightarrow> Err (IoError e)
     | Inr name \<Rightarrow>
         (if path_extension name \<noteq> Some ''log'' then analyse_entries p order fs folder fs' out
          else obind (analyse_file p order fs (path_join folder name) out)
                 (analyse_entries p order fs folder fs')))"

definition analyse_folder ::
  "profile \<Rightarrow> ((PageNumber, AccessType) hashmap \<Rightarrow> (PageNumber \<times> AccessType) list) \<Rightarrow>
   file_system \<Rightarrow> string \<Rightarrow> string \<Rightarrow> string outcome" where
  "analyse_folder p order fs folder out =
    (let out1 = out @ folder @ [CHR 0x0A] @ csv_header in
     case fs_read_dir fs folder of
       Inl e \<Rightarrow> Err (IoError e)
     | Inr files \<Rightarrow> analyse_entries p order fs folder files out1)"

primrec analyse_args ::
  "profile \<Rightarrow> ((PageNumber, AccessType) hashmap \<Rightarrow> (PageNumber \<times> AccessType) list) \<Rightarrow>
   file_system \<Rightarrow> string list \<Rightarrow> string \<Rightarrow> string outcome" where
  "analyse_args p order fs [] out = Ok out"
| "analyse_args p order fs (a # args) out =
     obind (analyse_folder p order fs a out) (analyse_args p order fs args)"

text \<open>\<open>main\<close>: on success, the text that the summary file holds afterwards.\<close>

definition analyse_main ::
  "profile \<Rightarrow> ((PageNumber, AccessType) hashmap \<Rightarrow> (PageNumber \<times> AccessType) list) \<Rightarrow>
   file_system \<Rightarrow> string list \<Rightarrow> string outcome" where
  "analyse_main p order fs args =
    obind (analyse_args p order fs args []) (\<lambda>out.
      case fs_write fs ''memory_access_summary.csv'' out of
        Some e \<Rightarrow> Err (IoError e)
      | None \<Rightarrow> Ok out)"


section \<open>The counters count pages\<close>

lemma uadd_one: "unat x + 1 < 2 ^ 64 \<Longrightarrow> uadd p (x :: u64) 1 = Ok (x + 1) \<and> unat (x + 1) = unat x + 1"
proof -
  assume a: "unat x + 1 < 2 ^ 64"
  then have u: "unat (x + 1) = unat x + 1"
    by (simp add: unat_word_ariths)
  then have "uint (x + 1) = uint x + 1"
    by (metis of_nat_1 of_nat_add uint_nat)
  with u show ?thesis by (simp add: uadd_def arith_res_def)
qed

lemma count_read_ok:
  assumes "unat (read_pages c) + 1 < 2 ^ 64" "unat (new_reads c) + 1 < 2 ^ 64"
  obtains c' where "count_read p phases i e c = Ok c'"
    and "unat (read_pages c') = unat (read_pages c) + (if is_read (snd e) then 1 else 0)"
    and "unat (new_reads c') =
      unat (new_reads c) + (if is_read (snd e) \<and> is_new_read phases i (fst e) then 1 else 0)"
    and "written_pages c' = written_pages c" and "dead_writes c' = dead_writes c"
  using assms uadd_one [of "read_pages c" p] uadd_one [of "new_reads c" p]
  by (cases "is_read (snd e)"; cases "is_new_read phases i (fst e)") (auto simp: count_read_def Let_def)

lemma count_write_ok:
  assumes "unat (written_pages c) + 1 < 2 ^ 64" "unat (dead_writes c) + 1 < 2 ^ 64"
  obtains c' where "count_write p phases i e c = Ok c'"
    and "unat (written_pages c') = unat (written_pages c) + (if is_write (snd e) then 1 else 0)"
    and "unat (dead_writes c') =
      unat (dead_writes c) + (if is_write (snd e) \<and> is_dead_write phases i (fst e) then 1 else 0)"
    and "read_pages c' = read_pages c" and "new_reads c' = new_reads c"
  using assms uadd_one [of "written_pages c" p] uadd_one [of "dead_writes c" p]
  by (cases "is_write (snd e)"; cases "is_dead_write phases i (fst e)") (auto simp: count_write_def Let_def)

text \<open>The four counters of a list of entries, as numbers.\<close>

definition counts_as :: "TracePhase list \<Rightarrow> nat \<Rightarrow> (PageNumber \<times> AccessType) list \<Rightarrow> counts \<Rightarrow> counts \<Rightarrow> bool" where
  "counts_as phases i es c c' \<longleftrightarrow>
     unat (read_pages c') = unat (read_pages c) + length (filter (\<lambda>(k, v). is_read v) es) \<and>
     unat (new_reads c') =
       unat (new_reads c) + length (filter (\<lambda>(k, v). is_read v \<and> is_new_read phases i k) es) \<and>
     unat (written_pages c') = unat (written_pages c) + length (filter (\<lambda>(k, v). is_write v) es) \<and>
     unat (dead_writes c') =
       unat (dead_writes c) + length (filter (\<lambda>(k, v). is_write v \<and> is_dead_write phases i k) es)"

definition counts_below :: "counts \<Rightarrow> nat \<Rightarrow> bool" where
  "counts_below c n \<longleftrightarrow> unat (read_pages c) + n < 2 ^ 64 \<and> unat (new_reads c) + n < 2 ^ 64 \<and>
     unat (written_pages c) + n < 2 ^ 64 \<and> unat (dead_writes c) + n < 2 ^ 64"

lemma count_entries_ok:
  "counts_below c (length es) \<Longrightarrow> \<exists>c'. count_entries p phases i es c = Ok c' \<and> counts_as phases i es c c'"
proof (induction es arbitrary: c)
  case Nil
  then show ?case by (simp add: counts_as_def)
next
  case (Cons e es)
  from Cons.prems have b: "unat (read_pages c) + 1 < 2 ^ 64" "unat (new_reads c) + 1 < 2 ^ 64"
      "unat (written_pages c) + 1 < 2 ^ 64" "unat (dead_writes c) + 1 < 2 ^ 64"
    by (auto simp: counts_below_def)
  obtain c1 where c1: "count_read p phases i e c = Ok c1"
    "unat (read_pages c1) = unat (read_pages c) + (if is_read (snd e) then 1 else 0)"
    "unat (new_reads c1) =
      unat (new_reads c) + (if is_read (snd e) \<and> is_new_read phases i (fst e) then 1 else 0)"
    "written_pages c1 = written_pages c" "dead_writes c1 = dead_writes c"
    using count_read_ok [OF b(1,2)] .
  obtain c2 where c2: "count_write p phases i e c1 = Ok c2"
    "unat (written_pages c2) = unat (written_pages c1) + (if is_write (snd e) then 1 else 0)"
    "unat (dead_writes c2) =
      unat (dead_writes c1) + (if is_write (snd e) \<and> is_dead_write phases i (fst e) then 1 else 0)"
    "read_pages c2 = read_pages c1" "new_reads c2 = new_reads c1"
    using count_write_ok [of c1] b(3,4) c1(4,5) by metis
  have "counts_below c2 (length es)"
    using Cons.prems c1 c2 by (auto simp: counts_below_def)
  then obtain c' where c': "count_entries p phases i es c2 = Ok c'" "counts_as phases i es c2 c'"
    using Cons.IH by blast
  have "counts_as phases i (e # es) c c'"
    using c'(2) c1(2-) c2(2-) by (auto simp: counts_as_def split_beta)
  with c'(1) c1(1) c2(1) show ?case by simp
qed

lemma is_new_read_iff:
  "i \<le> length phases \<Longrightarrow> is_new_read phases i pid \<longleftrightarrow> (\<forall>j<i. hm_get (accesses (phases ! j)) pid = None)"
  by (auto simp: is_new_read_def list_all_length)

lemma is_dead_write_iff:
  "is_dead_write phases i pid \<longleftrightarrow>
     (\<forall>j. i < j \<and> j < length phases \<longrightarrow>
        \<not> (\<exists>a. hm_get (accesses (phases ! j)) pid = Some a \<and> is_read a))"
  by (auto simp: is_dead_write_def list_all_drop_iff Suc_le_eq split: option.splits)

section \<open>What scanning establishes\<close>

definition phases_inv :: "nat \<Rightarrow> TracePhase list \<Rightarrow> bool" where
  "phases_inv n phases \<longleftrightarrow>
     (\<forall>ph \<in> set phases. hm_inv (accesses ph)) \<and> sum_list (map (length \<circ> accesses) phases) \<le> n"

lemma length_hm_insert: "length (hm_insert k v m) \<le> Suc (length m)"
  unfolding hm_insert_def by (induction m) auto

lemma trace_line_Ok:
  assumes "trace_line line phases = Ok phases'"
  obtains front ph k a where "phases = front @ [ph]"
    and "phases' = front @ [ph\<lparr>accesses := hm_insert k a (accesses ph)\<rparr>]"
proof -
  from assms have "phases \<noteq> []" by (auto simp: trace_line_def)
  then have "phases = butlast phases @ [last phases]" by simp
  moreover obtain k a where
    "phases' = butlast phases @ [(last phases)\<lparr>accesses := hm_insert k a (accesses (last phases))\<rparr>]"
    using assms by (auto simp: trace_line_def Let_def split: if_splits)
  ultimately show ?thesis by (rule that)
qed

lemma phase_line_Ok:
  assumes "phase_line line phases n = Ok (phases', n')"
  obtains ps st ins io where "phases' = phases @ [TracePhase_new n ps st ins io]"
    and "nth_opt (split_on (CHR '';'') line) 4 = Some n'"
  using assms that
  by (auto simp: phase_line_def Let_def next_field_def unwrap_opt_def split: option.splits)

lemma scan_line_inv:
  assumes "scan_line line (phases, n) = Ok (phases', n')" "phases_inv k phases"
  shows "phases_inv (Suc k) phases'"
proof -
  consider (trace) "trace_line line phases = Ok phases'"
    | (phase) "phase_line line phases n = Ok (phases', n')" | (other) "phases' = phases"
    using assms(1) by (auto simp: scan_line_def split: if_splits)
  then show ?thesis
  proof cases
    case trace
    then obtain front ph q a where eq: "phases = front @ [ph]"
      "phases' = front @ [ph\<lparr>accesses := hm_insert q a (accesses ph)\<rparr>]"
      by (rule trace_line_Ok)
    with assms(2) show ?thesis
      using length_hm_insert [of q a "accesses ph"] by (auto simp: phases_inv_def hm.inv_insert)
  next
    case phase
    then show ?thesis
      using assms(2) hm.inv_empty
      by (elim phase_line_Ok) (auto simp: phases_inv_def TracePhase_new_def hm_empty_def)
  next
    case other
    with assms(2) show ?thesis by (auto simp: phases_inv_def)
  qed
qed

lemma scan_lines_inv:
  "scan_lines ls (phases, n) = Ok (phases', n') \<Longrightarrow> phases_inv k phases \<Longrightarrow> phases_inv (k + length ls) phases'"
proof (induction ls arbitrary: phases n k)
  case Nil
  then show ?case by simp
next
  case (Cons l ls)
  from Cons.prems(1) obtain line ph1 n1 where
    "scan_line line (phases, n) = Ok (ph1, n1)" and rest: "scan_lines ls (ph1, n1) = Ok (phases', n')"
    by (cases l) auto
  then have "phases_inv (Suc k) ph1"
    using scan_line_inv Cons.prems(2) by blast
  from Cons.IH [OF rest this] show ?case by simp
qed

lemma scanned_phase:
  assumes "scan_lines ls ([], n0) = Ok (phases, n)" "i < length phases" "length ls < 2 ^ 64"
  shows "hm_inv (accesses (phases ! i)) \<and> length (accesses (phases ! i)) < 2 ^ 64"
proof -
  have inv: "phases_inv (length ls) phases"
    using scan_lines_inv [OF assms(1), of 0] by (simp add: phases_inv_def)
  have "length (accesses (phases ! i)) \<le> sum_list (map (length \<circ> accesses) phases)"
    using assms(2) by (intro member_le_sum_list) auto
  with inv assms(2,3) show ?thesis by (auto simp: phases_inv_def)
qed

text \<open>Pages with a property of their access in a phase.\<close>

definition pages_where :: "TracePhase \<Rightarrow> (PageNumber \<Rightarrow> AccessType \<Rightarrow> bool) \<Rightarrow> PageNumber set" where
  "pages_where ph P = {pid. \<exists>a. hm_get (accesses ph) pid = Some a \<and> P pid a}"

lemma phase_counts_cards:
  assumes "hm_inv (accesses (phases ! i))" "length (accesses (phases ! i)) < 2 ^ 64" "iterates order"
  shows "\<exists>c. phase_counts p order phases i = Ok c \<and>
     unat (read_pages c) = card (pages_where (phases ! i) (\<lambda>_. is_read)) \<and>
     unat (written_pages c) = card (pages_where (phases ! i) (\<lambda>_. is_write)) \<and>
     unat (new_reads c) = card (pages_where (phases ! i) (\<lambda>pid a. is_read a \<and> is_new_read phases i pid)) \<and>
     unat (dead_writes c) = card (pages_where (phases ! i) (\<lambda>pid a. is_write a \<and> is_dead_write phases i pid))"
proof -
  let ?es = "order (accesses (phases ! i))"
  have perm: "mset ?es = mset (accesses (phases ! i))"
    using assms(3) by (rule iteratesD)
  then have "length ?es < 2 ^ 64"
    using assms(2) by (metis mset_eq_length)
  then have "counts_below counts_zero (length ?es)"
    by (simp add: counts_below_def counts_zero_def)
  then obtain c where c: "count_entries p phases i ?es counts_zero = Ok c"
    "counts_as phases i ?es counts_zero c"
    using count_entries_ok by blast
  have "length (filter (\<lambda>(k, v). P k v) ?es) = card (pages_where (phases ! i) P)" for P
    unfolding pages_where_def using hm.count_entries [OF assms(1) perm] .
  with c show ?thesis
    by (auto simp: phase_counts_def counts_as_def counts_zero_def)
qed


section \<open>Properties of the analyser\<close>

text \<open>
  C6. For every log that scans without a panic, under either profile and for every iteration order of
  the hash maps, the counters of phase \<open>i\<close> exist (no overflow) and are the numbers of pages read, of
  pages written, of pages read that no earlier phase touched, and of pages written that no later phase
  reads.
\<close>

theorem trace_counts_count_pages:
  assumes "scan_lines ls ([], ''pre-main'') = Ok (phases, n)" "i < length phases" "length ls < 2 ^ 64"
    and "iterates order"
  shows "\<exists>c. phase_counts p order phases i = Ok c \<and>
     unat (read_pages c) = card (pages_where (phases ! i) (\<lambda>_. is_read)) \<and>
     unat (written_pages c) = card (pages_where (phases ! i) (\<lambda>_. is_write)) \<and>
     unat (new_reads c) = card (pages_where (phases ! i)
       (\<lambda>pid a. is_read a \<and> (\<forall>j<i. hm_get (accesses (phases ! j)) pid = None))) \<and>
     unat (dead_writes c) = card (pages_where (phases ! i)
       (\<lambda>pid a. is_write a \<and> (\<forall>j. i < j \<and> j < length phases \<longrightarrow>
          \<not> (\<exists>b. hm_get (accesses (phases ! j)) pid = Some b \<and> is_read b))))"
  using phase_counts_cards [of phases i order p] scanned_phase [OF assms(1-3)] assms(2,4)
  by (simp add: is_new_read_iff is_dead_write_iff)

definition demo_log :: "(io_error + string) list" where
  "demo_log = [Inr ''phase;4096;0;9;main'', Inr ''trace;;0;9;7;RW;'', Inr ''phase;4096;9;20;end'',
     Inr ''trace;;9;20;7;W;'', Inr ''trace;;9;20;8;R;'']"

definition demo_phases :: "TracePhase list" where
  "demo_phases =
    [\<lparr>phase_name = ''pre-main'', page_size = 4096, phase_start_time = 0, instructions = 0, io_bytes = 0,
      accesses = [(7, ReadWrite)]\<rparr>,
     \<lparr>phase_name = ''main'', page_size = 4096, phase_start_time = 9, instructions = 0, io_bytes = 0,
      accesses = [(7, Write), (8, Read)]\<rparr>]"

lemma demo_log_scans: "scan_lines demo_log ([], ''pre-main'') = Ok (demo_phases, ''end'')"
  by code_simp

theorem trace_counts_count_pages_witness:
  "1 < length demo_phases \<and> length demo_log < 2 ^ 64 \<and> iterates (rev :: (u64, AccessType) hashmap \<Rightarrow> _) \<and>
   (\<exists>c. phase_counts Dev rev demo_phases 1 = Ok c \<and>
     unat (read_pages c) = card (pages_where (demo_phases ! 1) (\<lambda>_. is_read)))"
proof -
  have len: "1 < length demo_phases" "length demo_log < 2 ^ 64"
    by (simp_all add: demo_phases_def demo_log_def)
  show ?thesis
    using trace_counts_count_pages [OF demo_log_scans len iterates_rev, of Dev] len iterates_rev by blast
qed

text \<open>
  C21. Over all phases of a scanned log the new-read counters add up to the number of pages whose first
  access, in phase order, reads them: every such page is counted in exactly one phase.
\<close>

theorem first_reads_counted_once:
  assumes "scan_lines ls ([], ''pre-main'') = Ok (phases, n)" "length ls < 2 ^ 64" "iterates order"
  shows "\<exists>cs. (\<forall>i < length phases. phase_counts p order phases i = Ok (cs i)) \<and>
     (\<Sum>i < length phases. unat (new_reads (cs i))) =
       card {pid. \<exists>i < length phases. \<exists>a. hm_get (accesses (phases ! i)) pid = Some a \<and> is_read a \<and>
         (\<forall>j<i. hm_get (accesses (phases ! j)) pid = None)}"
proof -
  let ?new = "\<lambda>i. pages_where (phases ! i) (\<lambda>pid a. is_read a \<and> is_new_read phases i pid)"
  have "\<exists>c. phase_counts p order phases i = Ok c \<and> unat (new_reads c) = card (?new i)"
    if "i < length phases" for i
    using phase_counts_cards [of phases i order p] scanned_phase [OF assms(1) that assms(2)] assms(3) by blast
  then obtain cs where cs: "\<forall>i < length phases. phase_counts p order phases i = Ok (cs i) \<and>
      unat (new_reads (cs i)) = card (?new i)"
    by metis
  have fin: "finite (?new i)" if "i < length phases" for i
    using hm.finite_keys scanned_phase [OF assms(1) that assms(2)] by (simp add: pages_where_def)
  have disj: "?new i \<inter> ?new j = {}" if "i < length phases" "j < length phases" "i \<noteq> j" for i j
  proof -
    have "?new i \<inter> ?new j = {}" if "i < j" "j < length phases" for i j
      using that by (auto simp: pages_where_def is_new_read_iff)
    with that show ?thesis by (metis Int_commute linorder_neqE_nat)
  qed
  have "(\<Sum>i < length phases. unat (new_reads (cs i))) = (\<Sum>i < length phases. card (?new i))"
    using cs by simp
  also have "\<dots> = card (\<Union>i < length phases. ?new i)"
    using fin disj by (subst card_UN_disjoint) auto
  also have "(\<Union>i < length phases. ?new i) =
      {pid. \<exists>i < length phases. \<exists>a. hm_get (accesses (phases ! i)) pid = Some a \<and> is_read a \<and>
         (\<forall>j<i. hm_get (accesses (phases ! j)) pid = None)}"
    by (auto simp: pages_where_def is_new_read_iff)
  finally show ?thesis using cs by blast
qed

theorem first_reads_counted_once_witness:
  "length demo_log < 2 ^ 64 \<and> iterates (\<lambda>m :: (u64, AccessType) hashmap. m) \<and>
   (\<exists>cs. \<forall>i < length demo_phases. phase_counts Release (\<lambda>m. m) demo_phases i = Ok (cs i))"
proof -
  have len: "length demo_log < 2 ^ 64" by (simp add: demo_log_def)
  show ?thesis
    using first_reads_counted_once [OF demo_log_scans len iterates_id, of Release] len iterates_id by blast
qed

text \<open>
  The phases of a scanned log are named one step late: the first is \<open>pre-main\<close> and each later one
  carries the name of the \<open>phase;\<close> line that closed its predecessor.
\<close>

definition phase_line_names :: "(io_error + string) list \<Rightarrow> string list" where
  "phase_line_names ls = concat (map (\<lambda>l. case l of Inl _ \<Rightarrow> []
     | Inr line \<Rightarrow> if starts_with ''phase;'' line then [split_on (CHR '';'') line ! 4] else []) ls)"

lemma not_trace_and_phase: "starts_with ''trace;'' l \<Longrightarrow> \<not> starts_with ''phase;'' l"
  by (auto simp: starts_with_iff)

lemma scan_line_names:
  assumes "scan_line line (phases, n) = Ok (phases', n')"
  shows "map phase_name phases' @ [n'] = map phase_name phases @ [n] @ phase_line_names [Inr line]"
proof (cases "starts_with ''phase;'' line")
  case True
  then have "phase_line line phases n = Ok (phases', n')"
    using assms not_trace_and_phase by (auto simp: scan_line_def split: if_splits)
  then show ?thesis
    using True
    by (elim phase_line_Ok) (simp add: phase_line_names_def TracePhase_new_def nth_opt_eq_Some)
next
  case False
  then show ?thesis
    using assms by (auto simp: scan_line_def phase_line_names_def split: if_splits elim!: trace_line_Ok)
qed

theorem phase_names_shift:
  assumes "scan_lines ls (phases0, n0) = Ok (phases, n)"
  shows "map phase_name phases @ [n] = map phase_name phases0 @ [n0] @ phase_line_names ls"
  using assms
proof (induction ls arbitrary: phases0 n0)
  case Nil
  then show ?case by (simp add: phase_line_names_def)
next
  case (Cons l ls)
  from Cons.prems obtain line ph1 n1 where l: "l = Inr line"
    and "scan_line line (phases0, n0) = Ok (ph1, n1)" and rest: "scan_lines ls (ph1, n1) = Ok (phases, n)"
    by (cases l) auto
  then have "map phase_name ph1 @ [n1] = map phase_name phases0 @ [n0] @ phase_line_names [Inr line]"
    by (blast dest: scan_line_names)
  moreover have "map phase_name phases @ [n] = (map phase_name ph1 @ [n1]) @ phase_line_names ls"
    using Cons.IH [OF rest] by simp
  ultimately show ?case by (simp add: l phase_line_names_def)
qed

theorem phase_names_shift_witness:
  "map phase_name demo_phases @ [''end''] = [''pre-main'', ''main'', ''end'']"
proof -
  have "phase_line_names demo_log = [''main'', ''end'']" by code_simp
  then show ?thesis using phase_names_shift [OF demo_log_scans] by simp
qed

text \<open>
  A report row reads back: without a comma in the path and in the phase name, splitting the row at
  commas gives its nine fields, and the numeric ones parse to the byte counts, the page size, the I/O
  bytes and the instructions.
\<close>

theorem phase_row_roundtrip:
  assumes "phase_row p path ph c = Ok row" "CHR '','' \<notin> set path" "CHR '','' \<notin> set (phase_name ph)"
  shows "\<exists>body. row = body @ [CHR 0x0A] \<and> take 2 (split_on (CHR '','') body) = [path, phase_name ph] \<and>
     map parse_u64 (drop 2 (split_on (CHR '','') body)) =
       map Ok [page_size ph, read_pages c * page_size ph, written_pages c * page_size ph,
         dead_writes c * page_size ph, new_reads c * page_size ph, io_bytes ph, instructions ph]"
proof -
  let ?nums = "[page_size ph, read_pages c * page_size ph, written_pages c * page_size ph,
         dead_writes c * page_size ph, new_reads c * page_size ph, io_bytes ph, instructions ph]"
  let ?fields = "path # phase_name ph # map show_u64 ?nums"
  have row: "row = join_with (CHR '','') ?fields @ [CHR 0x0A]"
    using assms(1) by (auto simp: phase_row_def csv_row_def umul_def arith_res_def split: if_splits)
  have "CHR '','' \<notin> set (show_u64 w)" for w
    using u64_text.show_chars [of w] by (auto simp: number_chars_def)
  then have split: "split_on (CHR '','') (join_with (CHR '','') ?fields) = ?fields"
    using assms(2,3) by (intro split_on_join) auto
  show ?thesis
    by (intro exI conjI, rule row) (simp_all only: split, simp_all add: u64_text.parse_show)
qed

theorem phase_row_roundtrip_witness:
  "CHR '','' \<notin> set ''a.log'' \<and> CHR '','' \<notin> set (phase_name (hd demo_phases)) \<and>
   (\<exists>row body. phase_row Dev ''a.log'' (hd demo_phases) counts_zero = Ok row \<and> row = body @ [CHR 0x0A])"
proof -
  have row: "phase_row Dev ''a.log'' (hd demo_phases) counts_zero =
      Ok (''a.log,pre-main,4096,0,0,0,0,0,0'' @ [CHR 0x0A])"
    by code_simp
  have h: "CHR '','' \<notin> set ''a.log''" "CHR '','' \<notin> set (phase_name (hd demo_phases))"
    by (simp_all add: demo_phases_def)
  show ?thesis using phase_row_roundtrip [OF row h] row h by blast
qed

text \<open>
  The log writer of the tracing tool (\<^verbatim>\<open>pin-NearMAP/NearMAP.cpp\<close>): per phase a \<open>phase;\<close> line, one
  \<open>trace;\<close> line per touched page and a summary line.
\<close>

record tool_phase =
  tp_page_size :: u64
  tp_prev_time :: u64
  tp_curr_time :: u64
  tp_name :: string
  tp_instructions :: u64
  tp_io_bytes :: u64
  tp_pages :: "(PageNumber \<times> AccessType) list"

definition rw_text :: "AccessType \<Rightarrow> string" where
  "rw_text a = (if is_read a then ''R'' else []) @ (if is_write a then ''W'' else [])"

definition tool_trace_line :: "tool_phase \<Rightarrow> PageNumber \<times> AccessType \<Rightarrow> string" where
  "tool_trace_line t e = join_with (CHR '';'')
     [''trace'', [], show_u64 (tp_prev_time t), show_u64 (tp_curr_time t), show_u64 (fst e),
      rw_text (snd e), []]"

definition tool_phase_line :: "tool_phase \<Rightarrow> string" where
  "tool_phase_line t = join_with (CHR '';'')
     [''phase'', show_u64 (tp_page_size t), show_u64 (tp_prev_time t), show_u64 (tp_curr_time t),
      tp_name t, show_u64 (tp_instructions t), show_u64 (tp_io_bytes t)]"

definition tool_summary_line :: "tool_phase \<Rightarrow> string" where
  "tool_summary_line t =
    (let n = (\<lambda>a. length (filter (\<lambda>e. snd e = a) (tp_pages t))) in
     join_with (CHR '';'') [''summary-ro-rw-wo-tot-insn'', show_nat (n Read), show_nat (n ReadWrite),
       show_nat (n Write), show_nat (n Read + n ReadWrite + n Write)])"

definition tool_lines :: "tool_phase \<Rightarrow> string list" where
  "tool_lines t = tool_phase_line t # map (tool_trace_line t) (tp_pages t) @ [tool_summary_line t]"

primrec read_back :: "string \<Rightarrow> tool_phase list \<Rightarrow> TracePhase list" where
  "read_back n [] = []"
| "read_back n (t # ts) =
     \<lparr>phase_name = n, page_size = tp_page_size t, phase_start_time = tp_prev_time t,
      instructions = tp_instructions t, io_bytes = tp_io_bytes t, accesses = tp_pages t\<rparr>
     # read_back (tp_name t) ts"

definition wf_tool_phase :: "tool_phase \<Rightarrow> bool" where
  "wf_tool_phase t \<longleftrightarrow> distinct (map fst (tp_pages t)) \<and> CHR '';'' \<notin> set (tp_name t)"

lemma show_u64_no_semicolon [simp]: "CHR '';'' \<notin> set (show_u64 w)"
  using u64_text.show_chars [of w] by (auto simp: number_chars_def)

lemma rw_text_back:
  "try_from_rw (CHR ''R'' \<in> set (rw_text a)) (CHR ''W'' \<in> set (rw_text a)) = Some a"
  "CHR '';'' \<notin> set (rw_text a)"
  by (cases a; simp add: rw_text_def)+

lemma scan_tool_trace_line:
  "scan_line (tool_trace_line t e) (front @ [ph], n) =
     Ok (front @ [ph\<lparr>accesses := hm_insert (fst e) (snd e) (accesses ph)\<rparr>], n)"
proof -
  have "split_on (CHR '';'') (tool_trace_line t e) =
      [''trace'', [], show_u64 (tp_prev_time t), show_u64 (tp_curr_time t), show_u64 (fst e),
       rw_text (snd e), []]"
    unfolding tool_trace_line_def by (rule split_on_join) (auto simp: rw_text_back)
  moreover have "starts_with ''trace;'' (tool_trace_line t e)"
    by (simp add: tool_trace_line_def starts_with_def)
  ultimately show ?thesis
    by (simp add: scan_line_def trace_line_def next_field_def unwrap_opt_def nth_opt_def rw_text_back
        u64_text.parse_show Let_def)
qed

lemma scan_tool_phase_line:
  assumes "CHR '';'' \<notin> set (tp_name t)"
  shows "scan_line (tool_phase_line t) (phases, n) =
     Ok (phases @ [TracePhase_new n (tp_page_size t) (tp_prev_time t) (tp_instructions t) (tp_io_bytes t)],
       tp_name t)"
proof -
  have "split_on (CHR '';'') (tool_phase_line t) =
      [''phase'', show_u64 (tp_page_size t), show_u64 (tp_prev_time t), show_u64 (tp_curr_time t),
      tp_name t, show_u64 (tp_instructions t), show_u64 (tp_io_bytes t)]"
    unfolding tool_phase_line_def by (rule split_on_join) (auto simp: assms)
  moreover have "starts_with ''phase;'' (tool_phase_line t) \<and> \<not> starts_with ''trace;'' (tool_phase_line t)"
    by (simp add: tool_phase_line_def starts_with_def)
  ultimately show ?thesis
    by (simp add: scan_line_def phase_line_def next_field_def opt_field_def unwrap_opt_def nth_opt_def
        u64_text.parse_show Let_def)
qed

lemma scan_tool_summary_line: "scan_line (tool_summary_line t) st = Ok st"
  by (cases st) (simp add: scan_line_def tool_summary_line_def starts_with_def Let_def)

lemma hm_insert_fresh: "k \<notin> set (map fst m) \<Longrightarrow> hm_insert k v m = m @ [(k, v)]"
  unfolding hm_insert_def by (induction m) auto

lemma scan_tool_trace_lines:
  "distinct (map fst (accesses ph @ es)) \<Longrightarrow>
   scan_lines (map (\<lambda>e. Inr (tool_trace_line t e)) es @ ls) (front @ [ph], n) =
     scan_lines ls (front @ [ph\<lparr>accesses := accesses ph @ es\<rparr>], n)"
proof (induction es arbitrary: ph)
  case Nil
  then show ?case by simp
next
  case (Cons e es)
  let ?ph = "ph\<lparr>accesses := accesses ph @ [e]\<rparr>"
  have "hm_insert (fst e) (snd e) (accesses ph) = accesses ph @ [e]"
    using Cons.prems by (subst hm_insert_fresh) auto
  moreover have "distinct (map fst (accesses ?ph @ es))" using Cons.prems by auto
  ultimately show ?case
    using Cons.IH [of ?ph] by (simp add: scan_tool_trace_line)
qed

lemma scan_tool_lines:
  assumes "wf_tool_phase t"
  shows "scan_lines (map Inr (tool_lines t) @ ls) (phases, n) =
     scan_lines ls (phases @ read_back n [t], tp_name t)"
  using assms
    scan_tool_trace_lines [of "TracePhase_new n (tp_page_size t) (tp_prev_time t) (tp_instructions t)
      (tp_io_bytes t)" "tp_pages t" t "Inr (tool_summary_line t) # ls" phases "tp_name t"]
  by (simp add: wf_tool_phase_def tool_lines_def scan_tool_phase_line scan_tool_summary_line comp_def
      TracePhase_new_def hm_empty_def)

text \<open>
  C20. The analyser reads back what the tracing tool writes: scanning the tool's lines for a sequence of
  phases never panics and gives the phases with their page sizes, times, counters and page accesses,
  each under the name that was current when it ran.
\<close>

theorem tool_log_roundtrip:
  assumes "\<forall>t \<in> set ts. wf_tool_phase t"
  shows "scan_lines (map Inr (concat (map tool_lines ts))) (phases, n) =
     Ok (phases @ read_back n ts, last (n # map tp_name ts))"
  using assms
proof (induction ts arbitrary: phases n)
  case Nil
  then show ?case by simp
next
  case (Cons t ts)
  then show ?case by (simp add: scan_tool_lines)
qed

definition demo_tool :: tool_phase where
  "demo_tool = \<lparr>tp_page_size = 4096, tp_prev_time = 0, tp_curr_time = 9, tp_name = ''main-start'',
     tp_instructions = 12, tp_io_bytes = 3, tp_pages = [(7, ReadWrite), (9, Write)]\<rparr>"

theorem tool_log_roundtrip_witness:
  "list_all wf_tool_phase [demo_tool] \<and>
   scan_lines (map Inr (tool_lines demo_tool)) ([], ''pre-main'') =
     Ok (read_back ''pre-main'' [demo_tool], ''main-start'')"
proof -
  have h: "\<forall>t \<in> set [demo_tool]. wf_tool_phase t"
    by (simp add: demo_tool_def wf_tool_phase_def)
  have "tp_name demo_tool = ''main-start''" by (simp add: demo_tool_def)
  then show ?thesis using h tool_log_roundtrip [OF h, of "[]" "''pre-main''"] by simp
qed

text \<open>
  The example of a phase line in the source comment, \<open>phase;0;56962;main-start\<close>, does not scan: the
  third number is missing, so parsing the name as the end time panics. A trace line before the first
  phase line panics too.
\<close>

theorem bad_lines_panic:
  "scan_line ''phase;0;56962;main-start'' (phases, n) = Panic (UnwrapErr (ParseIntError InvalidDigit)) \<and>
   scan_line ''trace;;0;56962;2190968395311;RW;'' ([], n) = Panic UnwrapNone"
proof -
  have split: "split_on (CHR '';'') ''phase;0;56962;main-start'' =
      [''phase'', ''0'', ''56962'', ''main-start'']"
    by simp
  have nums: "parse_u64 ''0'' = Ok 0" "parse_u64 ''56962'' = Ok 56962"
    "parse_u64 ''main-start'' = Err (ParseIntError InvalidDigit)"
    by code_simp+
  have "phase_line ''phase;0;56962;main-start'' phases n = Panic (UnwrapErr (ParseIntError InvalidDigit))"
    unfolding phase_line_def split by (simp add: next_field_def unwrap_opt_def nth_opt_def nums Let_def)
  then show ?thesis by (simp add: scan_line_def starts_with_def trace_line_def)
qed

end
