(* ===== verification/Rust_F64.thy ===== *)
theory Rust_F64
  imports Rust_Str
begin

text \<open>
  What the sources use of \<open>f64\<close>: IEEE 754 binary64 values and the operations on them, each the exact
  result rounded to nearest, ties to even. A finite value is a sign, a mantissa below \<open>2^53\<close> and an
  exponent, normalised (\<open>wf_f64\<close>), so the two zeros are distinct and equality of representations is
  equality of bit patterns, NaN payloads aside.
\<close>

datatype f64 = F_NaN | F_Inf bool | F_Fin bool int int

fun wf_f64 :: "f64 \<Rightarrow> bool" where
  "wf_f64 (F_Fin s m e) \<longleftrightarrow> 0 \<le> m \<and> m < 2 ^ 53 \<and> - 1074 \<le> e \<and> e \<le> 971 \<and> (m < 2 ^ 52 \<longrightarrow> e = - 1074)"
| "wf_f64 x \<longleftrightarrow> True"

definition f_zero :: "bool \<Rightarrow> f64" where
  "f_zero s = F_Fin s 0 (- 1074)"

definition f_MAX :: f64 where
  "f_MAX = F_Fin False (2 ^ 53 - 1) 971"

definition f_MIN :: f64 where
  "f_MIN = F_Fin True (2 ^ 53 - 1) 971"

section \<open>Rounding\<close>

function nbits :: "int \<Rightarrow> int" where
  "nbits n = (if n \<le> 0 then 0 else 1 + nbits (n div 2))"
  by pat_completeness auto
termination
  by (relation "measure nat") auto

declare nbits.simps [simp del]

text \<open>\<open>2^i\<close> for a non-negative \<open>i\<close>, and 1 otherwise.\<close>

definition pow2_int :: "int \<Rightarrow> int" where
  "pow2_int i = 2 ^ nat i"

text \<open>The largest \<open>l\<close> with \<open>2^l \<le> num / den\<close>.\<close>

definition log2_floor :: "int \<Rightarrow> int \<Rightarrow> int" where
  "log2_floor num den =
    (let l = nbits num - nbits den in
     if den * pow2_int l \<le> num * pow2_int (- l) then l else l - 1)"

definition round_half_even :: "int \<Rightarrow> int \<Rightarrow> int" where
  "round_half_even n d =
    (let q = n div d; r = n mod d in
     if d < 2 * r \<or> (2 * r = d \<and> odd q) then q + 1 else q)"

definition f_pack :: "bool \<Rightarrow> int \<Rightarrow> int \<Rightarrow> f64" where
  "f_pack s q e =
    (if q = 2 ^ 53 then (if 971 \<le> e then F_Inf s else F_Fin s (2 ^ 52) (e + 1))
     else if 971 < e then F_Inf s else F_Fin s q e)"

definition f_round :: "bool \<Rightarrow> int \<Rightarrow> int \<Rightarrow> f64" where
  "f_round s num den =
    (if num = 0 then f_zero s
     else let e = max (- 1074) (log2_floor num den - 52) in
       f_pack s (round_half_even (num * pow2_int (- e)) (den * pow2_int e)) e)"

definition f_of_int :: "int \<Rightarrow> f64" where
  "f_of_int i = f_round (i < 0) \<bar>i\<bar> 1"

section \<open>Arithmetic and comparison\<close>

definition signed_val :: "bool \<Rightarrow> int \<Rightarrow> int" where
  "signed_val s m = (if s then - m else m)"

fun f_neg_sign :: "f64 \<Rightarrow> bool" where
  "f_neg_sign F_NaN = False"
| "f_neg_sign (F_Inf s) = s"
| "f_neg_sign (F_Fin s m e) = s"

definition f_add_fin :: "bool \<Rightarrow> int \<Rightarrow> int \<Rightarrow> bool \<Rightarrow> int \<Rightarrow> int \<Rightarrow> f64" where
  "f_add_fin s m e t n k =
    (let b = min e k;
         v = signed_val s (m * pow2_int (e - b)) + signed_val t (n * pow2_int (k - b)) in
     if v = 0 then f_zero (s \<and> t)
     else f_round (v < 0) (\<bar>v\<bar> * pow2_int b) (pow2_int (- b)))"

fun f_add :: "f64 \<Rightarrow> f64 \<Rightarrow> f64" where
  "f_add F_NaN y = F_NaN"
| "f_add x F_NaN = F_NaN"
| "f_add (F_Inf s) (F_Inf t) = (if s = t then F_Inf s else F_NaN)"
| "f_add (F_Inf s) y = F_Inf s"
| "f_add x (F_Inf t) = F_Inf t"
| "f_add (F_Fin s m e) (F_Fin t n k) = f_add_fin s m e t n k"

fun f_mul :: "f64 \<Rightarrow> f64 \<Rightarrow> f64" where
  "f_mul F_NaN y = F_NaN"
| "f_mul x F_NaN = F_NaN"
| "f_mul (F_Inf s) (F_Inf t) = F_Inf (s \<noteq> t)"
| "f_mul (F_Inf s) (F_Fin t n k) = (if n = 0 then F_NaN else F_Inf (s \<noteq> t))"
| "f_mul (F_Fin s m e) (F_Inf t) = (if m = 0 then F_NaN else F_Inf (s \<noteq> t))"
| "f_mul (F_Fin s m e) (F_Fin t n k) =
    f_round (s \<noteq> t) (m * n * pow2_int (e + k)) (pow2_int (- (e + k)))"

fun f_div :: "f64 \<Rightarrow> f64 \<Rightarrow> f64" where
  "f_div F_NaN y = F_NaN"
| "f_div x F_NaN = F_NaN"
| "f_div (F_Inf s) (F_Inf t) = F_NaN"
| "f_div (F_Inf s) (F_Fin t n k) = F_Inf (s \<noteq> t)"
| "f_div (F_Fin s m e) (F_Inf t) = f_zero (s \<noteq> t)"
| "f_div (F_Fin s m e) (F_Fin t n k) =
    (if n = 0 then (if m = 0 then F_NaN else F_Inf (s \<noteq> t))
     else f_round (s \<noteq> t) (m * pow2_int (e - k)) (n * pow2_int (k - e)))"

fun f_less :: "f64 \<Rightarrow> f64 \<Rightarrow> bool" where
  "f_less F_NaN y = False"
| "f_less x F_NaN = False"
| "f_less (F_Inf s) (F_Inf t) = (s \<and> \<not> t)"
| "f_less (F_Inf s) y = s"
| "f_less x (F_Inf t) = (\<not> t)"
| "f_less (F_Fin s m e) (F_Fin t n k) =
    (let b = min e k in
     signed_val s (m * pow2_int (e - b)) < signed_val t (n * pow2_int (k - b)))"

text \<open>
  \<open>f64::min\<close> and \<open>f64::max\<close>: a NaN argument is ignored. Which of two equal zeros is returned is left
  open by the language; here it is the receiver.
\<close>

definition f_min :: "f64 \<Rightarrow> f64 \<Rightarrow> f64" where
  "f_min m v = (if m = F_NaN then v else if v = F_NaN then m else if f_less v m then v else m)"

definition f_max :: "f64 \<Rightarrow> f64 \<Rightarrow> f64" where
  "f_max m v = (if m = F_NaN then v else if v = F_NaN then m else if f_less m v then v else m)"

section \<open>Integers from floats\<close>

text \<open>\<open>ceil\<close> of a finite value as an integer; \<open>ceil() as i64\<close> saturates and sends NaN to 0.\<close>

definition ceil_fin :: "bool \<Rightarrow> int \<Rightarrow> int \<Rightarrow> int" where
  "ceil_fin s m e =
    (if 0 \<le> e then signed_val s (m * pow2_int e)
     else if s then - (m div pow2_int (- e))
     else (m + pow2_int (- e) - 1) div pow2_int (- e))"

definition saturate_i64 :: "int \<Rightarrow> int" where
  "saturate_i64 v = max (- (2 ^ 63)) (min (2 ^ 63 - 1) v)"

fun f_ceil_i64 :: "f64 \<Rightarrow> i64" where
  "f_ceil_i64 F_NaN = 0"
| "f_ceil_i64 (F_Inf s) = word_of_int (if s then - (2 ^ 63) else 2 ^ 63 - 1)"
| "f_ceil_i64 (F_Fin s m e) = word_of_int (saturate_i64 (ceil_fin s m e))"

section \<open>Parsing\<close>

text \<open>
  \<open>f64::from_str\<close>: an optional sign, then \<open>inf\<close>, \<open>infinity\<close> or \<open>nan\<close> in any case, or digits with an
  optional point and exponent, at least one digit in all; the decimal value is rounded once.
\<close>

fun span_digits :: "string \<Rightarrow> string \<times> string" where
  "span_digits [] = ([], [])"
| "span_digits (c # cs) =
    (if digit_val c = None then ([], c # cs) else (case span_digits cs of (a, b) \<Rightarrow> (c # a, b)))"

primrec digits_value :: "int \<Rightarrow> string \<Rightarrow> int" where
  "digits_value v [] = v"
| "digits_value v (c # cs) = digits_value (v * 10 + (case digit_val c of None \<Rightarrow> 0 | Some d \<Rightarrow> d)) cs"

definition lower_char :: "char \<Rightarrow> char" where
  "lower_char c = (let n = of_char c :: nat in if 65 \<le> n \<and> n \<le> 90 then char_of (n + 32) else c)"

definition parse_exponent :: "string \<Rightarrow> int option" where
  "parse_exponent s =
    (case s of
       [] \<Rightarrow> Some 0
     | c # r \<Rightarrow>
         (if c = CHR ''e'' \<or> c = CHR ''E'' then
            (let (neg, ds) = (case r of
               CHR ''-'' # r' \<Rightarrow> (True, r') | CHR ''+'' # r' \<Rightarrow> (False, r') | _ \<Rightarrow> (False, r)) in
             if ds \<noteq> [] \<and> snd (span_digits ds) = []
             then Some (signed_val neg (digits_value 0 ds)) else None)
          else None))"

definition parse_decimal :: "bool \<Rightarrow> string \<Rightarrow> f64 option" where
  "parse_decimal neg s =
    (let (ip, r) = span_digits s;
         (fp, r') = (case r of CHR ''.'' # q \<Rightarrow> span_digits q | _ \<Rightarrow> ([], r)) in
     if ip = [] \<and> fp = [] then None
     else case parse_exponent r' of
       None \<Rightarrow> None
     | Some x \<Rightarrow>
         (let k = x - int (length fp) in
          Some (f_round neg (digits_value 0 (ip @ fp) * 10 ^ nat k) (10 ^ nat (- k)))))"

definition parse_f64 :: "string \<Rightarrow> f64 outcome" where
  "parse_f64 s =
    (let (neg, r) = (case s of
       CHR ''-'' # r' \<Rightarrow> (True, r') | CHR ''+'' # r' \<Rightarrow> (False, r') | _ \<Rightarrow> (False, s));
         l = map lower_char r in
     if l = ''inf'' \<or> l = ''infinity'' then Ok (F_Inf neg)
     else if l = ''nan'' then Ok F_NaN
     else case parse_decimal neg r of None \<Rightarrow> Err ParseFloatError | Some x \<Rightarrow> Ok x)"

end
