(* ===== verification/F64_Laws.thy ===== *)
theory F64_Laws
  imports Complex_Main Rust_F64
begin

text \<open>
  The laws of the binary64 arithmetic of \<open>Rust_F64\<close>, over the real numbers: a finite value denotes a real,
  rounding returns a finite value nearest to the exact result, integers below \<open>2^53\<close> are represented
  exactly, and the comparison of finite values is that of the reals.
\<close>

named_theorems f64_laws

section \<open>Values\<close>

fun f_val :: "f64 \<Rightarrow> real" where
  "f_val (F_Fin s m e) = real_of_int (signed_val s m) * 2 powi e"
| "f_val x = 0"

fun f_finite :: "f64 \<Rightarrow> bool" where
  "f_finite (F_Fin s m e) = wf_f64 (F_Fin s m e)"
| "f_finite x = False"

text \<open>The value is as close to the real number as any finite value is.\<close>

definition f_nearest :: "f64 \<Rightarrow> real \<Rightarrow> bool" where
  "f_nearest r x \<longleftrightarrow> f_finite r \<and> (\<forall>y. f_finite y \<longrightarrow> \<bar>f_val r - x\<bar> \<le> \<bar>f_val y - x\<bar>)"

lemma f_nearest_exact: "f_nearest r x \<Longrightarrow> f_finite y \<Longrightarrow> f_val y = x \<Longrightarrow> f_val r = x"
  by (force simp: f_nearest_def)

lemma signed_val_simps [simp]:
  "signed_val s 0 = 0" "\<bar>signed_val s m\<bar> = \<bar>m\<bar>" "signed_val (\<not> s) m = - signed_val s m"
  by (simp_all add: signed_val_def)

lemma f_val_abs: "\<bar>f_val (F_Fin s m e)\<bar> = real_of_int \<bar>m\<bar> * 2 powi e"
  by (simp add: abs_mult flip: of_int_abs)

section \<open>Powers of two\<close>

lemma powi_le_iff [simp]: "(2 :: real) powi a \<le> 2 powi b \<longleftrightarrow> a \<le> b"
  by (meson leD linorder_le_less_linear one_less_numeral_iff power_int_strict_increasing power_int_increasing
      less_imp_le semiring_norm(76) one_le_numeral)

lemma powi_less_iff [simp]: "(2 :: real) powi a < 2 powi b \<longleftrightarrow> a < b"
  by (simp only: not_le [symmetric] powi_le_iff)

lemma pow2_int_pos [simp]: "0 < pow2_int i"
  by (simp add: pow2_int_def)

lemma pow2_int_quotient: "real_of_int (pow2_int i) / real_of_int (pow2_int (- i)) = 2 powi i"
  by (cases "0 \<le> i") (simp_all add: pow2_int_def power_int_def field_simps)

lemma nbits_bounds: "0 < n \<Longrightarrow> 2 powi (nbits n - 1) \<le> real_of_int n \<and> real_of_int n < 2 powi nbits n"
proof (induction n rule: nbits.induct)
  case (1 n)
  show ?case
  proof (cases "n = 1")
    case True
    then show ?thesis by (simp add: nbits.simps [of 1] nbits.simps [of 0])
  next
    case False
    with 1 have h: "0 < n div 2" by auto
    with 1 have IH: "2 powi (nbits (n div 2) - 1) \<le> real_of_int (n div 2)" "real_of_int (n div 2) < 2 powi nbits (n div 2)" by auto
    have nb: "nbits n = 1 + nbits (n div 2)" using 1 nbits.simps [of n] by simp
    have nonneg: "0 \<le> nbits (n div 2)"
    proof (rule ccontr)
      assume "\<not> 0 \<le> nbits (n div 2)"
      then have "(2 :: real) powi nbits (n div 2) \<le> 2 powi 0" by (subst powi_le_iff) simp
      with IH(2) h show False by simp
    qed
    then obtain k where k: "nbits (n div 2) = int k" using nonneg_int_cases by blast
    have "real_of_int (n div 2) < real_of_int (2 ^ k)" using IH(2) by (simp add: k)
    then have "n div 2 < 2 ^ k" by (simp only: of_int_less_iff)
    then have "n < 2 * 2 ^ k" by linarith
    then have "real_of_int n < real_of_int (2 * 2 ^ k)" by (simp only: of_int_less_iff)
    then have "real_of_int n < 2 * 2 ^ k" by simp
    moreover have "2 * 2 powi (int k - 1) \<le> real_of_int n"
    proof -
      have "2 * real_of_int (n div 2) \<le> real_of_int n" by linarith
      with IH(1) k show ?thesis by simp
    qed
    moreover have "(2 :: real) powi (1 + int k) = 2 * 2 ^ k" "(2 :: real) * 2 powi (int k - 1) = 2 powi int k"
      by (simp_all add: power_int_add power_int_diff)
    ultimately show ?thesis unfolding nb k by simp
  qed
qed

lemma log2_floor_bounds:
  assumes "0 < num" "0 < den"
  shows "2 powi log2_floor num den \<le> real_of_int num / real_of_int den"
    and "real_of_int num / real_of_int den < 2 powi (log2_floor num den + 1)"
proof -
  define l where "l = nbits num - nbits den"
  note num = nbits_bounds [OF assms(1)] and den = nbits_bounds [OF assms(2)]
  have d: "0 < real_of_int den" using assms(2) by simp
  have lo: "2 powi (l - 1) \<le> real_of_int num / real_of_int den"
  proof -
    have "2 powi (l - 1) * real_of_int den \<le> 2 powi (l - 1) * 2 powi nbits den" using den by (intro mult_left_mono) auto
    also have "\<dots> = 2 powi (nbits num - 1)" by (simp add: l_def flip: power_int_add)
    finally show ?thesis using num d by (simp add: field_simps)
  qed
  have hi: "real_of_int num / real_of_int den < 2 powi (l + 1)"
  proof -
    have "2 powi nbits num = 2 powi (l + 1) * (2 :: real) powi (nbits den - 1)" by (simp add: l_def flip: power_int_add)
    also have "\<dots> \<le> 2 powi (l + 1) * real_of_int den" using den by (intro mult_left_mono) auto
    finally show ?thesis using num d by (simp add: field_simps)
  qed
  have test: "den * pow2_int l \<le> num * pow2_int (- l) \<longleftrightarrow> 2 powi l \<le> real_of_int num / real_of_int den"
  proof -
    have p: "0 < real_of_int (pow2_int (- l))" by simp
    have "den * pow2_int l \<le> num * pow2_int (- l) \<longleftrightarrow>
        real_of_int den * real_of_int (pow2_int l) \<le> real_of_int num * real_of_int (pow2_int (- l))"
      by (simp flip: of_int_mult)
    also have "\<dots> \<longleftrightarrow> real_of_int (pow2_int l) / real_of_int (pow2_int (- l)) \<le> real_of_int num / real_of_int den"
      using p d by (simp add: field_simps)
    finally show ?thesis by (simp only: pow2_int_quotient)
  qed
  show "2 powi log2_floor num den \<le> real_of_int num / real_of_int den"
    using lo test by (simp add: log2_floor_def Let_def flip: l_def)
  show "real_of_int num / real_of_int den < 2 powi (log2_floor num den + 1)"
    using hi test by (simp add: log2_floor_def Let_def flip: l_def)
qed

section \<open>Rounding to nearest\<close>

lemma round_half_even_error:
  assumes "0 < d"
  shows "\<bar>real_of_int n / real_of_int d - real_of_int (round_half_even n d)\<bar> \<le> 1 / 2"
proof -
  let ?q = "n div d" and ?r = "n mod d"
  have r: "0 \<le> ?r" "?r < d" using assms by simp_all
  have "n = ?q * d + ?r" by simp
  then have "real_of_int n = real_of_int ?q * real_of_int d + real_of_int ?r" by (metis of_int_add of_int_mult)
  then have quot: "real_of_int n / real_of_int d = real_of_int ?q + real_of_int ?r / real_of_int d"
    using assms by (simp add: field_simps)
  have frac: "real_of_int ?r / real_of_int d \<le> 1 / 2 \<longleftrightarrow> 2 * ?r \<le> d" "1 / 2 \<le> real_of_int ?r / real_of_int d \<longleftrightarrow> d \<le> 2 * ?r"
    "0 \<le> real_of_int ?r / real_of_int d" "real_of_int ?r / real_of_int d \<le> 1"
    using assms r by (simp_all add: field_simps) linarith+
  show ?thesis
  proof (cases "d < 2 * ?r \<or> (2 * ?r = d \<and> odd ?q)")
    case True
    then have "round_half_even n d = ?q + 1" by (simp add: round_half_even_def Let_def)
    with quot frac True show ?thesis by auto
  next
    case False
    then have "round_half_even n d = ?q" by (simp add: round_half_even_def Let_def)
    with quot frac False show ?thesis by auto
  qed
qed

text \<open>No integer is nearer, and the rounding stays between integers.\<close>

lemma round_half_even_nearest:
  assumes "0 < d"
  shows "\<bar>real_of_int n / real_of_int d - real_of_int (round_half_even n d)\<bar> \<le> \<bar>real_of_int n / real_of_int d - real_of_int k\<bar>"
proof (cases "k = round_half_even n d")
  case False
  then have "1 \<le> \<bar>real_of_int k - real_of_int (round_half_even n d)\<bar>" by (simp flip: of_int_diff of_int_abs)
  with round_half_even_error [OF assms, of n] show ?thesis by linarith
qed simp

lemma round_half_even_mono:
  assumes "0 < d"
  shows "real_of_int k \<le> real_of_int n / real_of_int d \<Longrightarrow> k \<le> round_half_even n d"
    and "real_of_int n / real_of_int d \<le> real_of_int k \<Longrightarrow> round_half_even n d \<le> k"
proof -
  let ?q = "round_half_even n d"
  have near: "\<bar>real_of_int n / real_of_int d - real_of_int ?q\<bar> \<le> \<bar>real_of_int n / real_of_int d - real_of_int k\<bar>"
    by (rule round_half_even_nearest [OF assms])
  show "k \<le> ?q" if le: "real_of_int k \<le> real_of_int n / real_of_int d"
  proof (rule ccontr)
    assume "\<not> k \<le> ?q"
    then have "real_of_int ?q < real_of_int k" by simp
    with near le show False by linarith
  qed
  show "?q \<le> k" if le: "real_of_int n / real_of_int d \<le> real_of_int k"
  proof (rule ccontr)
    assume "\<not> ?q \<le> k"
    then have "real_of_int k < real_of_int ?q" by simp
    with near le show False by linarith
  qed
qed

text \<open>The exponent that rounding chooses and the integer it rounds to, for a positive quotient \<open>x\<close>.\<close>

definition round_exp :: "int \<Rightarrow> int \<Rightarrow> int" where
  "round_exp num den = max (- 1074) (log2_floor num den - 52)"

definition round_man :: "int \<Rightarrow> int \<Rightarrow> int" where
  "round_man num den =
    (let e = round_exp num den in round_half_even (num * pow2_int (- e)) (den * pow2_int e))"

lemma f_round_pack: "num \<noteq> 0 \<Longrightarrow> f_round s num den = f_pack s (round_man num den) (round_exp num den)"
  by (simp add: f_round_def round_man_def round_exp_def Let_def)

lemma scaled_quotient:
  assumes "0 < den"
  shows "real_of_int (num * pow2_int (- e)) / real_of_int (den * pow2_int e) = real_of_int num / real_of_int den / 2 powi e"
proof -
  have "0 < real_of_int (pow2_int e)" "0 < real_of_int (pow2_int (- e))" "0 < real_of_int den" using assms by simp_all
  then show ?thesis by (simp add: field_simps flip: pow2_int_quotient [of e])
qed

lemma round_man_nearest:
  assumes "0 < den"
  shows "\<bar>real_of_int num / real_of_int den - real_of_int (round_man num den) * 2 powi round_exp num den\<bar> \<le>
    \<bar>real_of_int num / real_of_int den - real_of_int k * 2 powi round_exp num den\<bar>"
proof -
  let ?e = "round_exp num den" and ?x = "real_of_int num / real_of_int den"
  have p: "(0 :: real) < 2 powi ?e" by simp
  have sc: "\<bar>?x - real_of_int i * 2 powi ?e\<bar> = \<bar>?x / 2 powi ?e - real_of_int i\<bar> * 2 powi ?e" for i
  proof -
    have "?x - real_of_int i * 2 powi ?e = (?x / 2 powi ?e - real_of_int i) * 2 powi ?e" using p by (simp add: field_simps)
    then show ?thesis using p by (simp add: abs_mult)
  qed
  have "\<bar>?x / 2 powi ?e - real_of_int (round_man num den)\<bar> \<le> \<bar>?x / 2 powi ?e - real_of_int k\<bar>"
    using round_half_even_nearest [of "den * pow2_int ?e" "num * pow2_int (- ?e)" k] assms
    by (simp only: scaled_quotient [OF assms] round_man_def Let_def) simp
  then show ?thesis unfolding sc by (intro mult_right_mono) simp_all
qed

lemma round_man_bounds:
  assumes "0 < num" "0 < den"
  shows "0 \<le> round_man num den" "round_man num den \<le> 2 ^ 53"
    and "- 1074 < round_exp num den \<Longrightarrow> 2 ^ 52 \<le> round_man num den"
proof -
  let ?e = "round_exp num den" and ?x = "real_of_int num / real_of_int den" and ?l = "log2_floor num den"
  note l = log2_floor_bounds [OF assms]
  have d: "0 < den * pow2_int ?e" using assms by simp
  note mono = round_half_even_mono [OF d, where n = "num * pow2_int (- ?e)", unfolded scaled_quotient [OF assms(2)]]
  have man: "round_man num den = round_half_even (num * pow2_int (- ?e)) (den * pow2_int ?e)" by (simp add: round_man_def Let_def)
  have "?x \<le> 2 powi (?l + 1)" using l(2) by simp
  also have "(2 :: real) powi (?l + 1) \<le> 2 powi (?e + 53)" by (simp add: round_exp_def)
  finally have "?x / 2 powi ?e \<le> real_of_int (2 ^ 53)"
    by (subst pos_divide_le_eq) (simp_all add: power_int_add mult.commute)
  then show "round_man num den \<le> 2 ^ 53" unfolding man by (rule mono(2))
  have "real_of_int 0 \<le> ?x / 2 powi ?e" using assms by simp
  then show "0 \<le> round_man num den" unfolding man by (rule mono(1))
  show "2 ^ 52 \<le> round_man num den" if "- 1074 < ?e"
  proof -
    have "?l = ?e + 52" using that by (simp add: round_exp_def)
    with l(1) have "real_of_int (2 ^ 52) \<le> ?x / 2 powi ?e"
      by (subst pos_le_divide_eq) (simp_all add: power_int_add mult.commute)
    then show ?thesis unfolding man by (rule mono(1))
  qed
qed

lemma f_round_fin:
  assumes "0 < num" "0 < den" "real_of_int num / real_of_int den < 2 powi 1023"
  shows "f_finite (f_round s num den)"
    and "f_val (f_round s num den) = (if s then - 1 else 1) * (real_of_int (round_man num den) * 2 powi round_exp num den)"
proof -
  let ?q = "round_man num den" and ?e = "round_exp num den"
  have "(2 :: real) powi log2_floor num den < 2 powi 1023"
    by (rule le_less_trans [OF log2_floor_bounds(1) [OF assms(1,2)] assms(3)])
  then have "log2_floor num den < 1023" by (simp only: powi_less_iff)
  then have e: "- 1074 \<le> ?e" "?e \<le> 970" by (auto simp: round_exp_def)
  note q = round_man_bounds [OF assms(1,2)]
  have "f_round s num den = (if ?q = 2 ^ 53 then F_Fin s (2 ^ 52) (?e + 1) else F_Fin s ?q ?e)"
    using e assms(1) by (simp add: f_round_pack f_pack_def)
  then show "f_finite (f_round s num den)"
    and "f_val (f_round s num den) = (if s then - 1 else 1) * (real_of_int ?q * 2 powi ?e)"
    using q e by (force simp: signed_val_def power_int_add)+
qed

text \<open>A finite value is a multiple of the unit of rounding, or below the range of the exponent.\<close>

lemma finite_multiple:
  assumes "f_finite (F_Fin s m k)" "e \<le> k"
  shows "\<bar>f_val (F_Fin s m k)\<bar> = real_of_int (\<bar>m\<bar> * 2 ^ nat (k - e)) * 2 powi e"
proof -
  have "(2 :: real) powi k = 2 ^ nat (k - e) * 2 powi e"
    using assms(2) by (simp flip: power_int_of_nat power_int_add)
  then show ?thesis by (simp add: f_val_abs del: f_val.simps)
qed

lemma finite_below:
  assumes "f_finite (F_Fin s m k)" "k < e"
  shows "\<bar>f_val (F_Fin s m k)\<bar> \<le> 2 ^ 52 * 2 powi e"
proof -
  have "real_of_int \<bar>m\<bar> \<le> 2 ^ 53" using assms(1) by (simp flip: of_int_abs)
  then have "real_of_int \<bar>m\<bar> * 2 powi k \<le> 2 ^ 53 * 2 powi (e - 1)"
    using assms(2) by (intro mult_mono) simp_all
  also have "\<dots> = 2 ^ 52 * (2 :: real) powi e" by (simp add: power_int_diff)
  finally show ?thesis by (simp add: f_val_abs del: f_val.simps)
qed

lemma reverse_triangle: "0 \<le> (x :: real) \<Longrightarrow> \<bar>x - \<bar>v\<bar>\<bar> \<le> \<bar>v - (if s then - 1 else 1) * x\<bar>"
  by (cases s) (simp_all add: abs_if)

lemma abs_sign: "0 \<le> (x :: real) \<Longrightarrow> \<bar>(if b then - 1 else 1) * x\<bar> = x"
  by simp

lemma f_round_nearest:
  assumes "0 \<le> num" "0 < den" "real_of_int num / real_of_int den < 2 powi 1023"
  shows "f_nearest (f_round s num den) ((if s then - 1 else 1) * (real_of_int num / real_of_int den))"
proof (cases "num = 0")
  case True
  then show ?thesis by (simp add: f_nearest_def f_round_def f_zero_def)
next
  case False
  with assms(1) have num: "0 < num" by simp
  let ?x = "real_of_int num / real_of_int den" and ?q = "round_man num den" and ?e = "round_exp num den"
  let ?sg = "(if s then - 1 else 1) :: real"
  note r = f_round_fin [OF num assms(2,3), of s]
  have "\<bar>f_val (f_round s num den) - ?sg * ?x\<bar> \<le> \<bar>f_val y - ?sg * ?x\<bar>" if y: "f_finite y" for y
  proof -
    obtain t m k where fin: "y = F_Fin t m k" using y by (cases y) auto
    have lhs: "\<bar>f_val (f_round s num den) - ?sg * ?x\<bar> = \<bar>?x - real_of_int ?q * 2 powi ?e\<bar>"
      unfolding r(2) by (auto simp: abs_minus_commute)
    have rhs: "\<bar>?x - \<bar>f_val y\<bar>\<bar> \<le> \<bar>f_val y - ?sg * ?x\<bar>" using num assms(2) by (intro reverse_triangle) simp
    have "\<bar>?x - real_of_int ?q * 2 powi ?e\<bar> \<le> \<bar>?x - \<bar>f_val y\<bar>\<bar>"
    proof (cases "?e \<le> k")
      case True
      from finite_multiple [OF y [unfolded fin] True] round_man_nearest [OF assms(2), of num "\<bar>m\<bar> * 2 ^ nat (k - ?e)"]
      show ?thesis unfolding fin by (simp only:)
    next
      case False
      then have lt: "k < ?e" by simp
      moreover have "- 1074 \<le> k" using y fin by simp
      ultimately have "log2_floor num den = ?e + 52" by (simp add: round_exp_def)
      with log2_floor_bounds(1) [OF num assms(2)] have "2 ^ 52 * 2 powi ?e \<le> ?x" by (simp add: power_int_add mult.commute)
      with finite_below [OF y [unfolded fin] lt] round_man_nearest [OF assms(2), of num "2 ^ 52"] show ?thesis
        unfolding fin by (simp del: f_val.simps)
    qed
    with lhs rhs show ?thesis by linarith
  qed
  with r(1) show ?thesis by (simp add: f_nearest_def)
qed

lemma f_round_value:
  assumes "v = (if s then - 1 else 1) * (real_of_int num / real_of_int den)" "\<bar>v\<bar> < 2 powi 1023" "0 \<le> num" "0 < den"
  shows "f_nearest (f_round s num den) v"
proof -
  have "\<bar>v\<bar> = real_of_int num / real_of_int den" unfolding assms(1) by (rule abs_sign) (use assms(3,4) in simp)
  with assms(2) have "real_of_int num / real_of_int den < 2 powi 1023" by (simp only:)
  from f_round_nearest [OF assms(3,4) this] show ?thesis unfolding assms(1) .
qed

text \<open>How far rounding can be off: a part in \<open>2^53\<close> of a result in the normal range.\<close>

lemma f_round_relative:
  assumes "0 < num" "0 < den" "real_of_int num / real_of_int den < 2 powi 1023" "2 powi (- 1022) \<le> real_of_int num / real_of_int den"
  shows "\<bar>f_val (f_round s num den) - (if s then - 1 else 1) * (real_of_int num / real_of_int den)\<bar> \<le>
    real_of_int num / real_of_int den * 2 powi (- 53)"
proof -
  let ?x = "real_of_int num / real_of_int den" and ?q = "round_man num den" and ?e = "round_exp num den" and ?l = "log2_floor num den"
  note l = log2_floor_bounds [OF assms(1,2)]
  have "(2 :: real) powi (- 1022) < 2 powi (?l + 1)" by (rule le_less_trans [OF assms(4) l(2)])
  then have "- 1022 < ?l + 1" by (simp only: powi_less_iff)
  then have e: "?e = ?l - 52" by (simp add: round_exp_def)
  have d: "0 < den * pow2_int ?e" using assms by simp
  have "\<bar>?x / 2 powi ?e - real_of_int ?q\<bar> \<le> 1 / 2"
    using round_half_even_error [OF d, of "num * pow2_int (- ?e)"]
    by (simp only: scaled_quotient [OF assms(2)] round_man_def Let_def)
  then have "\<bar>?x / 2 powi ?e - real_of_int ?q\<bar> * 2 powi ?e \<le> 1 / 2 * 2 powi ?e" by (intro mult_right_mono) simp_all
  moreover have "\<bar>?x - real_of_int ?q * 2 powi ?e\<bar> = \<bar>?x / 2 powi ?e - real_of_int ?q\<bar> * 2 powi ?e"
  proof -
    have "?x - real_of_int ?q * 2 powi ?e = (?x / 2 powi ?e - real_of_int ?q) * 2 powi ?e" by (simp add: left_diff_distrib)
    then show ?thesis by (simp add: abs_mult)
  qed
  moreover have "1 / 2 * (2 :: real) powi ?e = 2 powi ?l * 2 powi (- 53)"
    unfolding e by (simp add: power_int_diff power_int_minus)
  moreover have "2 powi ?l * (2 :: real) powi (- 53) \<le> ?x * 2 powi (- 53)" using l(1) by (intro mult_right_mono) simp_all
  ultimately have "\<bar>?x - real_of_int ?q * 2 powi ?e\<bar> \<le> ?x * 2 powi (- 53)" by linarith
  moreover have "\<bar>f_val (f_round s num den) - (if s then - 1 else 1) * ?x\<bar> = \<bar>?x - real_of_int ?q * 2 powi ?e\<bar>"
    unfolding f_round_fin(2) [OF assms(1-3)] by (auto simp: abs_minus_commute)
  ultimately show ?thesis by simp
qed

section \<open>Integers\<close>

lemma representable_int:
  assumes "\<bar>i\<bar> < 2 ^ 53"
  shows "\<exists>y. f_finite y \<and> f_val y = real_of_int i"
proof (cases "i = 0")
  case True
  then show ?thesis by (intro exI [of _ "f_zero False"]) (simp add: f_zero_def)
next
  case False
  define b where "b = nbits \<bar>i\<bar>"
  have bounds: "2 powi (b - 1) \<le> real_of_int \<bar>i\<bar>" "real_of_int \<bar>i\<bar> < 2 powi b" using nbits_bounds [of "\<bar>i\<bar>"] False by (simp_all add: b_def)
  have "(2 :: real) powi (b - 1) < 2 powi 53"
    using bounds(1) assms by (simp flip: of_int_abs)
  then have b: "b \<le> 53" by (simp only: powi_less_iff)
  have "(2 :: real) powi 0 < 2 powi b" using bounds(2) False by (simp flip: of_int_abs)
  then have b0: "0 < b" by (simp only: powi_less_iff)
  define k where "k = nat (53 - b)"
  define m where "m = \<bar>i\<bar> * 2 ^ k"
  have k: "int k = 53 - b" using b by (simp add: k_def)
  have p: "(2 :: real) ^ k = 2 powi (53 - b)" by (simp flip: k)
  have "2 powi (b - 1) * 2 powi (53 - b) \<le> real_of_int m" "real_of_int m < 2 powi b * 2 powi (53 - b)"
    using bounds by (simp_all add: m_def p flip: of_int_abs)
  then have "real_of_int (2 ^ 52) \<le> real_of_int m" "real_of_int m < real_of_int (2 ^ 53)"
    by (simp_all flip: power_int_add)
  then have m: "2 ^ 52 \<le> m" "m < 2 ^ 53" by (simp_all only: of_int_le_iff of_int_less_iff)
  have "real_of_int (signed_val (i < 0) m) = real_of_int i * 2 ^ k" by (simp add: signed_val_def m_def)
  then have "f_val (F_Fin (i < 0) m (- int k)) = real_of_int i" by (simp add: power_int_minus)
  moreover have "f_finite (F_Fin (i < 0) m (- int k))" using m k b0 by simp
  ultimately show ?thesis by blast
qed

lemma two_powi_1023: "real_of_int i < 2 powi 1023" if "i < 2 ^ 200" for i
proof -
  have "real_of_int i < real_of_int (2 ^ 200)" using that by (simp only: of_int_less_iff)
  also have "\<dots> = 2 powi 200" by (simp add: power_int_def)
  also have "\<dots> < (2 :: real) powi 1023" by (subst powi_less_iff) simp
  finally show ?thesis .
qed

lemma f_of_int_nearest:
  assumes "\<bar>i\<bar> < 2 ^ 200"
  shows "f_nearest (f_of_int i) (real_of_int i)"
proof -
  have "f_nearest (f_of_int i) ((if i < 0 then - 1 else 1) * (real_of_int \<bar>i\<bar> / real_of_int 1))"
    unfolding f_of_int_def by (rule f_round_nearest) (use two_powi_1023 [OF assms] in simp_all)
  moreover have "(if i < 0 then - 1 else 1) * (real_of_int \<bar>i\<bar> / real_of_int 1) = real_of_int i" by simp
  ultimately show ?thesis by (simp only:)
qed

lemma f_of_int_exact [f64_laws]:
  assumes "\<bar>i\<bar> < 2 ^ 53"
  shows "f_finite (f_of_int i)" "f_val (f_of_int i) = real_of_int i"
proof -
  have near: "f_nearest (f_of_int i) (real_of_int i)" using assms by (intro f_of_int_nearest) simp
  then show "f_finite (f_of_int i)" by (simp add: f_nearest_def)
  obtain y where "f_finite y" "f_val y = real_of_int i" using representable_int [OF assms] by blast
  then show "f_val (f_of_int i) = real_of_int i" by (rule f_nearest_exact [OF near])
qed

section \<open>Arithmetic\<close>

lemma f_finite_cases: "f_finite x \<Longrightarrow> (\<And>s m e. x = F_Fin s m e \<Longrightarrow> 0 \<le> m \<Longrightarrow> thesis) \<Longrightarrow> thesis"
  by (cases x) auto

text \<open>A quotient or product of finite values is the exact one, rounded.\<close>

lemma f_div_round:
  assumes "f_finite x" "f_finite y" "f_val y \<noteq> 0"
  obtains b num den where "f_div x y = f_round b num den" "0 \<le> num" "0 < den"
    "f_val x / f_val y = (if b then - 1 else 1) * (real_of_int num / real_of_int den)"
proof -
  obtain s m e where x: "x = F_Fin s m e" "0 \<le> m" using assms(1) by (rule f_finite_cases)
  obtain t n k where y: "y = F_Fin t n k" "0 \<le> n" using assms(2) by (rule f_finite_cases)
  have n: "0 < n" using assms(3) y by (cases "n = 0") auto
  let ?num = "m * pow2_int (e - k)" and ?den = "n * pow2_int (k - e)"
  have "(2 :: real) powi e / 2 powi k = real_of_int (pow2_int (e - k)) / real_of_int (pow2_int (k - e))"
    using pow2_int_quotient [of "e - k"] by (simp add: power_int_diff)
  then have q: "real_of_int ?num / real_of_int ?den = real_of_int m / real_of_int n * (2 powi e / 2 powi k)"
    by (simp add: field_simps)
  have "f_val x / f_val y = (if s \<noteq> t then - 1 else 1) * (real_of_int ?num / real_of_int ?den)"
    unfolding q x y by (simp add: signed_val_def)
  moreover have "f_div x y = f_round (s \<noteq> t) ?num ?den" using n by (simp add: x y)
  moreover have "0 \<le> ?num" "0 < ?den" using x(2) n by (simp_all add: less_imp_le)
  ultimately show ?thesis using that by blast
qed

lemma f_div_nearest [f64_laws]:
  assumes "f_finite x" "f_finite y" "f_val y \<noteq> 0" "\<bar>f_val x / f_val y\<bar> < 2 powi 1023"
  shows "f_nearest (f_div x y) (f_val x / f_val y)"
proof -
  obtain b num den where d: "f_div x y = f_round b num den" "0 \<le> num" "0 < den"
    "f_val x / f_val y = (if b then - 1 else 1) * (real_of_int num / real_of_int den)"
    by (rule f_div_round [OF assms(1-3)])
  from f_round_value [OF d(4) assms(4) d(2,3)] show ?thesis by (simp only: d(1))
qed

lemma f_div_relative [f64_laws]:
  assumes "f_finite x" "f_finite y" "f_val y \<noteq> 0" "\<bar>f_val x / f_val y\<bar> < 2 powi 1023" "2 powi (- 1022) \<le> \<bar>f_val x / f_val y\<bar>"
  shows "\<bar>f_val (f_div x y) - f_val x / f_val y\<bar> \<le> \<bar>f_val x / f_val y\<bar> * 2 powi (- 53)"
proof -
  obtain b num den where d: "f_div x y = f_round b num den" "0 \<le> num" "0 < den"
    "f_val x / f_val y = (if b then - 1 else 1) * (real_of_int num / real_of_int den)"
    by (rule f_div_round [OF assms(1-3)])
  have abs: "\<bar>f_val x / f_val y\<bar> = real_of_int num / real_of_int den" unfolding d(4) by (rule abs_sign) (use d(2,3) in simp)
  have "(0 :: real) < 2 powi (- 1022)" by simp
  also have "\<dots> \<le> real_of_int num / real_of_int den" using assms(5) unfolding abs .
  finally have "0 < real_of_int num / real_of_int den" .
  then have "0 < num" using d(2,3) by (cases "num = 0") simp_all
  from f_round_relative [OF this d(3) assms(4,5) [unfolded abs], of b] show ?thesis unfolding abs unfolding d(1,4) .
qed

lemma f_mul_nearest [f64_laws]:
  assumes "f_finite x" "f_finite y" "\<bar>f_val x * f_val y\<bar> < 2 powi 1023"
  shows "f_nearest (f_mul x y) (f_val x * f_val y)"
proof -
  obtain s m e where x: "x = F_Fin s m e" "0 \<le> m" using assms(1) by (rule f_finite_cases)
  obtain t n k where y: "y = F_Fin t n k" "0 \<le> n" using assms(2) by (rule f_finite_cases)
  let ?num = "m * n * pow2_int (e + k)" and ?den = "pow2_int (- (e + k))"
  have q: "real_of_int ?num / real_of_int ?den = real_of_int (m * n) * 2 powi (e + k)"
    unfolding pow2_int_quotient [of "e + k", symmetric] by simp
  have val: "f_val x * f_val y = (if s \<noteq> t then - 1 else 1) * (real_of_int ?num / real_of_int ?den)"
    unfolding q x y by (simp add: signed_val_def power_int_add)
  have "0 \<le> ?num" using x(2) y(2) by (simp add: less_imp_le)
  note f_round_value [OF val assms(3) this pow2_int_pos]
  moreover have "f_mul x y = f_round (s \<noteq> t) ?num ?den" by (simp add: x y)
  ultimately show ?thesis by (simp only:)
qed

section \<open>Order\<close>

lemma signed_scaled:
  assumes "b \<le> e"
  shows "real_of_int (signed_val s (m * pow2_int (e - b))) * 2 powi b = real_of_int (signed_val s m) * 2 powi e"
proof -
  have "real_of_int (pow2_int (e - b)) = 2 powi (e - b)" using assms by (simp add: pow2_int_def power_int_def)
  then have "real_of_int (pow2_int (e - b)) * 2 powi b = 2 powi e" by (simp add: power_int_diff)
  moreover have "signed_val s (m * pow2_int (e - b)) = signed_val s m * pow2_int (e - b)" by (simp add: signed_val_def)
  ultimately show ?thesis by (simp add: mult.assoc)
qed

lemma f_less_val [f64_laws]:
  assumes "f_finite x" "f_finite y"
  shows "f_less x y \<longleftrightarrow> f_val x < f_val y"
proof -
  obtain s m e where x: "x = F_Fin s m e" using assms(1) by (rule f_finite_cases)
  obtain t n k where y: "y = F_Fin t n k" using assms(2) by (rule f_finite_cases)
  let ?b = "min e k"
  let ?i = "signed_val s (m * pow2_int (e - ?b))" and ?j = "signed_val t (n * pow2_int (k - ?b))"
  have "f_less x y \<longleftrightarrow> real_of_int ?i < real_of_int ?j" by (simp add: x y Let_def)
  also have "\<dots> \<longleftrightarrow> real_of_int ?i * 2 powi ?b < real_of_int ?j * 2 powi ?b" by simp
  also have "\<dots> \<longleftrightarrow> f_val x < f_val y" by (simp only: signed_scaled min.cobounded1 min.cobounded2 x y f_val.simps)
  finally show ?thesis .
qed

lemma f_finite_not_NaN: "f_finite x \<Longrightarrow> x \<noteq> F_NaN"
  by auto

lemma f_min_val [f64_laws]:
  "f_finite x \<Longrightarrow> f_finite y \<Longrightarrow> f_finite (f_min x y) \<and> f_val (f_min x y) = min (f_val x) (f_val y)"
  by (auto simp: f_min_def f_less_val f_finite_not_NaN)

lemma f_max_val [f64_laws]:
  "f_finite x \<Longrightarrow> f_finite y \<Longrightarrow> f_finite (f_max x y) \<and> f_val (f_max x y) = max (f_val x) (f_val y)"
  by (auto simp: f_max_def f_less_val f_finite_not_NaN)

text \<open>The extreme finite values.\<close>

lemma f_extremes_finite: "f_finite f_MAX" "f_finite f_MIN"
  by (simp_all add: f_MAX_def f_MIN_def)

lemma f_val_extremes: "f_val f_MAX = (2 ^ 53 - 1) * 2 powi 971" "f_val f_MIN = - ((2 ^ 53 - 1) * 2 powi 971)"
  by (simp_all only: f_MAX_def f_MIN_def f_val.simps signed_val_def) simp_all

lemma f_val_bounded:
  assumes "f_finite x"
  shows "f_val f_MIN \<le> f_val x" "f_val x \<le> f_val f_MAX"
proof -
  obtain s m e where x: "x = F_Fin s m e" "0 \<le> m" using assms by (rule f_finite_cases)
  have m: "real_of_int \<bar>m\<bar> \<le> real_of_int (2 ^ 53 - 1)" using assms x by (simp only: of_int_le_iff) auto
  have "real_of_int \<bar>m\<bar> * 2 powi e \<le> real_of_int (2 ^ 53 - 1) * 2 powi 971"
  proof (rule mult_mono [OF m])
    show "(2 :: real) powi e \<le> 2 powi 971" using assms x by (subst powi_le_iff) simp
  qed simp_all
  then have "\<bar>f_val x\<bar> \<le> (2 ^ 53 - 1) * 2 powi 971" unfolding x f_val_abs by simp
  then show "f_val f_MIN \<le> f_val x" "f_val x \<le> f_val f_MAX" unfolding f_val_extremes by linarith+
qed

section \<open>Conversion to integers\<close>

lemma ceiling_div_neg: "0 < (d :: int) \<Longrightarrow> (m + d - 1) div d = - ((- m) div d)"
proof -
  assume d: "0 < d"
  let ?q = "(- m) div d" and ?r = "(- m) mod d"
  have "- m = ?q * d + ?r" by simp
  then have "m + d - 1 = (d - 1 - ?r) + (- ?q) * d" by (simp only: minus_mult_left [symmetric])
  moreover have "(d - 1 - ?r) div d = 0" using d pos_mod_bound [OF d, of "- m"] pos_mod_sign [OF d, of "- m"]
    by (intro div_pos_pos_trivial) linarith+
  ultimately show ?thesis using d by (simp only: div_mult_self1)
qed

lemma ceil_fin_val: "ceil_fin s m e = \<lceil>f_val (F_Fin s m e)\<rceil>"
proof (cases "0 \<le> e")
  case True
  then have "f_val (F_Fin s m e) = real_of_int (signed_val s (m * pow2_int e))"
    by (simp add: signed_val_def pow2_int_def power_int_def)
  with True show ?thesis by (simp add: ceil_fin_def)
next
  case False
  let ?d = "pow2_int (- e)"
  have "(2 :: real) powi e = 1 / real_of_int ?d" using False by (simp add: pow2_int_def power_int_def divide_simps)
  then have val: "f_val (F_Fin s m e) = real_of_int (signed_val s m) / real_of_int ?d" by simp
  have "(m + ?d - 1) div ?d = - ((- m) div ?d)" by (rule ceiling_div_neg) simp
  with False show ?thesis unfolding val by (simp add: ceil_fin_def signed_val_def ceiling_divide_eq_div flip: of_int_minus)
qed

end
