(* ===== verification/Os_Env.thy ===== *)
theory Os_Env
  imports Rust_Str Rust_Map
begin

text \<open>
  The operating system below the monitor (\<^verbatim>\<open>statmon\<close>) and the two libraries it calls, as a parameter:
  what each system call answers at its point in time, how the regular expressions of the disk filter
  match, and in which order hash maps iterate. The world carries a clock that every call advances, so
  that two reads of the same file may differ, and the advisory lock on the faasm monitor file.

  The \<open>perfcnt\<close> crate is a submodule without sources here: building, resetting, starting, stopping and
  reading a counter are calls of the environment on an opaque handle.
\<close>

datatype HardwareEventType =
  CPUCycles | Instructions | CacheReferences | CacheMisses | BranchInstructions | BranchMisses |
  StalledCyclesFrontend | StalledCyclesBackend | RefCPUCycles

datatype SoftwareEventType = PageFaults | PageFaultsMaj | PageFaultsMin | CpuMigrations

datatype CacheId = L1D | L1I | DTLB | ITLB

datatype CacheOpId = OpRead

datatype CacheOpResultId = Access | Miss

datatype PerfEvent =
    HwEvent HardwareEventType
  | SwEvent SoftwareEventType
  | CacheEvent CacheId CacheOpId CacheOpResultId

type_synonym PerfCounter = nat

record os =
  os_open :: "nat \<Rightarrow> string \<Rightarrow> io_error option"
  os_read :: "nat \<Rightarrow> string \<Rightarrow> io_error + string"
  os_seek :: "nat \<Rightarrow> string \<Rightarrow> io_error option"
  os_flock :: "nat \<Rightarrow> bool"
  os_clk_tck :: "i64"
  pc_build :: "nat \<Rightarrow> PerfEvent \<Rightarrow> nat \<Rightarrow> io_error + PerfCounter"
  pc_reset :: "nat \<Rightarrow> PerfCounter \<Rightarrow> io_error option"
  pc_start :: "nat \<Rightarrow> PerfCounter \<Rightarrow> io_error option"
  pc_stop :: "nat \<Rightarrow> PerfCounter \<Rightarrow> io_error option"
  pc_read :: "nat \<Rightarrow> PerfCounter \<Rightarrow> io_error + u64"
  regex_matches :: "string list \<Rightarrow> string \<Rightarrow> bool"

record world =
  clock :: nat
  flocked :: bool

text \<open>An open file is known by its path. Every reader rewinds before it returns; where a failed read or seek leaves
  the position elsewhere, the answer of the next read is the environment's.\<close>

datatype File = File string

fun file_path :: "File \<Rightarrow> string" where
  "file_path (File f) = f"

text \<open>A component's state beside the world.\<close>

type_synonym ('s, 'a) sys = "('s \<times> world, 'a) rust"

definition tick :: "world \<Rightarrow> world" where
  "tick w = w\<lparr>clock := Suc (clock w)\<rparr>"

definition unit_call :: "(nat \<Rightarrow> io_error option) \<Rightarrow> ('s, unit) sys" where
  "unit_call f = (\<lambda>(s, w). (case f (clock w) of Some e \<Rightarrow> Err (IoError e) | None \<Rightarrow> Ok (), (s, tick w)))"

definition val_call :: "(nat \<Rightarrow> io_error + 'a) \<Rightarrow> ('s, 'a) sys" where
  "val_call f = (\<lambda>(s, w). (case f (clock w) of Inl e \<Rightarrow> Err (IoError e) | Inr v \<Rightarrow> Ok v, (s, tick w)))"

text \<open>\<open>OpenOptions::new().read(true).open(path)?\<close>\<close>

definition sys_open :: "os \<Rightarrow> string \<Rightarrow> ('s, File) sys" where
  "sys_open env path =
     bind (unit_call (\<lambda>t. os_open env t path)) (\<lambda>_. ret (File path))"

text \<open>\<open>fp.read_to_string(buf)?; fp.seek(SeekFrom::Start(0))?\<close>, where the text read is kept if seeking fails.\<close>

definition sys_read :: "os \<Rightarrow> File \<Rightarrow> ('s, string) sys" where
  "sys_read env fp = val_call (\<lambda>t. os_read env t (file_path fp))"

definition sys_rewind :: "os \<Rightarrow> File \<Rightarrow> ('s, unit) sys" where
  "sys_rewind env fp = unit_call (\<lambda>t. os_seek env t (file_path fp))"

definition on_state :: "('s \<Rightarrow> 's) \<Rightarrow> ('s, unit) sys" where
  "on_state f = modify (\<lambda>(s, w). (f s, w))"

definition get_state :: "('s \<Rightarrow> 'a) \<Rightarrow> ('s, 'a) sys" where
  "get_state f = gets (\<lambda>(s, w). f s)"

text \<open>A program of a part of the component's state, beside the same world.\<close>

definition within :: "('s \<Rightarrow> 't) \<Rightarrow> ('t \<Rightarrow> 's \<Rightarrow> 's) \<Rightarrow> ('t, 'a) sys \<Rightarrow> ('s, 'a) sys" where
  "within g put m = zoom (\<lambda>(s, w). (g s, w)) (\<lambda>(t, w') (s, w). (put t s, w')) m"

text \<open>A program of a part that does not touch the world.\<close>

definition pure_within :: "('s \<Rightarrow> 't) \<Rightarrow> ('t \<Rightarrow> 's \<Rightarrow> 's) \<Rightarrow> ('t, 'a) rust \<Rightarrow> ('s, 'a) sys" where
  "pure_within g put m = zoom (\<lambda>(s, w). g s) (\<lambda>t (s, w). (put t s, w)) m"

section \<open>Invariants of the component only\<close>

definition keeps :: "('s \<Rightarrow> bool) \<Rightarrow> ('s, 'a) sys \<Rightarrow> bool" where
  "keeps I m \<longleftrightarrow> pres (\<lambda>(s, w). I s) m"

named_theorems keeps_rules "rules that show an invariant of the component kept by a program"

lemma keeps_iff: "keeps I m \<longleftrightarrow> (\<forall>s w. I s \<longrightarrow> I (fst (snd (m (s, w)))))"
  by (auto simp: keeps_def pres_def triple_def split_beta)

lemma keepsI: "(\<And>s w. I s \<Longrightarrow> I (fst (snd (m (s, w))))) \<Longrightarrow> keeps I m"
  by (simp add: keeps_iff)

lemma keepsD: "keeps I m \<Longrightarrow> I s \<Longrightarrow> I (fst (snd (m (s, w))))"
  by (simp add: keeps_iff)

lemma keepsE: "keeps I m \<Longrightarrow> m (s, w) = (r, (s', w')) \<Longrightarrow> I s \<Longrightarrow> I s'"
  by (metis keepsD fst_conv snd_conv)

lemma keeps_bind [keeps_rules]: "keeps I m \<Longrightarrow> (\<And>x. keeps I (f x)) \<Longrightarrow> keeps I (bind m f)"
  by (simp add: keeps_def pres_bind)

lemma keeps_seq [keeps_rules]: "keeps I m \<Longrightarrow> keeps I n \<Longrightarrow> keeps I (seq m n)"
  by (simp add: keeps_def pres_seq)

lemma keeps_ret [keeps_rules]: "keeps I (ret x)"
  by (simp add: keeps_def pres_ret)

lemma keeps_lift [keeps_rules]: "keeps I (lift_o r)"
  by (simp add: keeps_def pres_lift_o)

lemma keeps_gets [keeps_rules]: "keeps I (gets f)"
  by (simp add: keeps_def pres_gets)

lemma keeps_get_state [keeps_rules]: "keeps I (get_state f)"
  by (simp add: get_state_def keeps_gets)

lemma keeps_adapt [keeps_rules]: "keeps I m \<Longrightarrow> keeps I (adapt f m)"
  by (simp add: keeps_def pres_adapt)

lemma keeps_for_each [keeps_rules]: "(\<And>x. keeps I (f x)) \<Longrightarrow> keeps I (for_each f xs)"
  by (simp add: keeps_def pres_for_each)

lemma keeps_if [keeps_rules]: "(b \<Longrightarrow> keeps I m) \<Longrightarrow> (\<not> b \<Longrightarrow> keeps I n) \<Longrightarrow> keeps I (if b then m else n)"
  by simp

lemma keeps_calls [keeps_rules]:
  "keeps I (unit_call f)" "keeps I (val_call g)" "keeps I (sys_open env path)"
  "keeps I (sys_read env fp)" "keeps I (sys_rewind env fp)"
proof -
  show u: "keeps I (unit_call f)" for f :: "nat \<Rightarrow> io_error option"
    by (rule keepsI) (simp add: unit_call_def)
  show v: "keeps I (val_call g)" for g :: "nat \<Rightarrow> io_error + 'z"
    by (rule keepsI) (simp add: val_call_def)
  show "keeps I (sys_open env path)" unfolding sys_open_def by (intro keeps_rules u)
  show "keeps I (sys_read env fp)" unfolding sys_read_def by (rule v)
  show "keeps I (sys_rewind env fp)" unfolding sys_rewind_def by (rule u)
qed

lemma keeps_on_state: "(\<And>s. I s \<Longrightarrow> I (f s)) \<Longrightarrow> keeps I (on_state f)"
  by (rule keepsI) (simp add: on_state_def modify_def)

lemma keeps_within:
  assumes "keeps J m" "\<And>s. I s \<Longrightarrow> J (g s)" "\<And>t s. I s \<Longrightarrow> J t \<Longrightarrow> I (put t s)"
  shows "keeps I (within g put m)"
proof (rule keepsI)
  fix s w
  assume "I s"
  then have "J (fst (snd (m (g s, w))))" using assms(1,2) by (simp add: keepsD)
  with \<open>I s\<close> show "I (fst (snd (within g put m (s, w))))"
    by (auto simp: within_def zoom_def assms(3) split: prod.splits)
qed

lemma keeps_pure_within:
  assumes "pres J m" "\<And>s. I s \<Longrightarrow> J (g s)" "\<And>t s. I s \<Longrightarrow> J t \<Longrightarrow> I (put t s)"
  shows "keeps I (pure_within g put m)"
proof (rule keepsI)
  fix s w
  assume "I s"
  then have "J (snd (m (g s)))" using assms(1,2) by (simp add: presD)
  with \<open>I s\<close> show "I (fst (snd (pure_within g put m (s, w))))"
    by (auto simp: pure_within_def zoom_def assms(3) split: prod.splits)
qed

section \<open>Successful runs\<close>

text \<open>Inversion of a successful run into its steps.\<close>

lemma on_state_Ok [simp]: "on_state f (s, w) = (r, t) \<longleftrightarrow> r = Ok () \<and> t = (f s, w)"
  by (auto simp: on_state_def modify_def)

lemma get_state_Ok [simp]: "get_state f (s, w) = (r, t) \<longleftrightarrow> r = Ok (f s) \<and> t = (s, w)"
  by (auto simp: get_state_def gets_def)

lemma unit_call_Ok [simp]:
  "unit_call f (s, w) = (Ok (), t) \<longleftrightarrow> f (clock w) = None \<and> t = (s, tick w)"
  by (auto simp: unit_call_def split: option.splits)

lemma val_call_Ok [simp]:
  "val_call f (s, w) = (Ok v, t) \<longleftrightarrow> f (clock w) = Inr v \<and> t = (s, tick w)"
  by (auto simp: val_call_def split: sum.splits)

lemma within_Ok:
  "within g put m (s, w) = (r, t) \<longleftrightarrow> (\<exists>s' w'. m (g s, w) = (r, (s', w')) \<and> t = (put s' s, w'))"
  by (auto simp: within_def zoom_def split: prod.splits)

lemma pure_within_Ok:
  "pure_within g put m (s, w) = (r, t) \<longleftrightarrow> (\<exists>s'. m (g s) = (r, s') \<and> t = (put s' s, w))"
  by (auto simp: pure_within_def zoom_def split: prod.splits)

lemma sys_open_Ok [simp]:
  "sys_open env path (s, w) = (Ok fp, t) \<longleftrightarrow>
     os_open env (clock w) path = None \<and> fp = File path \<and> t = (s, tick w)"
  by (auto simp: sys_open_def bind_eq_Ok)

lemma sys_read_Ok [simp]:
  "sys_read env fp (s, w) = (Ok b, t) \<longleftrightarrow> os_read env (clock w) (file_path fp) = Inr b \<and> t = (s, tick w)"
  by (simp add: sys_read_def)

lemma sys_rewind_Ok [simp]:
  "sys_rewind env fp (s, w) = (Ok (), t) \<longleftrightarrow> os_seek env (clock w) (file_path fp) = None \<and> t = (s, tick w)"
  by (simp add: sys_rewind_def)

lemma clock_tick [simp]: "clock (tick w) = Suc (clock w)" "flocked (tick w) = flocked w"
  by (simp_all add: tick_def)

section \<open>Rereading a file of the kernel\<close>

text \<open>
  \<open>rdbuf.clear(); fp.read_to_string(rdbuf)?; fp.seek(SeekFrom::Start(0))?\<close>: \<open>buf\<close> stores the buffer in
  the component's state.
\<close>

definition reread :: "os \<Rightarrow> File \<Rightarrow> (string \<Rightarrow> 's \<Rightarrow> 's) \<Rightarrow> ('s, string) sys" where
  "reread env fp buf =
     seq (on_state (buf [])) (
     bind (sys_read env fp) (\<lambda>b.
     seq (on_state (buf b)) (
     seq (sys_rewind env fp) (
     ret b))))"

lemma reread_Ok:
  "reread env fp buf (s, w) = (Ok b, t) \<longleftrightarrow>
     os_read env (clock w) (file_path fp) = Inr b \<and> os_seek env (Suc (clock w)) (file_path fp) = None \<and>
     t = (buf b (buf [] s), tick (tick w))"
  by (auto simp: reread_def prog_Ok_iff)

lemma keeps_reread: "(\<And>b s. I s \<Longrightarrow> I (buf b s)) \<Longrightarrow> keeps I (reread env fp buf)"
  unfolding reread_def by (intro keeps_rules keeps_on_state) auto

section \<open>Samplers of growing counters\<close>

text \<open>
  The contract that the CPU and the disk sampler share: each successful update of an opened sampler
  remembers the totals of the previous one. The reported differences then telescope: over any sequence
  of updates they add up to the growth of the totals, modulo \<open>2^64\<close>.
\<close>

primrec update_chain :: "('s, unit) sys \<Rightarrow> 's \<times> world \<Rightarrow> ('s \<times> world) list \<Rightarrow> bool" where
  "update_chain upd c [] = True"
| "update_chain upd c (d # ds) = (upd c = (Ok (), d) \<and> update_chain upd d ds)"

locale delta_sampler =
  fixes upd :: "('s, unit) sys" and cur :: "'s \<Rightarrow> u64 list" and prev :: "'s \<Rightarrow> u64 list"
    and opened :: "'s \<Rightarrow> bool"
  assumes upd_prev: "opened s \<Longrightarrow> upd (s, w) = (Ok (), (s', w')) \<Longrightarrow> prev s' = cur s \<and> opened s'"
begin

lemma deltas_telescope:
  "update_chain upd c ds \<Longrightarrow> opened (fst c) \<Longrightarrow>
   (\<Sum>d\<leftarrow>ds. cur (fst d) ! i - prev (fst d) ! i) = cur (fst (last (c # ds))) ! i - cur (fst c) ! i"
proof (induction ds arbitrary: c)
  case Nil
  then show ?case by simp
next
  case (Cons d ds)
  have "upd (fst c, snd c) = (Ok (), (fst d, snd d))" using Cons.prems(1) by simp
  then have d: "prev (fst d) = cur (fst c)" "opened (fst d)"
    using upd_prev Cons.prems(2) by blast+
  then have "(\<Sum>d\<leftarrow>ds. cur (fst d) ! i - prev (fst d) ! i) = cur (fst (last (d # ds))) ! i - cur (fst d) ! i"
    using Cons.IH Cons.prems(1) by simp
  with d show ?case by simp
qed

end

section \<open>A concrete environment\<close>

text \<open>
  An environment whose files never change and whose calls succeed, with one processor; used to run the
  programs on concrete inputs.
\<close>

definition static_os :: "(string \<Rightarrow> string) \<Rightarrow> (string \<Rightarrow> bool) \<Rightarrow> os" where
  "static_os files ignored =
    \<lparr>os_open = (\<lambda>_ _. None), os_read = (\<lambda>_ f. Inr (files f)), os_seek = (\<lambda>_ _. None),
     os_flock = (\<lambda>_. True), os_clk_tck = 100,
     pc_build = (\<lambda>_ _ cpu. if cpu = 0 then Inr 0 else Inl (Errno 19)),
     pc_reset = (\<lambda>_ _. None), pc_start = (\<lambda>_ _. None), pc_stop = (\<lambda>_ _. None),
     pc_read = (\<lambda>_ _. Inr 7), regex_matches = (\<lambda>_. ignored)\<rparr>"

definition start_world :: world where
  "start_world = \<lparr>clock = 0, flocked = False\<rparr>"

end
