(* ===== verification/Cpu_Stat.thy ===== *)
theory Cpu_Stat
  imports Os_Env
begin

text \<open>
  The CPU sampler, \<^verbatim>\<open>statmon/src/cpustat.rs\<close>: totals of CPU time per mode in milliseconds, context
  switches and process counts, read from \<open>/proc/stat\<close>.
\<close>

datatype CpuTotals =
  UserMode | NiceUserMode | SystemMode | Idle | IoWait | Irq | SoftIrq | Steal | Guest | GuestNice

fun cpu_index :: "CpuTotals \<Rightarrow> nat" where
  "cpu_index UserMode = 0"
| "cpu_index NiceUserMode = 1"
| "cpu_index SystemMode = 2"
| "cpu_index Idle = 3"
| "cpu_index IoWait = 4"
| "cpu_index Irq = 5"
| "cpu_index SoftIrq = 6"
| "cpu_index Steal = 7"
| "cpu_index Guest = 8"
| "cpu_index GuestNice = 9"

record CpuStat =
  cpu_fp :: "File option"
  ms_per_clk :: u64
  cpu_totals :: "u64 list"
  cpu_totals_last :: "u64 list"
  cpu_ctxt :: u64
  cpu_ctxt_last :: u64
  cpu_running :: u64
  cpu_blocked :: u64

definition CpuStat_new :: CpuStat where
  "CpuStat_new = \<lparr>cpu_fp = None, ms_per_clk = 0, cpu_totals = replicate 10 0,
     cpu_totals_last = replicate 10 0, cpu_ctxt = 0, cpu_ctxt_last = 0, cpu_running = 0, cpu_blocked = 0\<rparr>"

section \<open>One pass over the file\<close>

text \<open>The fields of the \<open>cpu\<close> line are stored one by one; a bad one leaves the earlier ones stored.\<close>

definition cpu_field :: "profile \<Rightarrow> nat \<times> string \<Rightarrow> (CpuStat, unit) rust" where
  "cpu_field p f =
    bind (lift_o (parse_u64 (snd f))) (\<lambda>val.
    bind (\<lambda>s. (umul p val (ms_per_clk s), s)) (\<lambda>ms.
    modify (\<lambda>s. s\<lparr>cpu_totals := (cpu_totals s)[fst f := ms]\<rparr>)))"

definition cpu_line :: "profile \<Rightarrow> string \<Rightarrow> (CpuStat, unit) rust" where
  "cpu_line p line =
    (if starts_with ''cpu '' line then
       for_each (cpu_field p) (zip [0..<10] (drop 1 (split_whitespace line)))
     else case strip_prefix ''ctxt '' line of
       Some valstr \<Rightarrow> bind (lift_o (parse_u64 (trim valstr))) (\<lambda>v. modify (\<lambda>s. s\<lparr>cpu_ctxt := v\<rparr>))
     | None \<Rightarrow>
       (case strip_prefix ''procs_running '' line of
          Some valstr \<Rightarrow> bind (lift_o (parse_u64 (trim valstr))) (\<lambda>v. modify (\<lambda>s. s\<lparr>cpu_running := v\<rparr>))
        | None \<Rightarrow>
          (case strip_prefix ''procs_blocked '' line of
             Some valstr \<Rightarrow> bind (lift_o (parse_u64 (trim valstr))) (\<lambda>v. modify (\<lambda>s. s\<lparr>cpu_blocked := v\<rparr>))
           | None \<Rightarrow> ret ())))"

text \<open>
  The state of \<open>update(&mut self, rdbuf: &mut String)\<close> is the sampler and the caller's buffer.
  \<open>cpu_pass\<close> is the part of \<open>update\<close> after the opening of the file.
\<close>

definition put_buf :: "string \<Rightarrow> 's \<times> string \<Rightarrow> 's \<times> string" where
  "put_buf b s = (fst s, b)"

definition cpu_pass :: "profile \<Rightarrow> os \<Rightarrow> (CpuStat \<times> string, unit) sys" where
  "cpu_pass p env =
    bind (get_state (\<lambda>s. cpu_fp (fst s))) (\<lambda>f.
    bind (lift_o (unwrap_opt f)) (\<lambda>fp.
    seq (on_state (apfst (\<lambda>s. s\<lparr>cpu_totals_last := cpu_totals s, cpu_ctxt_last := cpu_ctxt s\<rparr>))) (
    bind (reread env fp put_buf) (\<lambda>b.
    pure_within fst (\<lambda>c s. (c, snd s)) (for_each (cpu_line p) (trimmed_lines b))))))"

text \<open>
  The first call opens the file and calls itself before it goes on; that inner call finds the file
  open, so it is one pass, and the first update samples twice.
\<close>

definition cpu_update :: "profile \<Rightarrow> os \<Rightarrow> (CpuStat \<times> string, unit) sys" where
  "cpu_update p env =
    bind (get_state (\<lambda>s. cpu_fp (fst s))) (\<lambda>f.
    seq
      (if f = None then
         bind (sys_open env ''/proc/stat'') (\<lambda>fp.
         seq (on_state (apfst (\<lambda>s. s\<lparr>cpu_fp := Some fp\<rparr>))) (
         bind (lift_o (udiv 1000 (os_clk_tck env))) (\<lambda>ms.
         seq (on_state (apfst (\<lambda>s. s\<lparr>ms_per_clk := ms\<rparr>)))
         (cpu_pass p env))))
       else ret ())
      (cpu_pass p env))"

section \<open>Readings\<close>

definition deltas :: "profile \<Rightarrow> u64 list \<Rightarrow> u64 list \<Rightarrow> u64 list outcome" where
  "deltas p now old = omap (\<lambda>(a, b). usub p a b) (zip now old)"

definition cpu_totals_ms :: "profile \<Rightarrow> CpuStat \<Rightarrow> u64 list outcome" where
  "cpu_totals_ms p s = deltas p (cpu_totals s) (cpu_totals_last s)"

definition context_switches :: "profile \<Rightarrow> CpuStat \<Rightarrow> u64 outcome" where
  "context_switches p s = usub p (cpu_ctxt s) (cpu_ctxt_last s)"

definition procs_running :: "CpuStat \<Rightarrow> u64" where
  "procs_running s = cpu_running s"

definition procs_io_blocked :: "CpuStat \<Rightarrow> u64" where
  "procs_io_blocked s = cpu_blocked s"

section \<open>Well-formedness\<close>

definition wf_cpu :: "CpuStat \<Rightarrow> bool" where
  "wf_cpu s \<longleftrightarrow> length (cpu_totals s) = 10 \<and> length (cpu_totals_last s) = 10"

lemma wf_cpu_new: "wf_cpu CpuStat_new"
  by (simp add: wf_cpu_def CpuStat_new_def)

lemma cpu_field_pres:
  "pres (\<lambda>s. cpu_fp s = f \<and> cpu_totals_last s = l \<and> cpu_ctxt_last s = c \<and> length (cpu_totals s) = n)
     (cpu_field p x)"
  unfolding cpu_field_def
  by (intro rust_pres pres_modify presI) (simp_all add: split_beta)

lemma cpu_line_pres:
  "pres (\<lambda>s. cpu_fp s = f \<and> cpu_totals_last s = l \<and> cpu_ctxt_last s = c \<and> length (cpu_totals s) = n)
     (cpu_line p line)"
  unfolding cpu_line_def
  by (auto intro!: rust_pres cpu_field_pres pres_modify split: option.splits)

lemma cpu_lines_pres:
  "pres (\<lambda>s. cpu_fp s = f \<and> cpu_totals_last s = l \<and> cpu_ctxt_last s = c \<and> length (cpu_totals s) = n)
     (for_each (cpu_line p) ls)"
  by (rule pres_for_each, rule cpu_line_pres)

lemma cpu_lines_wf: "pres wf_cpu (for_each (cpu_line p) ls)"
proof (rule presI)
  fix s
  assume "wf_cpu s"
  then show "wf_cpu (snd (for_each (cpu_line p) ls s))"
    using presD [OF cpu_lines_pres [of "cpu_fp s" "cpu_totals_last s" "cpu_ctxt_last s" 10 p ls], of s]
    by (simp add: wf_cpu_def)
qed

lemma cpu_pass_keeps: "keeps (\<lambda>s. wf_cpu (fst s)) (cpu_pass p env)"
  unfolding cpu_pass_def
  by (intro keeps_rules keeps_on_state keeps_reread keeps_pure_within [OF cpu_lines_wf])
    (auto simp: wf_cpu_def put_buf_def)

lemma cpu_update_keeps: "keeps (\<lambda>s. wf_cpu (fst s)) (cpu_update p env)"
  unfolding cpu_update_def
  by (intro keeps_rules keeps_on_state cpu_pass_keeps) (auto simp: wf_cpu_def)

section \<open>A pass remembers the previous totals\<close>

lemma cpu_pass_Ok:
  assumes "cpu_pass p env (s, w) = (Ok (), (s', w'))"
  shows "cpu_totals_last (fst s') = cpu_totals (fst s) \<and> cpu_ctxt_last (fst s') = cpu_ctxt (fst s) \<and>
    cpu_fp (fst s') = cpu_fp (fst s) \<and> cpu_fp (fst s) \<noteq> None"
proof -
  from assms obtain fp b c where fp: "cpu_fp (fst s) = Some fp"
    and c: "for_each (cpu_line p) (trimmed_lines b)
        ((fst s)\<lparr>cpu_totals_last := cpu_totals (fst s), cpu_ctxt_last := cpu_ctxt (fst s)\<rparr>) = (Ok (), c)"
    and s': "fst s' = c"
    by (cases s) (auto simp: cpu_pass_def bind_eq_Ok seq_eq_Ok reread_Ok pure_within_Ok unwrap_opt_def
        put_buf_def split: option.splits)
  show ?thesis
    using presE [OF cpu_lines_pres [of "cpu_fp (fst s)" "cpu_totals (fst s)" "cpu_ctxt (fst s)"
        "length (cpu_totals (fst s))" p "trimmed_lines b"] c] fp s'
    by simp
qed

lemma cpu_update_opened:
  assumes "cpu_fp (fst s) \<noteq> None"
  shows "cpu_update p env (s, w) = cpu_pass p env (s, w)"
  using assms by (auto simp: cpu_update_def bind_def seq_def get_state_def gets_def ret_def
      split: prod.splits outcome.splits)

interpretation cpu: delta_sampler "cpu_update p env" "\<lambda>s. cpu_totals (fst s) @ [cpu_ctxt (fst s)]"
  "\<lambda>s. cpu_totals_last (fst s) @ [cpu_ctxt_last (fst s)]" "\<lambda>s. cpu_fp (fst s) \<noteq> None" for p env
proof unfold_locales
  fix s w s' w'
  assume o: "cpu_fp (fst s) \<noteq> None" and u: "cpu_update p env (s, w) = (Ok (), (s', w'))"
  from cpu_pass_Ok [of p env s w s' w'] u o
  show "cpu_totals_last (fst s') @ [cpu_ctxt_last (fst s')] = cpu_totals (fst s) @ [cpu_ctxt (fst s)] \<and>
      cpu_fp (fst s') \<noteq> None"
    by (simp add: cpu_update_opened)
qed

section \<open>Properties of the sampler\<close>

text \<open>
  The reported CPU times and context switches telescope: over any sequence of successful updates of
  an opened sampler, the sum of the differences of one counter is its growth, modulo \<open>2^64\<close>.
\<close>

theorem cpu_deltas_telescope:
  assumes "update_chain (cpu_update p env) c ds" "cpu_fp (fst (fst c)) \<noteq> None" "i \<le> 10"
    and "wf_cpu (fst (fst c))"
  shows "(\<Sum>d\<leftarrow>ds. (cpu_totals (fst (fst d)) @ [cpu_ctxt (fst (fst d))]) ! i
           - (cpu_totals_last (fst (fst d)) @ [cpu_ctxt_last (fst (fst d))]) ! i)
    = (cpu_totals (fst (fst (last (c # ds)))) @ [cpu_ctxt (fst (fst (last (c # ds))))]) ! i
      - (cpu_totals (fst (fst c)) @ [cpu_ctxt (fst (fst c))]) ! i"
  by (rule cpu.deltas_telescope [OF assms(1,2)])

definition demo_stat_text :: string where
  "demo_stat_text = ''cpu  1 2 3 4 5 6 7 8 9 10'' @ [CHR 0x0A] @ ''ctxt 77'' @ [CHR 0x0A]"

definition demo_cpu :: CpuStat where
  "demo_cpu = CpuStat_new\<lparr>cpu_fp := Some (File ''/proc/stat''), ms_per_clk := 10\<rparr>"

theorem cpu_deltas_telescope_witness:
  "\<exists>d. update_chain (cpu_update Dev (static_os (\<lambda>_. demo_stat_text) (\<lambda>_. False))) ((demo_cpu, []), start_world) [d] \<and>
     (cpu_totals (fst (fst d)) @ [cpu_ctxt (fst (fst d))]) ! 10
       - (cpu_totals_last (fst (fst d)) @ [cpu_ctxt_last (fst (fst d))]) ! 10 = 77"
proof -
  let ?env = "static_os (\<lambda>_. demo_stat_text) (\<lambda>_. False)"
  let ?c = "((demo_cpu, []), start_world)"
  have run: "fst (cpu_update Dev ?env ?c) = Ok ()" by code_simp
  have grown: "cpu_ctxt (fst (fst (snd (cpu_update Dev ?env ?c)))) = 77"
    "length (cpu_totals (fst (fst (snd (cpu_update Dev ?env ?c))))) = 10" by code_simp+
  obtain d where d: "cpu_update Dev ?env ?c = (Ok (), d)" using run by (metis prod.collapse)
  then have chain: "update_chain (cpu_update Dev ?env) ?c [d]" by simp
  have open_file: "cpu_fp (fst (fst ?c)) \<noteq> None" "(10 :: nat) \<le> 10" "wf_cpu (fst (fst ?c))"
    by (simp_all add: demo_cpu_def wf_cpu_def CpuStat_new_def)
  from cpu_deltas_telescope [OF chain open_file] grown d show ?thesis
    using chain by (auto simp: demo_cpu_def CpuStat_new_def nth_append)
qed

text \<open>
  What the monitor reports as a signed difference is the true difference even where a kernel
  counter went backwards, as long as it moved by less than \<open>2^63\<close>, in the release profile; with overflow
  checks the reading panics exactly when some counter went backwards.
\<close>

lemma sint_sub_uint:
  assumes "\<bar>uint (a :: u64) - uint b\<bar> < 2 ^ 63"
  shows "sint (a - b) = uint a - uint b"
proof -
  have "a - b = word_of_int (uint a - uint b)" by simp
  then have "sint (a - b) = signed_take_bit 63 (uint a - uint b)"
    using sint_sbintrunc' [where 'a = 64, of "uint a - uint b"] by simp
  also have "\<dots> = uint a - uint b"
    using assms by (intro signed_take_bit_int_eq_self) auto
  finally show ?thesis .
qed

lemma deltas_dev_panics:
  "length now = length old \<Longrightarrow>
   (\<exists>ds. deltas Dev now old = Ok ds) \<or> deltas Dev now old = Panic Overflow"
  by (induction now old rule: list_induct2) (auto simp: deltas_def usub_def arith_res_def)

theorem reported_deltas:
  assumes "length now = length old"
  shows "(\<exists>ds. deltas Release now old = Ok ds \<and> length ds = length now \<and>
       (\<forall>i < length now. \<bar>uint (now ! i) - uint (old ! i)\<bar> < 2 ^ 63 \<longrightarrow>
          sint (ds ! i) = uint (now ! i) - uint (old ! i))) \<and>
     (deltas Dev now old = Panic Overflow \<longleftrightarrow> (\<exists>i < length now. now ! i < old ! i))"
proof
  have "deltas Release now old = Ok (map (\<lambda>(a, b). a - b) (zip now old))"
    by (auto simp: deltas_def omap_Ok)
  moreover have "sint (map (\<lambda>(a, b). a - b) (zip now old) ! i) = uint (now ! i) - uint (old ! i)"
    if "i < length now" "\<bar>uint (now ! i) - uint (old ! i)\<bar> < 2 ^ 63" for i
    using that assms sint_sub_uint by simp
  ultimately show "\<exists>ds. deltas Release now old = Ok ds \<and> length ds = length now \<and>
       (\<forall>i < length now. \<bar>uint (now ! i) - uint (old ! i)\<bar> < 2 ^ 63 \<longrightarrow>
          sint (ds ! i) = uint (now ! i) - uint (old ! i))"
    using assms by auto
next
  have "(\<exists>ds. deltas Dev now old = Ok ds) \<longleftrightarrow> (\<forall>i < length now. \<not> now ! i < old ! i)"
  proof
    assume "\<exists>ds. deltas Dev now old = Ok ds"
    then show "\<forall>i < length now. \<not> now ! i < old ! i"
      using assms by (auto simp: deltas_def omap_Ok usub_def arith_res_def word_less_def split: if_splits)
  next
    assume *: "\<forall>i < length now. \<not> now ! i < old ! i"
    then have "deltas Dev now old = Ok (map (\<lambda>(a, b). a - b) (zip now old))"
      using assms by (auto simp: deltas_def omap_Ok usub_def arith_res_def word_less_def)
    then show "\<exists>ds. deltas Dev now old = Ok ds" ..
  qed
  then show "deltas Dev now old = Panic Overflow \<longleftrightarrow> (\<exists>i < length now. now ! i < old ! i)"
    using deltas_dev_panics [OF assms] by auto
qed

theorem reported_deltas_witness:
  "length [5 :: u64] = length [7 :: u64] \<and> deltas Dev [5] [7] = Panic Overflow \<and>
   (\<exists>ds. deltas Release [5] [7] = Ok ds)"
proof -
  have h: "length [5 :: u64] = length [7 :: u64]" by simp
  have "\<exists>i < length [5 :: u64]. [5 :: u64] ! i < [7] ! i" by simp
  with reported_deltas [OF h] h show ?thesis by blast
qed

text \<open>The lines of \<open>/proc/stat\<close> that the sampler uses, as the kernel prints them.\<close>

definition stat_cpu_text :: "u64 list \<Rightarrow> string" where
  "stat_cpu_text vals = ''cpu'' @ replicate 2 (CHR 0x20) @ join_with (CHR 0x20) (map show_u64 vals)"

definition stat_lines :: "u64 list \<Rightarrow> u64 \<Rightarrow> u64 \<Rightarrow> u64 \<Rightarrow> string list" where
  "stat_lines vals ctxt running blocked =
     [stat_cpu_text vals, ''ctxt '' @ show_u64 ctxt, ''procs_running '' @ show_u64 running,
      ''procs_blocked '' @ show_u64 blocked]"

lemma stat_cpu_words: "split_whitespace (stat_cpu_text vals) = ''cpu'' # map show_u64 vals"
proof -
  have "split_whitespace (join_with (CHR 0x20) (map show_u64 vals)) = map show_u64 vals"
    by (rule split_whitespace_words) (auto simp: u64_text.show_not_Nil u64_text.show_plain)
  moreover have "plain_char c" if "c \<in> set ''cpu''" for c
    using that by (auto simp: plain_char_def ascii_white_def)
  ultimately show ?thesis
    unfolding stat_cpu_text_def
    using split_whitespace_after_word [of "''cpu''" 1] by (simp add: numeral_2_eq_2)
qed

lemma cpu_fields_store:
  assumes "\<forall>v \<in> set vals. umul p v (ms_per_clk s) = Ok (v * ms_per_clk s)"
    and "k + length vals \<le> length (cpu_totals s)"
  shows "for_each (cpu_field p) (zip [k..<k + length vals] (map show_u64 vals)) s =
    (Ok (), s\<lparr>cpu_totals := take k (cpu_totals s) @ map (\<lambda>v. v * ms_per_clk s) vals
        @ drop (k + length vals) (cpu_totals s)\<rparr>)"
  using assms
proof (induction vals arbitrary: k s)
  case Nil
  then show ?case by (simp add: ret_def)
next
  case (Cons v vals)
  let ?s = "s\<lparr>cpu_totals := (cpu_totals s)[k := v * ms_per_clk s]\<rparr>"
  have step: "cpu_field p (k, show_u64 v) s = (Ok (), ?s)"
    using Cons.prems(1) by (simp add: cpu_field_def bind_def modify_def u64_text.parse_show lift_o_def)
  have IH: "for_each (cpu_field p) (zip [Suc k..<Suc k + length vals] (map show_u64 vals)) ?s =
    (Ok (), ?s\<lparr>cpu_totals := take (Suc k) (cpu_totals ?s) @ map (\<lambda>v. v * ms_per_clk ?s) vals
        @ drop (Suc k + length vals) (cpu_totals ?s)\<rparr>)"
    by (rule Cons.IH) (use Cons.prems in auto)
  have "[k..<k + length (v # vals)] = k # [Suc k..<Suc k + length vals]"
    by (simp add: upt_rec)
  then have "for_each (cpu_field p) (zip [k..<k + length (v # vals)] (map show_u64 (v # vals))) s =
      for_each (cpu_field p) (zip [Suc k..<Suc k + length vals] (map show_u64 vals)) ?s"
    using step by (simp add: seq_def bind_def)
  then show ?case
    using IH Cons.prems(2) by (simp add: take_Suc_conv_app_nth drop_update_cancel)
qed



end
