(* ===== verification/Io_Stat.thy ===== *)
theory Io_Stat
  imports Cpu_Stat
begin

text \<open>
  The disk sampler, \<^verbatim>\<open>statmon/src/iostat.rs\<close>: the eight I/O counters of \<open>/proc/diskstats\<close>. The device
  filter is a set of regular expressions; their matcher belongs to the \<open>regex\<close> crate and is a parameter.
\<close>

datatype IoTotals =
  ReadsCompleted | ReadsMerged | SectorsRead | MsReading |
  WritesCompleted | WritesMerged | SectorsWritten | MsWriting

fun io_index :: "IoTotals \<Rightarrow> nat" where
  "io_index ReadsCompleted = 0"
| "io_index ReadsMerged = 1"
| "io_index SectorsRead = 2"
| "io_index MsReading = 3"
| "io_index WritesCompleted = 4"
| "io_index WritesMerged = 5"
| "io_index SectorsWritten = 6"
| "io_index MsWriting = 7"

record IoStat =
  io_fp :: "File option"
  io_totals :: "u64 list"
  io_totals_last :: "u64 list"
  io_ignore_set :: "string list"

definition IoStat_new :: IoStat where
  "IoStat_new = \<lparr>io_fp = None, io_totals = replicate 8 0, io_totals_last = replicate 8 0,
     io_ignore_set = [''^loop'', ''^sd[a-z]'' @ [CHR 0x5C] @ ''d+'',
       ''^nvme'' @ [CHR 0x5C] @ ''d+n'' @ [CHR 0x5C] @ ''d+p'']\<rparr>"

definition io_field :: "nat \<times> string \<Rightarrow> (IoStat, unit) rust" where
  "io_field f =
    bind (lift_o (parse_u64 (snd f))) (\<lambda>val.
    modify (\<lambda>s. s\<lparr>io_totals := (io_totals s)[fst f := val]\<rparr>))"

text \<open>The fields of a device line that is not skipped: what follows the two numbers and the name.\<close>

definition io_device_fields :: "os \<Rightarrow> string list \<Rightarrow> string \<Rightarrow> string list option" where
  "io_device_fields env ignore_set line =
    (let fs = split_ascii_whitespace line;
         devname = (case nth_opt fs 2 of None \<Rightarrow> [] | Some d \<Rightarrow> d) in
     if devname = [] \<or> regex_matches env ignore_set devname then None else Some (drop 3 fs))"

definition io_line :: "os \<Rightarrow> string \<Rightarrow> (IoStat, unit) rust" where
  "io_line env line =
    bind (gets io_ignore_set) (\<lambda>ig.
    case io_device_fields env ig line of
      None \<Rightarrow> ret ()
    | Some fs \<Rightarrow> for_each io_field (zip [0..<8] fs))"

definition io_pass :: "os \<Rightarrow> (IoStat \<times> string, unit) sys" where
  "io_pass env =
    bind (get_state (\<lambda>s. io_fp (fst s))) (\<lambda>f.
    bind (lift_o (unwrap_opt f)) (\<lambda>fp.
    seq (on_state (apfst (\<lambda>s. s\<lparr>io_totals_last := io_totals s\<rparr>))) (
    bind (reread env fp put_buf) (\<lambda>b.
    pure_within fst (\<lambda>c s. (c, snd s)) (for_each (io_line env) (trimmed_lines b))))))"

text \<open>As for the CPU sampler, the inner call of the first update is one pass.\<close>

definition io_update :: "os \<Rightarrow> (IoStat \<times> string, unit) sys" where
  "io_update env =
    bind (get_state (\<lambda>s. io_fp (fst s))) (\<lambda>f.
    seq
      (if f = None then
         bind (sys_open env ''/proc/diskstats'') (\<lambda>fp.
         seq (on_state (apfst (\<lambda>s. s\<lparr>io_fp := Some fp\<rparr>)))
         (io_pass env))
       else ret ())
      (io_pass env))"

definition io_totals_ms :: "profile \<Rightarrow> IoStat \<Rightarrow> u64 list outcome" where
  "io_totals_ms p s = deltas p (io_totals s) (io_totals_last s)"

section \<open>Well-formedness and the sampler contract\<close>

definition wf_io :: "IoStat \<Rightarrow> bool" where
  "wf_io s \<longleftrightarrow> length (io_totals s) = 8 \<and> length (io_totals_last s) = 8"

lemma wf_io_new: "wf_io IoStat_new"
  by (simp add: wf_io_def IoStat_new_def)

lemma io_field_pres:
  "pres (\<lambda>s. io_fp s = f \<and> io_totals_last s = l \<and> io_ignore_set s = g \<and> length (io_totals s) = n) (io_field x)"
  unfolding io_field_def by (intro rust_pres pres_modify) simp

lemma io_line_pres:
  "pres (\<lambda>s. io_fp s = f \<and> io_totals_last s = l \<and> io_ignore_set s = g \<and> length (io_totals s) = n) (io_line env line)"
  unfolding io_line_def by (auto intro!: rust_pres io_field_pres split: option.splits)

lemma io_lines_pres:
  "pres (\<lambda>s. io_fp s = f \<and> io_totals_last s = l \<and> io_ignore_set s = g \<and> length (io_totals s) = n)
     (for_each (io_line env) ls)"
  by (rule pres_for_each, rule io_line_pres)

lemma io_lines_wf: "pres wf_io (for_each (io_line env) ls)"
proof (rule presI)
  fix s
  assume "wf_io s"
  then show "wf_io (snd (for_each (io_line env) ls s))"
    using presD [OF io_lines_pres [of "io_fp s" "io_totals_last s" "io_ignore_set s" 8 env ls], of s]
    by (simp add: wf_io_def)
qed

lemma io_pass_keeps: "keeps (\<lambda>s. wf_io (fst s)) (io_pass env)"
  unfolding io_pass_def
  by (intro keeps_rules keeps_on_state keeps_reread keeps_pure_within [OF io_lines_wf])
    (auto simp: wf_io_def put_buf_def)

lemma io_update_keeps: "keeps (\<lambda>s. wf_io (fst s)) (io_update env)"
  unfolding io_update_def
  by (intro keeps_rules keeps_on_state io_pass_keeps) (auto simp: wf_io_def)

lemma io_pass_Ok:
  assumes "io_pass env (s, w) = (Ok (), (s', w'))"
  shows "io_totals_last (fst s') = io_totals (fst s) \<and> io_fp (fst s') = io_fp (fst s) \<and> io_fp (fst s) \<noteq> None"
proof -
  from assms obtain fp b c where fp: "io_fp (fst s) = Some fp"
    and c: "for_each (io_line env) (trimmed_lines b) ((fst s)\<lparr>io_totals_last := io_totals (fst s)\<rparr>) = (Ok (), c)"
    and s': "fst s' = c"
    by (cases s) (auto simp: io_pass_def bind_eq_Ok seq_eq_Ok reread_Ok pure_within_Ok unwrap_opt_def
        put_buf_def split: option.splits)
  show ?thesis
    using presE [OF io_lines_pres [of "io_fp (fst s)" "io_totals (fst s)" "io_ignore_set (fst s)"
        "length (io_totals (fst s))" env "trimmed_lines b"] c] fp s'
    by simp
qed

lemma io_update_opened: "io_fp (fst s) \<noteq> None \<Longrightarrow> io_update env (s, w) = io_pass env (s, w)"
  by (auto simp: io_update_def bind_def seq_def get_state_def gets_def ret_def
      split: prod.splits outcome.splits)

interpretation io: delta_sampler "io_update env" "\<lambda>s. io_totals (fst s)" "\<lambda>s. io_totals_last (fst s)"
  "\<lambda>s. io_fp (fst s) \<noteq> None" for env
proof unfold_locales
  fix s w s' w'
  assume "io_fp (fst s) \<noteq> None" "io_update env (s, w) = (Ok (), (s', w'))"
  with io_pass_Ok [of env s w s' w'] show "io_totals_last (fst s') = io_totals (fst s) \<and> io_fp (fst s') \<noteq> None"
    by (simp add: io_update_opened)
qed

section \<open>The device filter\<close>

text \<open>
  What the documentation of the \<open>regex\<close> crate says of the three patterns: an anchored literal, and
  runs of decimal digits.
\<close>

definition digit_char_p :: "char \<Rightarrow> bool" where
  "digit_char_p c \<longleftrightarrow> c \<in> set ''0123456789''"

definition after_digits :: "string \<Rightarrow> string option" where
  "after_digits s = (if s \<noteq> [] \<and> digit_char_p (hd s) then Some (dropWhile digit_char_p s) else None)"

definition ignored_device :: "string \<Rightarrow> bool" where
  "ignored_device s \<longleftrightarrow>
     starts_with ''loop'' s \<or>
     (case strip_prefix ''sd'' s of
        Some (c # r) \<Rightarrow> c \<in> set ''abcdefghijklmnopqrstuvwxyz'' \<and> after_digits r \<noteq> None
      | _ \<Rightarrow> False) \<or>
     (case Option.bind (strip_prefix ''nvme'' s) after_digits of
        None \<Rightarrow> False
      | Some r \<Rightarrow>
          (case Option.bind (strip_prefix ''n'' r) after_digits of
             None \<Rightarrow> False
           | Some r' \<Rightarrow> starts_with ''p'' r'))"

text \<open>
  The filter keeps whole disks and drops loop devices and partitions, for every matcher that
  follows the documented meaning of the three patterns: the assertions of the unit test of the source
  hold.
\<close>

theorem ignore_set_filters_partitions:
  assumes "\<And>d. regex_matches env (io_ignore_set IoStat_new) d = ignored_device d"
  shows "list_all (regex_matches env (io_ignore_set IoStat_new)) [''loop123'', ''sda1'', ''nvme0n0p0''] \<and>
    list_all (\<lambda>d. \<not> regex_matches env (io_ignore_set IoStat_new) d) [''sda'', ''nvme0n0'', ''md100'']"
  unfolding assms by code_simp

theorem ignore_set_filters_partitions_witness:
  "regex_matches (static_os (\<lambda>_. []) ignored_device) (io_ignore_set IoStat_new) ''sda1''"
  using ignore_set_filters_partitions [of "static_os (\<lambda>_. []) ignored_device"]
  by (simp add: static_os_def)

section \<open>The last disk wins\<close>

lemma io_fields_store:
  assumes "list_all2 (\<lambda>f v. parse_u64 f = Ok v) fs vals" "k + length fs \<le> length (io_totals s)"
  shows "for_each io_field (zip [k..<k + length fs] fs) s =
    (Ok (), s\<lparr>io_totals := take k (io_totals s) @ vals @ drop (k + length fs) (io_totals s)\<rparr>)"
  using assms
proof (induction fs vals arbitrary: k s rule: list_all2_induct)
  case Nil
  then show ?case by (simp add: ret_def)
next
  case (Cons f fs v vals)
  let ?s = "s\<lparr>io_totals := (io_totals s)[k := v]\<rparr>"
  have step: "io_field (k, f) s = (Ok (), ?s)"
    using Cons.hyps(1) by (simp add: io_field_def bind_def modify_def lift_o_def)
  have IH: "for_each io_field (zip [Suc k..<Suc k + length fs] fs) ?s =
    (Ok (), ?s\<lparr>io_totals := take (Suc k) (io_totals ?s) @ vals @ drop (Suc k + length fs) (io_totals ?s)\<rparr>)"
    by (rule Cons.IH) (use Cons.prems in auto)
  have "[k..<k + length (f # fs)] = k # [Suc k..<Suc k + length fs]"
    by (simp add: upt_rec)
  then have "for_each io_field (zip [k..<k + length (f # fs)] (f # fs)) s =
      for_each io_field (zip [Suc k..<Suc k + length fs] fs) ?s"
    using step by (simp add: seq_def bind_def)
  then show ?case
    using IH Cons.prems by (simp add: take_Suc_conv_app_nth drop_update_cancel)
qed

lemma io_line_skipped: "io_device_fields env (io_ignore_set s) l = None \<Longrightarrow> io_line env l s = (Ok (), s)"
  by (simp add: io_line_def bind_def gets_def ret_def)

lemma io_lines_skipped:
  "list_all (\<lambda>l. io_device_fields env (io_ignore_set s) l = None) ls \<Longrightarrow> for_each (io_line env) ls s = (Ok (), s)"
  by (induction ls) (simp_all add: seq_def bind_def io_line_skipped ret_def)

lemma io_line_device:
  assumes "io_device_fields env (io_ignore_set s) l = Some fs"
    and "list_all2 (\<lambda>f v. parse_u64 f = Ok v) (take 8 fs) vals" "length vals = 8" "length (io_totals s) = 8"
  shows "io_line env l s = (Ok (), s\<lparr>io_totals := vals\<rparr>)"
proof -
  have len: "length (take 8 fs) = 8" using assms(2,3) by (metis list_all2_lengthD)
  have "zip [0..<8] fs = zip [0..<0 + length (take 8 fs)] (take 8 fs)"
    using len take_zip [of 8 "[0..<8]" fs] by simp
  then have "for_each io_field (zip [0..<8] fs) s = (Ok (), s\<lparr>io_totals := vals\<rparr>)"
    using io_fields_store [OF assms(2), of 0 s] assms(4) len by simp
  with assms(1) show ?thesis by (simp add: io_line_def bind_def gets_def)
qed

text \<open>
  C39. The counters are those of the last device that is not filtered out, not the totals over all
  devices: after a pass over lines whose last unfiltered device shows the eight values \<open>vals\<close>, the
  sampler holds exactly \<open>vals\<close>, whatever the devices before it show.
\<close>

theorem io_totals_are_last_disk:
  assumes "for_each (io_line env) front s = (Ok (), s1)" "wf_io s"
    and "io_device_fields env (io_ignore_set s) l = Some fs"
    and "list_all2 (\<lambda>f v. parse_u64 f = Ok v) (take 8 fs) vals" "length vals = 8"
    and "list_all (\<lambda>l. io_device_fields env (io_ignore_set s) l = None) rest"
  shows "for_each (io_line env) (front @ l # rest) s = (Ok (), s1\<lparr>io_totals := vals\<rparr>)"
proof -
  have s1: "io_ignore_set s1 = io_ignore_set s" "length (io_totals s1) = 8"
    using presE [OF io_lines_pres [of "io_fp s" "io_totals_last s" "io_ignore_set s" 8 env front] assms(1)]
      assms(2) by (simp_all add: wf_io_def)
  have "io_line env l s1 = (Ok (), s1\<lparr>io_totals := vals\<rparr>)"
    using assms(3-5) s1 by (intro io_line_device) simp_all
  moreover have "for_each (io_line env) rest (s1\<lparr>io_totals := vals\<rparr>) = (Ok (), s1\<lparr>io_totals := vals\<rparr>)"
    using assms(6) s1(1) by (intro io_lines_skipped) simp
  ultimately show ?thesis
    using assms(1) by (simp add: for_each_append seq_def bind_def)
qed

definition two_disks :: "string list" where
  "two_disks = [''8 0 sda 1 2 3 4 5 6 7 8 0'', ''8 1 sda1 9 9 9 9 9 9 9 9 0'']"

theorem io_totals_are_last_disk_witness:
  "for_each (io_line (static_os (\<lambda>_. []) ignored_device)) ([''9 0 sdb 70 70 70 70 70 70 70 70 0''] @ two_disks)
     IoStat_new = (Ok (), IoStat_new\<lparr>io_totals := [1, 2, 3, 4, 5, 6, 7, 8]\<rparr>)"
proof -
  let ?env = "static_os (\<lambda>_. []) ignored_device"
  let ?fs = "[''1'', ''2'', ''3'', ''4'', ''5'', ''6'', ''7'', ''8'', ''0'']"
  have one: "for_each (io_line ?env) [''9 0 sdb 70 70 70 70 70 70 70 70 0''] IoStat_new =
      (Ok (), IoStat_new\<lparr>io_totals := replicate 8 70\<rparr>)" by code_simp
  have dev: "io_device_fields ?env (io_ignore_set IoStat_new) ''8 0 sda 1 2 3 4 5 6 7 8 0'' = Some ?fs"
    by code_simp
  have nums: "list_all2 (\<lambda>f v. parse_u64 f = Ok v) (take 8 ?fs) [1, 2, 3, 4, 5, 6, 7, 8]" by code_simp
  have skip: "list_all (\<lambda>l. io_device_fields ?env (io_ignore_set IoStat_new) l = None)
      [''8 1 sda1 9 9 9 9 9 9 9 9 0'']" by code_simp
  have len: "length [1, 2, 3, 4, 5, 6, 7, 8 :: u64] = 8" by simp
  from io_totals_are_last_disk [OF one wf_io_new dev nums len skip] show ?thesis
    by (simp add: two_disks_def)
qed
end
