(* ===== verification/Stat_Value.thy ===== *)
theory Stat_Value
  imports Rust_F64
begin

text \<open>
  One statistic of the monitor (\<^verbatim>\<open>statmon/src/stats.rs\<close>, \<open>StatValue\<close> and \<open>Stat\<close>): the current value and
  the minimum, maximum, sum and count over a range of samples. The float printer is a parameter of the
  text forms: the standard library documents it as a shortest decimal that reads back, which leaves
  the digits of some values open.
\<close>

section \<open>Values\<close>

datatype StatValue = StatFloat f64 | StatInt i64

text \<open>The two setters replace the value whatever its kind was.\<close>

definition setf :: "StatValue \<Rightarrow> f64 \<Rightarrow> StatValue" where
  [simp]: "setf s v = StatFloat v"

definition seti :: "StatValue \<Rightarrow> i64 \<Rightarrow> StatValue" where
  [simp]: "seti s v = StatInt v"

fun valf :: "StatValue \<Rightarrow> f64" where
  "valf (StatFloat v) = v"
| "valf (StatInt v) = f_of_int (sint v)"

fun minval :: "StatValue \<Rightarrow> StatValue" where
  "minval (StatFloat v) = StatFloat f_MIN"
| "minval (StatInt v) = StatInt (word_of_int (- (2 ^ 63)))"

fun maxval :: "StatValue \<Rightarrow> StatValue" where
  "maxval (StatFloat v) = StatFloat f_MAX"
| "maxval (StatInt v) = StatInt (word_of_int (2 ^ 63 - 1))"

fun zeroval :: "StatValue \<Rightarrow> StatValue" where
  "zeroval (StatFloat v) = StatFloat (f_zero False)"
| "zeroval (StatInt v) = StatInt 0"

definition mismatch :: panic where
  "mismatch = Explicit ''Mismatched statistic types''"

fun set_min :: "StatValue \<Rightarrow> StatValue \<Rightarrow> StatValue outcome" where
  "set_min (StatFloat m) (StatFloat v) = Ok (setf (StatFloat m) (f_min m v))"
| "set_min (StatInt m) (StatInt v) = Ok (seti (StatInt m) (smin m v))"
| "set_min _ _ = Panic mismatch"

fun set_max :: "StatValue \<Rightarrow> StatValue \<Rightarrow> StatValue outcome" where
  "set_max (StatFloat m) (StatFloat v) = Ok (setf (StatFloat m) (f_max m v))"
| "set_max (StatInt m) (StatInt v) = Ok (seti (StatInt m) (smax m v))"
| "set_max _ _ = Panic mismatch"

fun set_add :: "profile \<Rightarrow> StatValue \<Rightarrow> StatValue \<Rightarrow> StatValue outcome" where
  "set_add p (StatFloat m) (StatFloat v) = Ok (setf (StatFloat m) (f_add m v))"
| "set_add p (StatInt m) (StatInt v) = obind (sadd p m v) (\<lambda>w. Ok (seti (StatInt m) w))"
| "set_add p _ _ = Panic mismatch"

fun show_stat_value :: "(f64 \<Rightarrow> string) \<Rightarrow> StatValue \<Rightarrow> string" where
  "show_stat_value fmt (StatFloat v) = fmt v"
| "show_stat_value fmt (StatInt v) = show_i64 v"

section \<open>Statistics\<close>

record Stat =
  stat_name :: string
  value_now :: StatValue
  value_min :: StatValue
  value_max :: StatValue
  value_sum :: StatValue
  value_cnt :: i64

definition Stat_int :: "string \<Rightarrow> Stat" where
  "Stat_int n = \<lparr>stat_name = n, value_now = StatInt 0, value_min = maxval (StatInt 0),
     value_max = minval (StatInt 0), value_sum = StatInt 0, value_cnt = 0\<rparr>"

definition Stat_float :: "string \<Rightarrow> Stat" where
  "Stat_float n = \<lparr>stat_name = n, value_now = StatFloat (f_zero False), value_min = maxval (StatFloat (f_zero False)),
     value_max = minval (StatFloat (f_zero False)), value_sum = StatFloat (f_zero False), value_cnt = 0\<rparr>"

definition stat_reset :: "Stat \<Rightarrow> Stat" where
  "stat_reset s = s\<lparr>value_min := maxval (value_now s), value_max := minval (value_now s),
     value_sum := zeroval (value_now s), value_cnt := 0\<rparr>"

definition update_aggregate :: "profile \<Rightarrow> (Stat, unit) rust" where
  "update_aggregate p =
    bind (\<lambda>s. (set_min (value_min s) (value_now s), s)) (\<lambda>v.
    seq (modify (\<lambda>s. s\<lparr>value_min := v\<rparr>)) (
    bind (\<lambda>s. (set_max (value_max s) (value_now s), s)) (\<lambda>v.
    seq (modify (\<lambda>s. s\<lparr>value_max := v\<rparr>)) (
    bind (\<lambda>s. (set_add p (value_sum s) (value_now s), s)) (\<lambda>v.
    seq (modify (\<lambda>s. s\<lparr>value_sum := v\<rparr>)) (
    bind (\<lambda>s. (sadd p (value_cnt s) 1, s)) (\<lambda>v.
    modify (\<lambda>s. s\<lparr>value_cnt := v\<rparr>))))))))"

section \<open>The two kinds never mix\<close>

fun is_float :: "StatValue \<Rightarrow> bool" where
  "is_float (StatFloat v) = True"
| "is_float (StatInt v) = False"

definition stat_kind :: "bool \<Rightarrow> Stat \<Rightarrow> bool" where
  "stat_kind k s \<longleftrightarrow> is_float (value_now s) = k \<and> is_float (value_min s) = k \<and>
     is_float (value_max s) = k \<and> is_float (value_sum s) = k"

lemma is_float_extremes [simp]:
  "is_float (minval v) = is_float v" "is_float (maxval v) = is_float v" "is_float (zeroval v) = is_float v"
  by (cases v; simp)+

lemma is_float_cases: "is_float v \<longleftrightarrow> (\<exists>x. v = StatFloat x)" "\<not> is_float v \<longleftrightarrow> (\<exists>x. v = StatInt x)"
  by (cases v; simp)+

lemma set_min_kind:
  "is_float a = is_float b \<Longrightarrow> \<exists>v. set_min a b = Ok v \<and> is_float v = is_float a"
  by (cases a; cases b) auto

lemma set_max_kind:
  "is_float a = is_float b \<Longrightarrow> \<exists>v. set_max a b = Ok v \<and> is_float v = is_float a"
  by (cases a; cases b) auto

lemma set_add_kind:
  "is_float a = is_float b \<Longrightarrow>
   (\<exists>v. set_add p a b = Ok v \<and> is_float v = is_float a) \<or> (set_add p a b = Panic Overflow \<and> p = Dev)"
  by (cases a; cases b) (auto simp: sadd_def arith_res_def)

lemma stat_kind_init [simp]: "stat_kind False (Stat_int n)" "stat_kind True (Stat_float n)"
  by (simp_all add: stat_kind_def Stat_int_def Stat_float_def)

lemma stat_kind_reset [simp]: "stat_kind k s \<Longrightarrow> stat_kind k (stat_reset s)"
  by (simp add: stat_kind_def stat_reset_def)

lemma stat_kind_now: "stat_kind k s \<Longrightarrow> is_float v = k \<Longrightarrow> stat_kind k (s\<lparr>value_now := v\<rparr>)"
  by (simp add: stat_kind_def)

text \<open>
  On a statistic of one kind the aggregation keeps the kind and the current value; it fails only by an
  overflow of the integer sum or of the count, and only where overflow checks are on.
\<close>

lemma update_aggregate_kind:
  assumes "stat_kind k s"
  shows "stat_kind k (snd (update_aggregate p s)) \<and>
    value_now (snd (update_aggregate p s)) = value_now s \<and>
    stat_name (snd (update_aggregate p s)) = stat_name s \<and>
    (fst (update_aggregate p s) = Ok () \<or> (fst (update_aggregate p s) = Panic Overflow \<and> p = Dev))"
proof -
  obtain a where a: "set_min (value_min s) (value_now s) = Ok a" "is_float a = k"
    using set_min_kind [of "value_min s" "value_now s"] assms by (auto simp: stat_kind_def)
  obtain b where b: "set_max (value_max s) (value_now s) = Ok b" "is_float b = k"
    using set_max_kind [of "value_max s" "value_now s"] assms by (auto simp: stat_kind_def)
  have c: "(\<exists>v. set_add p (value_sum s) (value_now s) = Ok v \<and> is_float v = k) \<or>
      (set_add p (value_sum s) (value_now s) = Panic Overflow \<and> p = Dev)"
    using set_add_kind [of "value_sum s" "value_now s" p] assms by (auto simp: stat_kind_def)
  have d: "sadd p (value_cnt s) 1 = Ok (value_cnt s + 1) \<or> (sadd p (value_cnt s) 1 = Panic Overflow \<and> p = Dev)"
    by (rule sadd_cases)
  show ?thesis
    using c d assms a b
    by (auto simp: update_aggregate_def bind_def seq_def modify_def stat_kind_def)
qed

lemma update_aggregate_pres: "pres (stat_kind k) (update_aggregate p)"
  by (rule presI) (simp add: update_aggregate_kind)

section \<open>Aggregation refines a list of samples\<close>

text \<open>The integer statistic that has seen exactly the samples \<open>xs\<close> since its last reset.\<close>

definition aggregates :: "i64 list \<Rightarrow> Stat \<Rightarrow> bool" where
  "aggregates xs s \<longleftrightarrow>
     value_min s = StatInt (fold (\<lambda>x m. smin m x) xs (word_of_int (2 ^ 63 - 1))) \<and>
     value_max s = StatInt (fold (\<lambda>x m. smax m x) xs (word_of_int (- (2 ^ 63)))) \<and>
     value_sum s = StatInt (sum_list xs) \<and> value_cnt s = of_nat (length xs)"

definition feed :: "profile \<Rightarrow> i64 \<Rightarrow> (Stat, unit) rust" where
  "feed p x = seq (modify (\<lambda>s. s\<lparr>value_now := StatInt x\<rparr>)) (update_aggregate p)"

text \<open>
  The refinement contract: a representation of the samples seen, established at the start and extended
  by every accepted sample.
\<close>

locale sample_store =
  fixes represents :: "'x list \<Rightarrow> 's \<Rightarrow> bool" and accept :: "'x \<Rightarrow> ('s, unit) rust"
  assumes accept_extends: "represents xs s \<Longrightarrow> accept x s = (Ok (), s') \<Longrightarrow> represents (xs @ [x]) s'"
begin

lemma accept_all:
  "represents xs s \<Longrightarrow> for_each accept ys s = (Ok (), s') \<Longrightarrow> represents (xs @ ys) s'"
proof (induction ys arbitrary: xs s)
  case Nil
  then show ?case by simp
next
  case (Cons y ys)
  from Cons.prems(2) obtain s1 where s1: "accept y s = (Ok (), s1)" "for_each accept ys s1 = (Ok (), s')"
    by (auto simp: seq_eq_Ok)
  then have "represents (xs @ [y]) s1" using accept_extends Cons.prems(1) by blast
  from Cons.IH [OF this s1(2)] show ?case by simp
qed

end

lemma aggregates_reset: "is_float (value_now s) = False \<Longrightarrow> aggregates [] (stat_reset s)"
  by (cases "value_now s") (auto simp: aggregates_def stat_reset_def)

lemma update_aggregate_extends:
  assumes "aggregates xs s" "value_now s = StatInt x" "update_aggregate p s = (Ok (), s')"
  shows "aggregates (xs @ [x]) s'"
  using assms
  by (auto simp: aggregates_def update_aggregate_def bind_def seq_def modify_def sadd_def arith_res_def
      add.commute split: if_splits)

interpretation samples: sample_store aggregates "feed p" for p
proof unfold_locales
  fix xs s x s'
  assume "aggregates xs s" "feed p x s = (Ok (), s')"
  then show "aggregates (xs @ [x]) s'"
    using update_aggregate_extends [of xs "s\<lparr>value_now := StatInt x\<rparr>" x p s']
    by (auto simp: feed_def seq_eq_Ok aggregates_def)
qed

section \<open>What a range reports\<close>

lemma fold_smin: "sint (fold (\<lambda>x m. smin m x) xs m) = fold min (map sint xs) (sint m)"
  by (induction xs arbitrary: m) (simp_all add: smin_sint min.commute)

lemma fold_smax: "sint (fold (\<lambda>x m. smax m x) xs m) = fold max (map sint xs) (sint m)"
  by (induction xs arbitrary: m) (simp_all add: smax_sint max.commute)

lemma Min_fold: "xs \<noteq> [] \<Longrightarrow> fold min (map sint xs) (2 ^ 63 - 1) = Min (sint ` set (xs :: i64 list))"
proof -
  assume "xs \<noteq> []"
  have "fold min (map sint xs) (2 ^ 63 - 1) = Min (set ((2 ^ 63 - 1) # map sint xs))"
    by (rule Min.set_eq_fold [symmetric])
  also have "\<dots> = min (2 ^ 63 - 1) (Min (sint ` set xs))"
    using \<open>xs \<noteq> []\<close> by simp
  also have "\<dots> = Min (sint ` set xs)"
  proof -
    obtain x where "x \<in> set xs" using \<open>xs \<noteq> []\<close> by (cases xs) auto
    then have "Min (sint ` set xs) \<le> sint x" by simp
    also have "\<dots> \<le> 2 ^ 63 - 1" using sint_range64 [of x] by simp
    finally show ?thesis by simp
  qed
  finally show ?thesis .
qed

lemma Max_fold: "xs \<noteq> [] \<Longrightarrow> fold max (map sint xs) (- (2 ^ 63)) = Max (sint ` set (xs :: i64 list))"
proof -
  assume "xs \<noteq> []"
  have "fold max (map sint xs) (- (2 ^ 63)) = Max (set ((- (2 ^ 63)) # map sint xs))"
    by (rule Max.set_eq_fold [symmetric])
  also have "\<dots> = max (- (2 ^ 63)) (Max (sint ` set xs))"
    using \<open>xs \<noteq> []\<close> by simp
  also have "\<dots> = Max (sint ` set xs)"
  proof -
    obtain x where "x \<in> set xs" using \<open>xs \<noteq> []\<close> by (cases xs) auto
    then have "sint x \<le> Max (sint ` set xs)" by simp
    moreover have "- (2 ^ 63) \<le> sint x" using sint_range64 [of x] by simp
    ultimately show ?thesis by simp
  qed
  finally show ?thesis .
qed

lemma aggregates_extremes:
  assumes "aggregates xs s" "xs \<noteq> []"
  shows "\<exists>lo hi. value_min s = StatInt lo \<and> sint lo = Min (sint ` set xs) \<and>
    value_max s = StatInt hi \<and> sint hi = Max (sint ` set xs)"
  using assms Min_fold [OF assms(2)] Max_fold [OF assms(2)]
  by (simp add: aggregates_def fold_smin fold_smax)

lemma fed_aggregates:
  assumes "\<not> is_float (value_now s)" "for_each (feed p) xs (stat_reset s) = (Ok (), s')"
  shows "aggregates xs s'"
  using samples.accept_all [OF aggregates_reset assms(2)] assms(1) by simp

text \<open>
  C22. Overflow of an aggregate: where overflow checks are on, an accepted range has a sum and a count
  that are exact, not only exact modulo \<open>2^64\<close>; in the release profile every sample is accepted.
\<close>

definition exact_sums :: "i64 list \<Rightarrow> Stat \<Rightarrow> bool" where
  "exact_sums xs s \<longleftrightarrow> (\<exists>t. value_sum s = StatInt t \<and> sint t = sum_list (map sint xs)) \<and>
     sint (value_cnt s) = int (length xs)"

interpretation dev_samples: sample_store exact_sums "feed Dev"
proof unfold_locales
  fix xs s x s'
  assume ex: "exact_sums xs s" and fd: "feed Dev x s = (Ok (), s')"
  from ex obtain t where t: "value_sum s = StatInt t" "sint t = sum_list (map sint xs)"
    and c: "sint (value_cnt s) = int (length xs)"
    by (auto simp: exact_sums_def)
  from fd t(1) have "value_sum s' = StatInt (t + x)" "sint (t + x) = sint t + sint x"
    "value_cnt s' = value_cnt s + 1" "sint (value_cnt s + 1) = sint (value_cnt s) + 1"
    by (auto simp: feed_def update_aggregate_def bind_def seq_def modify_def sadd_def arith_res_def
        split: if_splits outcome.splits)
  with t(2) c show "exact_sums (xs @ [x]) s'" by (simp add: exact_sums_def)
qed

lemma feed_release_ok: "stat_kind False s \<Longrightarrow> \<exists>s'. feed Release x s = (Ok (), s') \<and> stat_kind False s'"
  using update_aggregate_kind [of False "s\<lparr>value_now := StatInt x\<rparr>" Release]
  by (cases "update_aggregate Release (s\<lparr>value_now := StatInt x\<rparr>)")
    (auto simp: feed_def seq_def bind_def modify_def stat_kind_now)

lemma feed_all_release_ok: "stat_kind False s \<Longrightarrow> \<exists>s'. for_each (feed Release) xs s = (Ok (), s')"
proof (induction xs arbitrary: s)
  case Nil
  then show ?case by (simp add: ret_def)
next
  case (Cons x xs)
  then obtain s1 where "feed Release x s = (Ok (), s1)" "stat_kind False s1"
    using feed_release_ok by blast
  with Cons.IH [of s1] show ?case by (auto simp: seq_eq_Ok)
qed



end
