(* ===== verification/Which_Stat.thy ===== *)
theory Which_Stat
  imports Stat_Value
begin

text \<open>
  The index of the statistics table: the enum \<open>WhichStat\<close> of \<^verbatim>\<open>statmon/src/stats.rs\<close>, its position in
  the array (\<open>as usize\<close>), and the initial table \<open>STATS_INIT\<close>.
\<close>

datatype WhichStat =
    LoadAvg1min | MemTotal | MemAvailable | MemActive | MemInactive | MemAnonHugePages |
    CpumsUser | CpumsNice | CpumsSystem | CpumsIdle | CpumsIowait | CpumsIrq | CpumsSoftirq |
    EventCycles | EventInstructions | EventCacheAccesses | EventCacheMisses | EventBranches |
    EventBranchMisses | EventStalledFrontCycles | EventStalledBackCycles | EventRefCycles |
    EventPageFaults | EventPageFaultsMinor | EventPageFaultsMajor | EventCpuMigrations |
    EventL1DAccesses | EventL1DMisses | EventL1IAccesses | EventL1IMisses | EventDTLBAccesses |
    EventDTLBMisses | EventITLBAccesses | EventITLBMisses | ContextSwitches | ProcsRunning |
    ProcsBlocked | FaasmLocalSched | FaasmWaitingQueued | FaasmStarted | FaasmSuspended |
    FaasmActive | NetRxBytes | NetRxErrors | NetTxBytes | NetTxErrors | IoReadsCompleted |
    IoReadsMerged | IoSectorsRead | IoMsReading | IoWritesCompleted | IoWritesMerged |
    IoSectorsWritten | IoMsWriting | TotalStatCount

text \<open>All variants in declaration order; \<open>stat as usize\<close> is the position in it.\<close>

definition which_stats :: "WhichStat list" where
  "which_stats = [
    LoadAvg1min, MemTotal, MemAvailable, MemActive, MemInactive, MemAnonHugePages, CpumsUser,
    CpumsNice, CpumsSystem, CpumsIdle, CpumsIowait, CpumsIrq, CpumsSoftirq, EventCycles,
    EventInstructions, EventCacheAccesses, EventCacheMisses, EventBranches, EventBranchMisses,
    EventStalledFrontCycles, EventStalledBackCycles, EventRefCycles, EventPageFaults,
    EventPageFaultsMinor, EventPageFaultsMajor, EventCpuMigrations, EventL1DAccesses,
    EventL1DMisses, EventL1IAccesses, EventL1IMisses, EventDTLBAccesses, EventDTLBMisses,
    EventITLBAccesses, EventITLBMisses, ContextSwitches, ProcsRunning, ProcsBlocked,
    FaasmLocalSched, FaasmWaitingQueued, FaasmStarted, FaasmSuspended, FaasmActive, NetRxBytes,
    NetRxErrors, NetTxBytes, NetTxErrors, IoReadsCompleted, IoReadsMerged, IoSectorsRead,
    IoMsReading, IoWritesCompleted, IoWritesMerged, IoSectorsWritten, IoMsWriting,
    TotalStatCount]"

fun stat_index :: "WhichStat \<Rightarrow> nat" where
  "stat_index LoadAvg1min = 0"
| "stat_index MemTotal = 1"
| "stat_index MemAvailable = 2"
| "stat_index MemActive = 3"
| "stat_index MemInactive = 4"
| "stat_index MemAnonHugePages = 5"
| "stat_index CpumsUser = 6"
| "stat_index CpumsNice = 7"
| "stat_index CpumsSystem = 8"
| "stat_index CpumsIdle = 9"
| "stat_index CpumsIowait = 10"
| "stat_index CpumsIrq = 11"
| "stat_index CpumsSoftirq = 12"
| "stat_index EventCycles = 13"
| "stat_index EventInstructions = 14"
| "stat_index EventCacheAccesses = 15"
| "stat_index EventCacheMisses = 16"
| "stat_index EventBranches = 17"
| "stat_index EventBranchMisses = 18"
| "stat_index EventStalledFrontCycles = 19"
| "stat_index EventStalledBackCycles = 20"
| "stat_index EventRefCycles = 21"
| "stat_index EventPageFaults = 22"
| "stat_index EventPageFaultsMinor = 23"
| "stat_index EventPageFaultsMajor = 24"
| "stat_index EventCpuMigrations = 25"
| "stat_index EventL1DAccesses = 26"
| "stat_index EventL1DMisses = 27"
| "stat_index EventL1IAccesses = 28"
| "stat_index EventL1IMisses = 29"
| "stat_index EventDTLBAccesses = 30"
| "stat_index EventDTLBMisses = 31"
| "stat_index EventITLBAccesses = 32"
| "stat_index EventITLBMisses = 33"
| "stat_index ContextSwitches = 34"
| "stat_index ProcsRunning = 35"
| "stat_index ProcsBlocked = 36"
| "stat_index FaasmLocalSched = 37"
| "stat_index FaasmWaitingQueued = 38"
| "stat_index FaasmStarted = 39"
| "stat_index FaasmSuspended = 40"
| "stat_index FaasmActive = 41"
| "stat_index NetRxBytes = 42"
| "stat_index NetRxErrors = 43"
| "stat_index NetTxBytes = 44"
| "stat_index NetTxErrors = 45"
| "stat_index IoReadsCompleted = 46"
| "stat_index IoReadsMerged = 47"
| "stat_index IoSectorsRead = 48"
| "stat_index IoMsReading = 49"
| "stat_index IoWritesCompleted = 50"
| "stat_index IoWritesMerged = 51"
| "stat_index IoSectorsWritten = 52"
| "stat_index IoMsWriting = 53"
| "stat_index TotalStatCount = 54"

text \<open>The derived \<open>Debug\<close> form, which \<open>Display\<close> forwards to.\<close>

fun show_WhichStat :: "WhichStat \<Rightarrow> string" where
  "show_WhichStat LoadAvg1min = ''LoadAvg1min''"
| "show_WhichStat MemTotal = ''MemTotal''"
| "show_WhichStat MemAvailable = ''MemAvailable''"
| "show_WhichStat MemActive = ''MemActive''"
| "show_WhichStat MemInactive = ''MemInactive''"
| "show_WhichStat MemAnonHugePages = ''MemAnonHugePages''"
| "show_WhichStat CpumsUser = ''CpumsUser''"
| "show_WhichStat CpumsNice = ''CpumsNice''"
| "show_WhichStat CpumsSystem = ''CpumsSystem''"
| "show_WhichStat CpumsIdle = ''CpumsIdle''"
| "show_WhichStat CpumsIowait = ''CpumsIowait''"
| "show_WhichStat CpumsIrq = ''CpumsIrq''"
| "show_WhichStat CpumsSoftirq = ''CpumsSoftirq''"
| "show_WhichStat EventCycles = ''EventCycles''"
| "show_WhichStat EventInstructions = ''EventInstructions''"
| "show_WhichStat EventCacheAccesses = ''EventCacheAccesses''"
| "show_WhichStat EventCacheMisses = ''EventCacheMisses''"
| "show_WhichStat EventBranches = ''EventBranches''"
| "show_WhichStat EventBranchMisses = ''EventBranchMisses''"
| "show_WhichStat EventStalledFrontCycles = ''EventStalledFrontCycles''"
| "show_WhichStat EventStalledBackCycles = ''EventStalledBackCycles''"
| "show_WhichStat EventRefCycles = ''EventRefCycles''"
| "show_WhichStat EventPageFaults = ''EventPageFaults''"
| "show_WhichStat EventPageFaultsMinor = ''EventPageFaultsMinor''"
| "show_WhichStat EventPageFaultsMajor = ''EventPageFaultsMajor''"
| "show_WhichStat EventCpuMigrations = ''EventCpuMigrations''"
| "show_WhichStat EventL1DAccesses = ''EventL1DAccesses''"
| "show_WhichStat EventL1DMisses = ''EventL1DMisses''"
| "show_WhichStat EventL1IAccesses = ''EventL1IAccesses''"
| "show_WhichStat EventL1IMisses = ''EventL1IMisses''"
| "show_WhichStat EventDTLBAccesses = ''EventDTLBAccesses''"
| "show_WhichStat EventDTLBMisses = ''EventDTLBMisses''"
| "show_WhichStat EventITLBAccesses = ''EventITLBAccesses''"
| "show_WhichStat EventITLBMisses = ''EventITLBMisses''"
| "show_WhichStat ContextSwitches = ''ContextSwitches''"
| "show_WhichStat ProcsRunning = ''ProcsRunning''"
| "show_WhichStat ProcsBlocked = ''ProcsBlocked''"
| "show_WhichStat FaasmLocalSched = ''FaasmLocalSched''"
| "show_WhichStat FaasmWaitingQueued = ''FaasmWaitingQueued''"
| "show_WhichStat FaasmStarted = ''FaasmStarted''"
| "show_WhichStat FaasmSuspended = ''FaasmSuspended''"
| "show_WhichStat FaasmActive = ''FaasmActive''"
| "show_WhichStat NetRxBytes = ''NetRxBytes''"
| "show_WhichStat NetRxErrors = ''NetRxErrors''"
| "show_WhichStat NetTxBytes = ''NetTxBytes''"
| "show_WhichStat NetTxErrors = ''NetTxErrors''"
| "show_WhichStat IoReadsCompleted = ''IoReadsCompleted''"
| "show_WhichStat IoReadsMerged = ''IoReadsMerged''"
| "show_WhichStat IoSectorsRead = ''IoSectorsRead''"
| "show_WhichStat IoMsReading = ''IoMsReading''"
| "show_WhichStat IoWritesCompleted = ''IoWritesCompleted''"
| "show_WhichStat IoWritesMerged = ''IoWritesMerged''"
| "show_WhichStat IoSectorsWritten = ''IoSectorsWritten''"
| "show_WhichStat IoMsWriting = ''IoMsWriting''"
| "show_WhichStat TotalStatCount = ''TotalStatCount''"

definition STATS_INIT :: "Stat list" where
  "STATS_INIT = [
    Stat_float ''load_avg1'', Stat_int ''mem_total'', Stat_int ''mem_available'',
    Stat_int ''mem_active'', Stat_int ''mem_inactive'', Stat_int ''mem_anonhp'',
    Stat_int ''cpums_user'', Stat_int ''cpums_nice'', Stat_int ''cpums_system'',
    Stat_int ''cpums_idle'', Stat_int ''cpums_iowait'', Stat_int ''cpums_irq'',
    Stat_int ''cpums_softirq'', Stat_int ''event_cycles'', Stat_int ''event_instructions'',
    Stat_int ''event_cache_accesses'', Stat_int ''event_cache_misses'',
    Stat_int ''event_branches'', Stat_int ''event_branch_misses'',
    Stat_int ''event_stalled_front_cycles'', Stat_int ''event_stalled_back_cycles'',
    Stat_int ''event_ref_cycles'', Stat_int ''event_page_faults'',
    Stat_int ''event_page_faults_minor'', Stat_int ''event_page_faults_major'',
    Stat_int ''event_cpu_migrations'', Stat_int ''event_l1d_accesses'',
    Stat_int ''event_l1d_misses'', Stat_int ''event_l1i_accesses'',
    Stat_int ''event_l1i_misses'', Stat_int ''event_dtlb_accesses'',
    Stat_int ''event_dtlb_misses'', Stat_int ''event_itlb_accesses'',
    Stat_int ''event_itlb_misses'', Stat_int ''cswitches'', Stat_int ''procs_running'',
    Stat_int ''procs_blocked'', Stat_int ''faasm_local_sched'',
    Stat_int ''faasm_waiting_queued'', Stat_int ''faasm_started'',
    Stat_int ''faasm_suspended'', Stat_int ''faasm_Active'', Stat_int ''net_rx_bytes'',
    Stat_int ''net_rx_errors'', Stat_int ''net_tx_bytes'', Stat_int ''net_tx_errors'',
    Stat_int ''io_reads_completed'', Stat_int ''io_reads_merged'',
    Stat_int ''io_sectors_read'', Stat_int ''io_ms_reading'', Stat_int ''io_writes_completed'',
    Stat_int ''io_writes_merged'', Stat_int ''io_sectors_written'', Stat_int ''io_ms_writing'']"

section \<open>The enum enumerates the table\<close>

lemma which_stats_nth: "which_stats ! stat_index w = w"
  by (cases w) (simp_all add: which_stats_def)

lemma stat_index_inject: "stat_index v = stat_index w \<longleftrightarrow> v = w"
  by (metis which_stats_nth)

lemma stat_index_bound: "w \<noteq> TotalStatCount \<Longrightarrow> stat_index w < 54"
  by (cases w) simp_all

text \<open>The derived \<open>Ord\<close> compares declaration positions.\<close>

instantiation WhichStat :: linorder
begin

definition less_eq_WhichStat :: "WhichStat \<Rightarrow> WhichStat \<Rightarrow> bool" where
  "less_eq_WhichStat v w \<longleftrightarrow> stat_index v \<le> stat_index w"

definition less_WhichStat :: "WhichStat \<Rightarrow> WhichStat \<Rightarrow> bool" where
  "less_WhichStat v w \<longleftrightarrow> stat_index v < stat_index w"

instance
  by standard (auto simp: less_eq_WhichStat_def less_WhichStat_def stat_index_inject)

end

lemma length_STATS_INIT [simp]: "length STATS_INIT = 54"
  by (simp add: STATS_INIT_def)

section \<open>The table of statistics\<close>

text \<open>
  A well-formed table has one entry per variant but the last, the load average a float and every other
  statistic an integer.
\<close>

definition wf_table :: "Stat list \<Rightarrow> bool" where
  "wf_table st \<longleftrightarrow> length st = 54 \<and> (\<forall>i < 54. stat_kind (i = 0) (st ! i))"

definition set_now :: "WhichStat \<Rightarrow> StatValue \<Rightarrow> (Stat list, unit) rust" where
  "set_now w v st =
    (if stat_index w < length st
     then (Ok (), st[stat_index w := (st ! stat_index w)\<lparr>value_now := v\<rparr>])
     else (Panic IndexOutOfBounds, st))"

text \<open>\<open>stats.iter_mut().for_each(f)\<close> for a step that may panic: the entries before the panic are updated.\<close>

primrec each_stat :: "(Stat, unit) rust \<Rightarrow> (Stat list, unit) rust" where
  "each_stat f [] = (Ok (), [])"
| "each_stat f (s # ss) =
    (case f s of
       (Ok _, s') \<Rightarrow> (case each_stat f ss of (r, ss') \<Rightarrow> (r, s' # ss'))
     | (Err e, s') \<Rightarrow> (Err e, s' # ss)
     | (Panic q, s') \<Rightarrow> (Panic q, s' # ss))"

definition get_now :: "Stat list \<Rightarrow> WhichStat \<Rightarrow> StatValue" where
  "get_now st w = value_now (st ! stat_index w)"

lemma wf_table_init: "wf_table STATS_INIT"
proof -
  have "list_all (stat_kind False) (tl STATS_INIT)" "stat_kind True (STATS_INIT ! 0)"
    by (simp_all add: STATS_INIT_def)
  then have "stat_kind (i = 0) (STATS_INIT ! i)" if "i < 54" for i
    using that by (cases i) (auto simp: list_all_length nth_tl)
  then show ?thesis by (simp add: wf_table_def)
qed

lemma set_now_ok:
  assumes "wf_table st" "w \<noteq> TotalStatCount"
  shows "set_now w v st = (Ok (), st[stat_index w := (st ! stat_index w)\<lparr>value_now := v\<rparr>])"
  using assms stat_index_bound by (simp add: set_now_def wf_table_def)

lemma set_now_pres:
  assumes "is_float v \<longleftrightarrow> w = LoadAvg1min"
  shows "pres wf_table (set_now w v)"
proof (rule presI)
  fix st
  assume wf: "wf_table st"
  have k: "is_float v = (stat_index w = 0)"
    using stat_index_inject [of w LoadAvg1min] assms by simp
  have "stat_kind (stat_index w = 0) ((st ! stat_index w)\<lparr>value_now := v\<rparr>)" if "stat_index w < 54"
    using wf that k by (intro stat_kind_now) (auto simp: wf_table_def)
  with wf show "wf_table (snd (set_now w v st))"
    by (auto simp: set_now_def wf_table_def nth_list_update)
qed

lemma get_now_set_now:
  assumes "wf_table st" "w \<noteq> TotalStatCount" "u \<noteq> TotalStatCount"
  shows "get_now (snd (set_now w v st)) u = (if u = w then v else get_now st u)"
  using assms set_now_ok [OF assms(1,2)] stat_index_bound [OF assms(2)] stat_index_bound [OF assms(3)]
  by (auto simp: get_now_def wf_table_def nth_list_update stat_index_inject)

lemma each_stat_length [simp]: "length (snd (each_stat f st)) = length st"
  by (induction st) (auto split: prod.splits outcome.splits)

lemma each_stat_Ok:
  "each_stat f st = (Ok (), st') \<longleftrightarrow>
     length st' = length st \<and> (\<forall>i < length st. f (st ! i) = (Ok (), st' ! i))"
proof (induction st arbitrary: st')
  case Nil
  then show ?case by auto
next
  case (Cons s ss)
  show ?case
  proof (cases st')
    case Nil
    then show ?thesis by (auto split: prod.splits outcome.splits)
  next
    case (Cons t ts)
    then show ?thesis
      using Cons.IH [of ts] by (auto simp: All_less_Suc2 split: prod.splits outcome.splits)
  qed
qed

lemma each_stat_pres:
  assumes "\<And>i. i < length st \<Longrightarrow> Q i (st ! i) \<and> Q i (snd (f (st ! i)))"
  shows "\<forall>i < length st. Q i (snd (each_stat f st) ! i)"
  using assms
proof (induction st arbitrary: Q)
  case Nil
  then show ?case by simp
next
  case (Cons s ss)
  have IH: "\<forall>i < length ss. Q (Suc i) (snd (each_stat f ss) ! i)"
    by (rule Cons.IH) (use Cons.prems in force)
  have hd: "Q 0 (snd (f s))" and tl: "\<And>i. i < length ss \<Longrightarrow> Q (Suc i) (ss ! i)"
    using Cons.prems by force+
  show ?case
    using IH hd tl by (auto simp: All_less_Suc2 split: prod.splits outcome.splits)
qed

lemma each_stat_wf: "(\<And>k. pres (stat_kind k) f) \<Longrightarrow> pres wf_table (each_stat f)"
proof (rule presI)
  fix st
  assume f: "\<And>k. pres (stat_kind k) f" and wf: "wf_table st"
  have "\<forall>i < length st. stat_kind (i = 0) (snd (each_stat f st) ! i)"
    by (rule each_stat_pres) (use wf in \<open>auto simp: wf_table_def intro!: presD [OF f]\<close>)
  with wf show "wf_table (snd (each_stat f st))" by (simp add: wf_table_def)
qed

end
