(* ===== verification/Event_Stat.thy ===== *)
theory Event_Stat
  imports Os_Env Which_Stat
begin

text \<open>
  The hardware event counters, \<^verbatim>\<open>statmon/src/eventstat.rs\<close>: per statistic one performance counter per
  processor. The iteration order of the map of counters is the parameter \<open>order\<close>.
\<close>

record EventStat =
  events :: "(WhichStat, PerfCounter list) hashmap"

type_synonym event_order =
  "(WhichStat, PerfCounter list) hashmap \<Rightarrow> (WhichStat \<times> PerfCounter list) list"

definition event_table :: "(WhichStat \<times> PerfEvent) list" where
  "event_table =
    [(EventCycles, HwEvent CPUCycles),
     (EventInstructions, HwEvent Instructions),
     (EventCacheAccesses, HwEvent CacheReferences),
     (EventCacheMisses, HwEvent CacheMisses),
     (EventBranches, HwEvent BranchInstructions),
     (EventBranchMisses, HwEvent BranchMisses),
     (EventStalledFrontCycles, HwEvent StalledCyclesFrontend),
     (EventStalledBackCycles, HwEvent StalledCyclesBackend),
     (EventRefCycles, HwEvent RefCPUCycles),
     (EventPageFaults, SwEvent PageFaults),
     (EventPageFaultsMinor, SwEvent PageFaultsMaj),
     (EventPageFaultsMajor, SwEvent PageFaultsMin),
     (EventCpuMigrations, SwEvent CpuMigrations),
     (EventL1DAccesses, CacheEvent L1D OpRead Access),
     (EventL1DMisses, CacheEvent L1D OpRead Miss),
     (EventL1IAccesses, CacheEvent L1I OpRead Access),
     (EventL1IMisses, CacheEvent L1I OpRead Miss),
     (EventDTLBAccesses, CacheEvent DTLB OpRead Access),
     (EventDTLBMisses, CacheEvent DTLB OpRead Miss),
     (EventITLBAccesses, CacheEvent ITLB OpRead Access),
     (EventITLBMisses, CacheEvent ITLB OpRead Miss)]"

section \<open>Opening the counters\<close>

text \<open>
  \<open>for cpuid in 0..\<close>: the loop has no bound, it ends at the first processor whose counter cannot be
  built. \<open>None\<close> is a loop that never ends.
\<close>

partial_function (option) open_counters ::
  "os \<Rightarrow> PerfEvent \<Rightarrow> nat \<Rightarrow> PerfCounter list \<Rightarrow> world \<Rightarrow> (PerfCounter list \<times> world) option" where
  "open_counters env ev cpuid pcs w =
    (case pc_build env (clock w) ev cpuid of
       Inr pc \<Rightarrow> open_counters env ev (Suc cpuid) (pcs @ [pc]) (tick w)
     | Inl e \<Rightarrow> Some (pcs, tick w))"

definition with_event ::
  "os \<Rightarrow> WhichStat \<times> PerfEvent \<Rightarrow> EventStat \<times> world \<Rightarrow> (EventStat \<times> world) option" where
  "with_event env se c =
    (case open_counters env (snd se) 0 [] (snd c) of
       None \<Rightarrow> None
     | Some (pcs, w') \<Rightarrow>
         Some (if pcs = [] then fst c else (fst c)\<lparr>events := hm_insert (fst se) pcs (events (fst c))\<rparr>, w'))"

primrec with_events ::
  "os \<Rightarrow> (WhichStat \<times> PerfEvent) list \<Rightarrow> EventStat \<times> world \<Rightarrow> (EventStat \<times> world) option" where
  "with_events env [] c = Some c"
| "with_events env (se # ses) c = Option.bind (with_event env se c) (with_events env ses)"

definition EventStat_new :: "os \<Rightarrow> world \<Rightarrow> (EventStat \<times> world) option" where
  "EventStat_new env w = with_events env event_table (\<lparr>events = hm_empty\<rparr>, w)"

section \<open>Starting, stopping and reading\<close>

definition in_context :: "WhichStat \<Rightarrow> ('s, 'a) rust \<Rightarrow> ('s, 'a) rust" where
  "in_context stat m = adapt (with_context (show_WhichStat stat)) m"

definition event_loop ::
  "event_order \<Rightarrow> (WhichStat \<Rightarrow> PerfCounter list \<Rightarrow> (EventStat \<times> 's, unit) sys) \<Rightarrow> (EventStat \<times> 's, unit) sys" where
  "event_loop order body =
    bind (get_state (\<lambda>s. order (events (fst s)))) (\<lambda>es. for_each (\<lambda>e. body (fst e) (snd e)) es)"

definition start_events :: "os \<Rightarrow> event_order \<Rightarrow> (EventStat \<times> 's, unit) sys" where
  "start_events env order =
    event_loop order (\<lambda>stat cs. for_each (\<lambda>c.
      seq (in_context stat (unit_call (\<lambda>t. pc_reset env t c)))
        (in_context stat (unit_call (\<lambda>t. pc_start env t c)))) cs)"

definition stop_events :: "os \<Rightarrow> event_order \<Rightarrow> (EventStat \<times> 's, unit) sys" where
  "stop_events env order =
    event_loop order (\<lambda>stat cs. for_each (\<lambda>c. in_context stat (unit_call (\<lambda>t. pc_stop env t c))) cs)"

primrec sum_counters :: "profile \<Rightarrow> os \<Rightarrow> WhichStat \<Rightarrow> PerfCounter list \<Rightarrow> u64 \<Rightarrow> ('s, u64) sys" where
  "sum_counters p env stat [] val = ret val"
| "sum_counters p env stat (c # cs) val =
    bind (in_context stat (val_call (\<lambda>t. pc_read env t c))) (\<lambda>x.
    bind (lift_o (uadd p val x)) (\<lambda>val'.
    sum_counters p env stat cs val'))"

definition read_event :: "profile \<Rightarrow> os \<Rightarrow> WhichStat \<Rightarrow> PerfCounter list \<Rightarrow> (EventStat \<times> Stat list, unit) sys" where
  "read_event p env stat cs =
    bind (sum_counters p env stat cs 0) (\<lambda>val.
    pure_within snd (\<lambda>t s. (fst s, t)) (set_now stat (StatInt val)))"

definition update_events :: "profile \<Rightarrow> os \<Rightarrow> event_order \<Rightarrow> (EventStat \<times> Stat list, unit) sys" where
  "update_events p env order = event_loop order (read_event p env)"

section \<open>Invariants\<close>

text \<open>Every counted statistic is one of the table of events, and is counted once.\<close>

definition wf_events :: "EventStat \<Rightarrow> bool" where
  "wf_events e \<longleftrightarrow> hm_inv (events e) \<and> fst ` set (events e) \<subseteq> set (map fst event_table)"

lemma event_stats_not_special:
  "stat \<in> set (map fst event_table) \<Longrightarrow> stat \<noteq> TotalStatCount \<and> stat \<noteq> LoadAvg1min"
  by (auto simp: event_table_def)

lemma hm_insert_keys: "fst ` set (hm_insert k v m) = insert k (fst ` set m)"
  unfolding hm_insert_def using dom_update [of k v m] by (simp add: dom_map_of_conv_image_fst)

lemma with_event_wf:
  assumes "with_event env se c = Some d" "fst se \<in> set (map fst event_table)" "wf_events (fst c)"
  shows "wf_events (fst d)"
proof -
  from assms(1) obtain pcs where
    "fst d = (if pcs = [] then fst c else (fst c)\<lparr>events := hm_insert (fst se) pcs (events (fst c))\<rparr>)"
    by (auto simp: with_event_def split: option.splits)
  with assms(2,3) show ?thesis
    by (cases "pcs = []") (simp_all add: wf_events_def hm.inv_insert hm_insert_keys)
qed

lemma with_events_wf:
  "with_events env ses c = Some d \<Longrightarrow> set ses \<subseteq> set event_table \<Longrightarrow> wf_events (fst c) \<Longrightarrow> wf_events (fst d)"
proof (induction ses arbitrary: c)
  case Nil
  then show ?case by simp
next
  case (Cons se ses)
  from Cons.prems(1) obtain c1 where c1: "with_event env se c = Some c1" "with_events env ses c1 = Some d"
    by (cases "with_event env se c") auto
  have "fst se \<in> set (map fst event_table)" using Cons.prems(2) by auto
  then have "wf_events (fst c1)" using with_event_wf [OF c1(1)] Cons.prems(3) by blast
  with Cons.IH [OF c1(2)] Cons.prems(2) show ?case by simp
qed

lemma EventStat_new_wf: "EventStat_new env w = Some (e, w') \<Longrightarrow> wf_events e"
  unfolding EventStat_new_def
  by (drule with_events_wf) (auto simp: wf_events_def hm.inv_empty, simp add: hm_empty_def)

lemma keeps_in_context: "keeps I m \<Longrightarrow> keeps I (in_context stat m)"
  unfolding in_context_def by (rule keeps_adapt)

lemma start_events_keeps: "keeps I (start_events env order)"
  unfolding start_events_def event_loop_def
  by (intro keeps_rules keeps_in_context)

lemma stop_events_keeps: "keeps I (stop_events env order)"
  unfolding stop_events_def event_loop_def
  by (intro keeps_rules keeps_in_context)

lemma sum_counters_keeps: "keeps I (sum_counters p env stat cs val)"
  by (induction cs arbitrary: val) (auto intro!: keeps_rules keeps_in_context)

lemma keeps_for_each_in:
  "(\<And>x. x \<in> set xs \<Longrightarrow> keeps I (f x)) \<Longrightarrow> keeps I (for_each f xs)"
  by (induction xs) (auto intro: keeps_rules)

lemma keeps_bind_get:
  assumes "\<And>s w. I s \<Longrightarrow> keeps I (f (g s))"
  shows "keeps I (bind (get_state g) f)"
  by (rule keepsI) (simp add: bind_def get_state_def gets_def keepsD [OF assms])

lemma iterates_set: "iterates order \<Longrightarrow> set (order m) = set m"
  by (metis iteratesD mset_eq_setD)

lemma update_events_keeps:
  assumes "iterates order"
  shows "keeps (\<lambda>s. wf_events (fst s) \<and> wf_table (snd s)) (update_events p env order)"
  unfolding update_events_def event_loop_def
proof (rule keeps_bind_get, rule keeps_for_each_in)
  fix s :: "EventStat \<times> Stat list" and x
  assume wf: "wf_events (fst s) \<and> wf_table (snd s)" and x: "x \<in> set (order (events (fst s)))"
  then have "fst x \<noteq> LoadAvg1min"
    using event_stats_not_special iterates_set [OF assms] by (force simp: wf_events_def)
  then have "pres wf_table (set_now (fst x) (StatInt v))" for v
    by (intro set_now_pres) simp
  then show "keeps (\<lambda>s. wf_events (fst s) \<and> wf_table (snd s))
      (read_event p env (fst x) (snd x))"
    unfolding read_event_def by (intro keeps_rules sum_counters_keeps keeps_pure_within) auto
qed

section \<open>Properties of the event counters\<close>

lemma open_counters_stops:
  assumes "\<And>k. k < n \<Longrightarrow> pc_build env (clock w + k) ev (j + k) = Inr (h (j + k))"
    and "pc_build env (clock w + n) ev (j + n) = Inl e"
  shows "open_counters env ev j pcs w = Some (pcs @ map h [j..<j + n], w\<lparr>clock := Suc (clock w + n)\<rparr>)"
  using assms
proof (induction n arbitrary: j pcs w)
  case 0
  then show ?case by (subst open_counters.simps) (simp add: tick_def)
next
  case (Suc n)
  have "pc_build env (clock w) ev j = Inr (h j)" using Suc.prems(1) [of 0] by simp
  then have "open_counters env ev j pcs w = open_counters env ev (Suc j) (pcs @ [h j]) (tick w)"
    by (subst open_counters.simps) simp
  also have "\<dots> = Some ((pcs @ [h j]) @ map h [Suc j..<Suc j + n],
      (tick w)\<lparr>clock := Suc (clock (tick w) + n)\<rparr>)"
    by (rule Suc.IH) (use Suc.prems(1) [of "Suc _"] Suc.prems(2) in auto)
  also have "\<dots> = Some (pcs @ map h [j..<j + Suc n], w\<lparr>clock := Suc (clock w + Suc n)\<rparr>)"
    by (simp add: upt_rec tick_def)
  finally show ?case .
qed

text \<open>
  The unbounded loop that opens the counters of one event ends at the first processor that refuses,
  with exactly one counter per earlier processor, in order; so if some processor number always refuses,
  creating the event counters terminates, with a well-formed map.
\<close>

theorem event_counters_one_per_cpu:
  assumes "\<And>k. k < n \<Longrightarrow> pc_build env (clock w + k) ev k = Inr (h k)"
    and "pc_build env (clock w + n) ev n = Inl e"
  shows "open_counters env ev 0 [] w = Some (map h [0..<n], w\<lparr>clock := Suc (clock w + n)\<rparr>)"
  using open_counters_stops [of n env w ev 0 h e "[]"] assms by simp

theorem event_counters_one_per_cpu_witness:
  "pc_build (static_os (\<lambda>_. []) (\<lambda>_. False)) 0 (HwEvent CPUCycles) 0 = Inr 0 \<and>
   open_counters (static_os (\<lambda>_. []) (\<lambda>_. False)) (HwEvent CPUCycles) 0 [] start_world =
     Some ([0], start_world\<lparr>clock := 2\<rparr>)"
proof -
  let ?env = "static_os (\<lambda>_. []) (\<lambda>_. False)"
  have "open_counters ?env (HwEvent CPUCycles) 0 [] start_world =
      Some (map (\<lambda>_. 0) [0..<1], start_world\<lparr>clock := Suc (clock start_world + 1)\<rparr>)"
    by (rule event_counters_one_per_cpu [where e = "Errno 19"]) (simp_all add: static_os_def)
  then show ?thesis by (simp add: static_os_def start_world_def numeral_2_eq_2)
qed

lemma open_counters_total:
  assumes "\<And>t. \<exists>e. pc_build env t ev N = Inl e" "j \<le> N"
  shows "\<exists>r. open_counters env ev j pcs w = Some r"
  using assms(2)
proof (induction "N - j" arbitrary: j pcs w)
  case 0
  then have "j = N" by simp
  then show ?case using assms(1) [of "clock w"] by (subst open_counters.simps) auto
next
  case (Suc d)
  have IH: "\<exists>r. open_counters env ev (Suc j) pcs' w' = Some r" for pcs' w'
    by (rule Suc.hyps(1)) (use Suc.hyps(2) in auto)
  show ?case
    using IH by (subst open_counters.simps) (cases "pc_build env (clock w) ev j"; simp)
qed

lemma EventStat_new_total:
  assumes "\<And>ev t. \<exists>e. pc_build env t ev N = Inl e"
  shows "\<exists>es w'. EventStat_new env w = Some (es, w')"
proof -
  have "\<exists>d. with_events env ses c = Some d" for ses c
  proof (induction ses arbitrary: c)
    case Nil
    then show ?case by simp
  next
    case (Cons se ses)
    obtain r where "open_counters env (snd se) 0 [] (snd c) = Some r"
      using open_counters_total [of env "snd se" N 0 "[]" "snd c"] assms by blast
    then obtain d where "with_event env se c = Some d"
      by (cases r) (simp add: with_event_def)
    with Cons.IH [of d] show ?case by simp
  qed
  then show ?thesis unfolding EventStat_new_def by (metis prod.exhaust)
qed

text \<open>
  Creating the event counters terminates: if for every event some processor number always refuses,
  \<open>EventStat::new\<close> returns, with a well-formed map of counters.
\<close>

theorem event_stat_new_returns:
  assumes "\<And>ev t. \<exists>e. pc_build env t ev N = Inl e"
  shows "\<exists>es w'. EventStat_new env w = Some (es, w') \<and> wf_events es"
  using EventStat_new_total [of env N w] assms EventStat_new_wf by blast

theorem event_stat_new_returns_witness:
  "\<exists>es w'. EventStat_new (static_os (\<lambda>_. []) (\<lambda>_. False)) start_world = Some (es, w') \<and> wf_events es"
  by (rule event_stat_new_returns [where N = 1]) (simp add: static_os_def)

lemma sum_counters_release:
  assumes "\<And>t c. pc_read env t c = Inr (rd c)"
  shows "sum_counters Release env stat cs val (s, w) =
    (Ok (val + (\<Sum>c\<leftarrow>cs. rd c)), (s, w\<lparr>clock := clock w + length cs\<rparr>))"
  by (induction cs arbitrary: val w)
    (simp_all add: ret_def bind_def in_context_def adapt_def val_call_def assms lift_o_def tick_def add.assoc)

lemma update_events_entries:
  assumes rd: "\<And>t c. pc_read env t c = Inr (rd c)"
    and "distinct (map fst es)" "fst ` set es \<subseteq> set (map fst event_table)" "wf_table st"
  shows "\<exists>st' w'. for_each (\<lambda>e. read_event Release env (fst e) (snd e)) es ((ev, st), w) = (Ok (), ((ev, st'), w')) \<and>
    wf_table st' \<and> (\<forall>u. u \<noteq> TotalStatCount \<longrightarrow> get_now st' u =
      (case map_of es u of None \<Rightarrow> get_now st u | Some cs \<Rightarrow> StatInt (\<Sum>c\<leftarrow>cs. rd c)))"
  using assms(2-)
proof (induction es arbitrary: st w)
  case Nil
  then show ?case by (simp add: ret_def)
next
  case (Cons e es)
  have sp: "fst e \<noteq> TotalStatCount" "fst e \<noteq> LoadAvg1min"
    using event_stats_not_special [of "fst e"] Cons.prems(2) by auto
  let ?v = "StatInt (\<Sum>c\<leftarrow>snd e. rd c)"
  let ?w = "w\<lparr>clock := clock w + length (snd e)\<rparr>"
  obtain st1 where set_eq: "set_now (fst e) ?v st = (Ok (), st1)"
    using set_now_ok [OF Cons.prems(3) sp(1)] by blast
  have step: "read_event Release env (fst e) (snd e) ((ev, st), w) = (Ok (), ((ev, st1), ?w))"
    using set_eq
    by (simp add: read_event_def bind_def sum_counters_release [OF rd] pure_within_def zoom_def)
  have wf: "wf_table st1"
    by (rule presE [OF set_now_pres set_eq Cons.prems(3)]) (simp add: sp(2))
  from Cons.IH [of st1 ?w] Cons.prems wf obtain st' w' where
    run: "for_each (\<lambda>e. read_event Release env (fst e) (snd e)) es ((ev, st1), ?w) = (Ok (), ((ev, st'), w'))"
    and st': "wf_table st'" "\<forall>u. u \<noteq> TotalStatCount \<longrightarrow> get_now st' u =
      (case map_of es u of None \<Rightarrow> get_now st1 u | Some cs \<Rightarrow> StatInt (\<Sum>c\<leftarrow>cs. rd c))"
    by auto
  have fresh: "map_of es (fst e) = None"
    using Cons.prems(1) by (simp add: map_of_eq_None_iff)
  have vals: "get_now st' u = (case map_of (e # es) u of None \<Rightarrow> get_now st u | Some cs \<Rightarrow> StatInt (\<Sum>c\<leftarrow>cs. rd c))"
    if "u \<noteq> TotalStatCount" for u
    using st'(2) that get_now_set_now [OF Cons.prems(3) sp(1) that, of ?v] fresh set_eq
    by (cases e) (auto split: option.splits)
  show ?case
    using run st'(1) vals step by (simp add: seq_def bind_def del: map_of.simps)
qed



text \<open>
  The table of events: its statistics are exactly the event block of the enum, each with one event,
  and the two page fault statistics are swapped: the minor one counts major faults and the major one
  counts minor faults.
\<close>

theorem event_table_covers_events:
  "distinct (map fst event_table) \<and> map stat_index (map fst event_table) = [13..<34] \<and>
   map_of event_table EventPageFaultsMinor = Some (SwEvent PageFaultsMaj) \<and>
   map_of event_table EventPageFaultsMajor = Some (SwEvent PageFaultsMin)"
  by (simp add: event_table_def upt_rec)

end
