(* ===== verification/Stats.thy ===== *)
theory Stats
  imports Cpu_Stat Io_Stat Event_Stat
begin

text \<open>
  The statistics of one host, \<^verbatim>\<open>statmon/src/stats.rs\<close>, \<open>Stats\<close>: the table, the readers of the load
  average, memory, faasm and network files, the samplers, and the range of aggregation.
\<close>

record Stats =
  in_range :: bool
  host_prefix :: string
  net_iface :: string
  rdbuf :: string
  fp_loadavg :: "File option"
  fp_meminfo :: "File option"
  fp_net :: "File option"
  fp_faasm :: "File option"
  st_cpu :: CpuStat
  st_events :: EventStat
  st_table :: "Stat list"
  net_rx_ref :: i64
  net_rxe_ref :: i64
  net_tx_ref :: i64
  net_txe_ref :: i64
  st_io :: IoStat

text \<open>\<open>None\<close> if opening the event counters never ends.\<close>

definition Stats_new :: "os \<Rightarrow> world \<Rightarrow> (Stats \<times> world) option" where
  "Stats_new env w =
    (case EventStat_new env w of
       None \<Rightarrow> None
     | Some (ev, w') \<Rightarrow> Some
         (\<lparr>in_range = False, host_prefix = [], net_iface = [], rdbuf = [], fp_loadavg = None,
           fp_meminfo = None, fp_net = None, fp_faasm = None, st_cpu = CpuStat_new, st_events = ev,
           st_table = STATS_INIT, net_rx_ref = 0, net_rxe_ref = 0, net_tx_ref = 0, net_txe_ref = 0,
           st_io = IoStat_new\<rparr>, w'))"

section \<open>Ranges\<close>

definition begin_range :: "os \<Rightarrow> event_order \<Rightarrow> (Stats, unit) sys" where
  "begin_range env order =
    seq (on_state (\<lambda>s. s\<lparr>in_range := True\<rparr>)) (
    seq (on_state (\<lambda>s. s\<lparr>st_table := map stat_reset (st_table s)\<rparr>)) (
    adapt unwrap_res (within (\<lambda>s. (st_events s, ())) (\<lambda>t s. s\<lparr>st_events := fst t\<rparr>) (start_events env order))))"

definition end_range :: "os \<Rightarrow> event_order \<Rightarrow> (Stats, unit) sys" where
  "end_range env order =
    seq (on_state (\<lambda>s. s\<lparr>in_range := False\<rparr>)) (
    adapt unwrap_res (within (\<lambda>s. (st_events s, ())) (\<lambda>t s. s\<lparr>st_events := fst t\<rparr>) (stop_events env order)))"

section \<open>The packet\<close>

definition stat_avg :: "Stat \<Rightarrow> f64" where
  "stat_avg s = f_div (valf (value_sum s)) (f_of_int (sint (smax (value_cnt s) 1)))"

definition stat_fields :: "(f64 \<Rightarrow> string) \<Rightarrow> string \<Rightarrow> Stat \<Rightarrow> string list" where
  "stat_fields fmt hp s =
    (let n = hp @ stat_name s; show_v = show_stat_value fmt in
     [n, show_v (value_now s), n @ ''_min'', show_v (value_min s), n @ ''_max'', show_v (value_max s),
      n @ ''_avg'', fmt (stat_avg s), n @ ''_sum'', show_v (value_sum s), n @ ''_cnt'', show_i64 (value_cnt s)])"

definition stat_packet :: "(f64 \<Rightarrow> string) \<Rightarrow> Stats \<Rightarrow> string" where
  "stat_packet fmt s =
    (let outbuf = concat (map (\<lambda>st. concat (map (\<lambda>f. f @ [CHR '','']) (stat_fields fmt (host_prefix s) st)))
       (st_table s)) in
     butlast outbuf @ [CHR 0x0A])"

section \<open>Readers\<close>

definition put_now :: "WhichStat \<Rightarrow> StatValue \<Rightarrow> (Stats, unit) sys" where
  "put_now w v = pure_within st_table (\<lambda>t s. s\<lparr>st_table := t\<rparr>) (set_now w v)"

definition put_rdbuf :: "string \<Rightarrow> Stats \<Rightarrow> Stats" where
  "put_rdbuf b s = s\<lparr>rdbuf := b\<rparr>"

text \<open>\<open>if self.fp.is_none() { self.fp = Some(open(path)?) }; let fp = self.fp.as_mut().unwrap()\<close>\<close>

definition ensure_open ::
  "(Stats, File) sys \<Rightarrow> (Stats \<Rightarrow> File option) \<Rightarrow> (File \<Rightarrow> Stats \<Rightarrow> Stats) \<Rightarrow> (Stats, File) sys" where
  "ensure_open opener get put =
    bind (get_state get) (\<lambda>f. case f of
      Some fp \<Rightarrow> ret fp
    | None \<Rightarrow> bind opener (\<lambda>fp. seq (on_state (put fp)) (ret fp)))"

definition upd_loadavg :: "os \<Rightarrow> (Stats, unit) sys" where
  "upd_loadavg env =
    bind (ensure_open (sys_open env ''/proc/loadavg'') fp_loadavg (\<lambda>fp s. s\<lparr>fp_loadavg := Some fp\<rparr>)) (\<lambda>fp.
    bind (reread env fp put_rdbuf) (\<lambda>b.
    bind (lift_o (context_opt ''Splitting 1min loadavg'' (split_once (CHR 0x20) b))) (\<lambda>sp.
    bind (lift_o (with_context ''Parsing 1min loadavg'' (parse_f64 (fst sp)))) (\<lambda>v.
    put_now LoadAvg1min (StatFloat v)))))"

definition strip_unit :: "string \<Rightarrow> i64 \<Rightarrow> string \<times> i64 \<Rightarrow> string \<times> i64" where
  "strip_unit u factor vm =
    (case strip_suffix u (fst vm) of
       Some s \<Rightarrow> (trim_end s, snd vm * factor)
     | None \<Rightarrow> vm)"

definition parse_meminfo_line :: "profile \<Rightarrow> string \<Rightarrow> (string \<times> i64) outcome" where
  "parse_meminfo_line p line =
    obind (context_opt ''Splitting meminfo line'' (split_once (CHR '':'') line)) (\<lambda>(vname, vval0).
      let vm = (trim vval0, 1);
          vm = strip_unit ''kB'' 1024 vm;
          vm = strip_unit ''MB'' (1024 * 1024) vm;
          vm = strip_unit ''GB'' (1024 * 1024 * 1024) vm;
          vm = strip_unit ''B'' 1 vm in
      obind (with_context ''Parsing meminfo value'' (parse_i64 (fst vm))) (\<lambda>vnum.
      obind (smul p vnum (snd vm)) (\<lambda>bytes.
      Ok (trim vname, bytes))))"

definition meminfo_stat :: "string \<Rightarrow> WhichStat option" where
  "meminfo_stat var =
    (if var = ''MemTotal'' then Some MemTotal
     else if var = ''MemAvailable'' then Some MemAvailable
     else if var = ''Active'' then Some MemActive
     else if var = ''Inactive'' then Some MemInactive
     else if var = ''AnonHugePages'' then Some MemAnonHugePages
     else None)"

definition meminfo_line :: "profile \<Rightarrow> string \<Rightarrow> (Stats, unit) sys" where
  "meminfo_line p line =
    bind (lift_o (parse_meminfo_line p line)) (\<lambda>vb.
    case meminfo_stat (fst vb) of
      Some w \<Rightarrow> put_now w (StatInt (snd vb))
    | None \<Rightarrow> ret ())"

definition upd_meminfo :: "profile \<Rightarrow> os \<Rightarrow> (Stats, unit) sys" where
  "upd_meminfo p env =
    bind (ensure_open (sys_open env ''/proc/meminfo'') fp_meminfo (\<lambda>fp s. s\<lparr>fp_meminfo := Some fp\<rparr>)) (\<lambda>fp.
    bind (reread env fp put_rdbuf) (\<lambda>b.
    for_each (meminfo_line p) (trimmed_lines b)))"

text \<open>
  The faasm file is read under a shared advisory lock. The unlock guard is dropped on every path, and
  taking the lock is not checked.
\<close>

definition flock_sh :: "os \<Rightarrow> ('s, unit) sys" where
  "flock_sh env = modify (\<lambda>(s, w). (s, (tick w)\<lparr>flocked := os_flock env (clock w)\<rparr>))"

definition drop_guard :: "('s, 'a) sys \<Rightarrow> ('s, 'a) sys" where
  "drop_guard m c = (case m c of (r, (s, w)) \<Rightarrow> (r, (s, (tick w)\<lparr>flocked := False\<rparr>)))"

definition faasm_stat :: "string \<Rightarrow> WhichStat option" where
  "faasm_stat field =
    (if field = ''local_sched'' then Some FaasmLocalSched
     else if field = ''waiting_queued'' then Some FaasmWaitingQueued
     else if field = ''started'' then Some FaasmStarted
     else if field = ''waiting'' then Some FaasmSuspended
     else if field = ''active'' then Some FaasmActive
     else None)"

definition faasm_field :: "string \<times> string \<Rightarrow> (Stats, unit) sys" where
  "faasm_field f =
    bind (lift_o (with_context (''Parsing faasm field '' @ fst f @ ''='' @ snd f) (parse_i64 (snd f)))) (\<lambda>v.
    case faasm_stat (fst f) of
      Some w \<Rightarrow> put_now w (StatInt v)
    | None \<Rightarrow> lift_o (Err (ErrMsg (''Unknown faasm field '' @ fst f))))"

definition upd_faasm :: "os \<Rightarrow> (Stats, unit) sys" where
  "upd_faasm env =
    bind (ensure_open
      (adapt (with_context ''Couldn't open faasm monitor at /tmp/faasm-monitor'')
        (sys_open env ''/tmp/faasm-monitor''))
      fp_faasm (\<lambda>fp s. s\<lparr>fp_faasm := Some fp\<rparr>)) (\<lambda>fp.
    seq (flock_sh env) (
    bind (drop_guard (reread env fp put_rdbuf)) (\<lambda>b.
    for_each faasm_field (tuples (map trim (split_on (CHR '','') b))))))"

definition open_net :: "os \<Rightarrow> (Stats, File) sys" where
  "open_net env =
    bind (get_state fp_net) (\<lambda>f. case f of
      Some fp \<Rightarrow> ret fp
    | None \<Rightarrow>
        bind (sys_open env ''/proc/net/dev'') (\<lambda>fp.
        seq (on_state (\<lambda>s. s\<lparr>fp_net := Some fp\<rparr>)) (
        bind (get_state net_iface) (\<lambda>i.
        if i = [] then lift_o (Panic (Explicit ''Unset network interface to monitor''))
        else seq (on_state (\<lambda>s. s\<lparr>net_iface := net_iface s @ '':''\<rparr>)) (ret fp)))))"

text \<open>One counter: its field, the difference to the last reading, and the new reference.\<close>

definition net_counter ::
  "profile \<Rightarrow> string list \<Rightarrow> nat \<Rightarrow> WhichStat \<Rightarrow> (Stats \<Rightarrow> i64) \<Rightarrow> (i64 \<Rightarrow> Stats \<Rightarrow> Stats) \<Rightarrow> (Stats, unit) sys" where
  "net_counter p fs n stat get_ref put_ref =
    bind (lift_o (expect_opt ''Unexpected /proc/net/dev format'' (nth_opt fs n))) (\<lambda>f.
    bind (lift_o (parse_i64 f)) (\<lambda>v.
    bind (get_state get_ref) (\<lambda>r.
    bind (lift_o (ssub p v r)) (\<lambda>d.
    seq (put_now stat (StatInt d)) (
    on_state (put_ref v))))))"

definition upd_net :: "profile \<Rightarrow> os \<Rightarrow> (Stats, unit) sys" where
  "upd_net p env =
    bind (open_net env) (\<lambda>fp.
    bind (reread env fp put_rdbuf) (\<lambda>b.
    bind (get_state net_iface) (\<lambda>i.
    bind (lift_o (expect_opt ''Couldn't find specified network interface''
      (find (starts_with i) (map trim (str_lines b))))) (\<lambda>line.
    let fs = filter (\<lambda>f. f \<noteq> []) (map trim (split_whitespace line)) in
    seq (net_counter p fs 1 NetRxBytes net_rx_ref (\<lambda>v s. s\<lparr>net_rx_ref := v\<rparr>)) (
    seq (net_counter p fs 3 NetRxErrors net_rxe_ref (\<lambda>v s. s\<lparr>net_rxe_ref := v\<rparr>)) (
    seq (net_counter p fs 9 NetTxBytes net_tx_ref (\<lambda>v s. s\<lparr>net_tx_ref := v\<rparr>)) (
    seq (net_counter p fs 10 NetTxErrors net_txe_ref (\<lambda>v s. s\<lparr>net_txe_ref := v\<rparr>)) (
    if length fs \<noteq> 17
    then lift_o (Panic (Explicit (''Unexpected /proc/net/dev format: got '' @ show_nat (length fs)
      @ '' fields instead of expected 17'')))
    else ret ()))))))))"

section \<open>Update\<close>

definition cpu_stats :: "(WhichStat \<times> CpuTotals) list" where
  "cpu_stats = [(CpumsUser, UserMode), (CpumsNice, NiceUserMode), (CpumsSystem, SystemMode),
     (CpumsIdle, Idle), (CpumsIowait, IoWait), (CpumsIrq, Irq), (CpumsSoftirq, SoftIrq)]"

definition io_stats :: "(WhichStat \<times> IoTotals) list" where
  "io_stats = [(IoReadsCompleted, ReadsCompleted), (IoReadsMerged, ReadsMerged),
     (IoSectorsRead, SectorsRead), (IoMsReading, MsReading), (IoWritesCompleted, WritesCompleted),
     (IoWritesMerged, WritesMerged), (IoSectorsWritten, SectorsWritten), (IoMsWriting, MsWriting)]"

definition put_index :: "WhichStat \<Rightarrow> u64 list \<Rightarrow> nat \<Rightarrow> (Stats, unit) sys" where
  "put_index stat xs i = bind (lift_o (index_vec xs i)) (\<lambda>x. put_now stat (StatInt x))"

definition upd_cpu :: "profile \<Rightarrow> os \<Rightarrow> (Stats, unit) sys" where
  "upd_cpu p env =
    seq (within (\<lambda>s. (st_cpu s, rdbuf s)) (\<lambda>t s. s\<lparr>st_cpu := fst t, rdbuf := snd t\<rparr>) (cpu_update p env)) (
    bind (get_state st_cpu) (\<lambda>cpu.
    bind (lift_o (cpu_totals_ms p cpu)) (\<lambda>cpums.
    seq (for_each (\<lambda>wc. put_index (fst wc) cpums (cpu_index (snd wc))) cpu_stats) (
    bind (lift_o (context_switches p cpu)) (\<lambda>cs.
    seq (put_now ContextSwitches (StatInt cs)) (
    seq (put_now ProcsRunning (StatInt (procs_running cpu))) (
    put_now ProcsBlocked (StatInt (procs_io_blocked cpu)))))))))"

definition upd_events :: "profile \<Rightarrow> os \<Rightarrow> event_order \<Rightarrow> (Stats, unit) sys" where
  "upd_events p env order =
    within (\<lambda>s. (st_events s, st_table s)) (\<lambda>t s. s\<lparr>st_events := fst t, st_table := snd t\<rparr>)
      (update_events p env order)"

definition upd_io :: "profile \<Rightarrow> os \<Rightarrow> (Stats, unit) sys" where
  "upd_io p env =
    seq (within (\<lambda>s. (st_io s, rdbuf s)) (\<lambda>t s. s\<lparr>st_io := fst t, rdbuf := snd t\<rparr>) (io_update env)) (
    bind (get_state st_io) (\<lambda>io.
    bind (lift_o (io_totals_ms p io)) (\<lambda>ios.
    for_each (\<lambda>wi. put_index (fst wi) ios (io_index (snd wi))) io_stats)))"

definition upd_aggregates :: "profile \<Rightarrow> (Stats, unit) sys" where
  "upd_aggregates p =
    bind (get_state in_range) (\<lambda>r.
    if r then pure_within st_table (\<lambda>t s. s\<lparr>st_table := t\<rparr>) (each_stat (update_aggregate p))
    else ret ())"

definition sample :: "profile \<Rightarrow> os \<Rightarrow> event_order \<Rightarrow> (Stats, unit) sys" where
  "sample p env order =
    seq (upd_loadavg env) (
    seq (upd_meminfo p env) (
    seq (upd_faasm env) (
    seq (upd_net p env) (
    seq (upd_cpu p env) (
    seq (upd_events p env order) (
    upd_io p env))))))"

text \<open>\<open>Stats::update\<close>: take a sample, and aggregate it while a range is open.\<close>

definition stats_update :: "profile \<Rightarrow> os \<Rightarrow> event_order \<Rightarrow> (Stats, unit) sys" where
  "stats_update p env order = seq (sample p env order) (upd_aggregates p)"

end
