(* ===== verification/Safety.thy ===== *)
theory Safety
  imports Stats
begin

text \<open>
  Safety of the monitor's update: on every outcome, an error or a panic included, the statistics stay
  well-formed, and the only panics are the ones the environment can cause (a missing interface, a file
  of unexpected shape, a zero clock rate) and, where overflow is checked, arithmetic overflow.
\<close>

section \<open>Specifications with failure conditions\<close>

text \<open>
  From a state of \<open>P\<close>: a normal end satisfies \<open>Q\<close>, every failure leaves a state of \<open>J\<close>, and a panic has
  a reason in \<open>R\<close>.
\<close>

definition spec ::
  "('s \<Rightarrow> bool) \<Rightarrow> ('s, 'a) rust \<Rightarrow> ('a \<Rightarrow> 's \<Rightarrow> bool) \<Rightarrow> ('s \<Rightarrow> bool) \<Rightarrow> (panic \<Rightarrow> bool) \<Rightarrow> bool" where
  "spec P m Q J R \<longleftrightarrow> (\<forall>s. P s \<longrightarrow>
     (case m s of (Ok x, s') \<Rightarrow> Q x s' | (Err e, s') \<Rightarrow> J s' | (Panic q, s') \<Rightarrow> J s' \<and> R q))"

definition allowed :: "(panic \<Rightarrow> bool) \<Rightarrow> 'a outcome \<Rightarrow> bool" where
  "allowed R r \<longleftrightarrow> (\<forall>q. r = Panic q \<longrightarrow> R q)"

named_theorems allowed_rules "outcomes whose panics are allowed"

lemma specI:
  assumes "\<And>s. P s \<Longrightarrow> case m s of (Ok x, s') \<Rightarrow> Q x s' | (Err e, s') \<Rightarrow> J s' | (Panic q, s') \<Rightarrow> J s' \<and> R q"
  shows "spec P m Q J R"
  using assms by (auto simp: spec_def)

lemma specD:
  assumes "spec P m Q J R" "P s"
  shows "case m s of (Ok x, s') \<Rightarrow> Q x s' | (Err e, s') \<Rightarrow> J s' | (Panic q, s') \<Rightarrow> J s' \<and> R q"
  using assms by (auto simp: spec_def)

lemma spec_bind:
  assumes "spec P m Q' J R" "\<And>x. spec (Q' x) (f x) Q J R"
  shows "spec P (bind m f) Q J R"
proof (rule specI)
  fix s
  assume "P s"
  obtain r t where m: "m s = (r, t)" by (cases "m s")
  have d: "case r of Ok x \<Rightarrow> Q' x t | Err e \<Rightarrow> J t | Panic q \<Rightarrow> J t \<and> R q"
    using specD [OF assms(1) \<open>P s\<close>] m by (simp split: outcome.splits)
  show "case bind m f s of (Ok x, s') \<Rightarrow> Q x s' | (Err e, s') \<Rightarrow> J s' | (Panic q, s') \<Rightarrow> J s' \<and> R q"
  proof (cases r)
    case (Ok x)
    with d specD [OF assms(2)] m show ?thesis by (simp add: bind_def)
  qed (use d m in \<open>simp_all add: bind_def\<close>)
qed

lemma spec_seq:
  assumes "spec P m (\<lambda>_. Q') J R" "spec Q' n Q J R"
  shows "spec P (seq m n) Q J R"
  unfolding seq_def using assms by (rule spec_bind)

lemma spec_pre: "spec P m Q J R \<Longrightarrow> (\<And>s. P' s \<Longrightarrow> P s) \<Longrightarrow> spec P' m Q J R"
  by (auto simp: spec_def)

lemma spec_post:
  assumes "spec P m Q J R" "\<And>x s. Q x s \<Longrightarrow> Q' x s" "\<And>s. J s \<Longrightarrow> J' s"
  shows "spec P m Q' J' R"
proof (rule specI)
  fix s
  assume "P s"
  from specD [OF assms(1) this] show
    "case m s of (Ok x, s') \<Rightarrow> Q' x s' | (Err e, s') \<Rightarrow> J' s' | (Panic q, s') \<Rightarrow> J' s' \<and> R q"
    using assms(2,3) by (auto split: prod.splits outcome.splits)
qed

lemma spec_ret: "(\<And>s. P s \<Longrightarrow> Q x s) \<Longrightarrow> spec P (ret x) Q J R"
  by (simp add: spec_def ret_def)

lemma spec_lift:
  "allowed R r \<Longrightarrow> (\<And>s. P s \<Longrightarrow> J s) \<Longrightarrow> spec P (lift_o r) (\<lambda>x s. r = Ok x \<and> P s) J R"
  by (cases r) (auto simp: spec_def lift_o_def allowed_def)

lemma spec_for_each:
  "(\<And>x. x \<in> set xs \<Longrightarrow> spec P (f x) (\<lambda>_. P) J R) \<Longrightarrow> spec P (for_each f xs) (\<lambda>_. P) J R"
  by (induction xs) (auto intro: spec_ret spec_seq)

lemma spec_adapt:
  assumes "spec P m Q J R" "\<And>x. h (Ok x) = Ok x" "\<And>e x. h (Err e) \<noteq> Ok x"
    "\<And>q. h (Panic q) = Panic q" "\<And>r. allowed R r \<Longrightarrow> allowed R' (h r)"
  shows "spec P (adapt h m) Q J R'"
proof (rule specI)
  fix s
  assume "P s"
  obtain r s' where m: "m s = (r, s')" by (cases "m s")
  have d: "case r of Ok x \<Rightarrow> Q x s' | Err e \<Rightarrow> J s' | Panic q \<Rightarrow> J s' \<and> R q"
    using specD [OF assms(1) \<open>P s\<close>] m by (simp split: outcome.splits)
  then have "allowed R r" by (auto simp: allowed_def split: outcome.splits)
  from assms(5) [OF this] d show
    "case adapt h m s of (Ok x, s') \<Rightarrow> Q x s' | (Err e, s') \<Rightarrow> J s' | (Panic q, s') \<Rightarrow> J s' \<and> R' q"
    using assms(2-4) by (cases r) (auto simp: adapt_def m allowed_def split: outcome.splits)
qed

section \<open>Specifications of system programs\<close>

text \<open>All conditions are on the component, beside any world.\<close>

definition sspec ::
  "('s \<Rightarrow> bool) \<Rightarrow> ('s, 'a) sys \<Rightarrow> ('a \<Rightarrow> 's \<Rightarrow> bool) \<Rightarrow> ('s \<Rightarrow> bool) \<Rightarrow> (panic \<Rightarrow> bool) \<Rightarrow> bool" where
  "sspec P m Q J R \<longleftrightarrow> spec (\<lambda>c. P (fst c)) m (\<lambda>x c. Q x (fst c)) (\<lambda>c. J (fst c)) R"

named_theorems sspec_rules "specifications of the primitive system programs"

lemma sspec_bind: "sspec P m Q' J R \<Longrightarrow> (\<And>x. sspec (Q' x) (f x) Q J R) \<Longrightarrow> sspec P (bind m f) Q J R"
  unfolding sspec_def by (rule spec_bind)

lemma sspec_seq: "sspec P m (\<lambda>_. Q') J R \<Longrightarrow> sspec Q' n Q J R \<Longrightarrow> sspec P (seq m n) Q J R"
  unfolding sspec_def by (rule spec_seq)

lemma sspec_pre: "sspec P m Q J R \<Longrightarrow> (\<And>s. P' s \<Longrightarrow> P s) \<Longrightarrow> sspec P' m Q J R"
  unfolding sspec_def by (erule spec_pre) simp

lemma sspec_post:
  "sspec P m Q J R \<Longrightarrow> (\<And>x s. Q x s \<Longrightarrow> Q' x s) \<Longrightarrow> (\<And>s. J s \<Longrightarrow> J' s) \<Longrightarrow> sspec P m Q' J' R"
  unfolding sspec_def by (erule spec_post) simp_all

lemma sspec_ret: "(\<And>s. P s \<Longrightarrow> Q x s) \<Longrightarrow> sspec P (ret x) Q J R"
  unfolding sspec_def by (rule spec_ret) simp

lemma sspec_lift:
  "allowed R r \<Longrightarrow> (\<And>s. P s \<Longrightarrow> J s) \<Longrightarrow> sspec P (lift_o r) (\<lambda>x s. r = Ok x \<and> P s) J R"
  unfolding sspec_def by (rule spec_lift) simp_all

lemma sspec_get: "sspec P (get_state f) (\<lambda>x s. x = f s \<and> P s) J R"
  by (auto simp: sspec_def spec_def get_state_def gets_def)

lemma sspec_on_state: "(\<And>s. P s \<Longrightarrow> Q () (f s)) \<Longrightarrow> sspec P (on_state f) Q J R"
  by (auto simp: sspec_def spec_def on_state_def modify_def)

lemma sspec_for_each:
  "(\<And>x. x \<in> set xs \<Longrightarrow> sspec P (f x) (\<lambda>_. P) J R) \<Longrightarrow> sspec P (for_each f xs) (\<lambda>_. P) J R"
  unfolding sspec_def by (rule spec_for_each)

lemma sspec_calls:
  assumes "\<And>s. P s \<Longrightarrow> J s"
  shows "sspec P (unit_call f) (\<lambda>_. P) J R" "sspec P (val_call g) (\<lambda>_. P) J R"
    "sspec P (sys_open env path) (\<lambda>_. P) J R" "sspec P (sys_read env fp) (\<lambda>_. P) J R"
    "sspec P (sys_rewind env fp) (\<lambda>_. P) J R"
proof -
  show u: "sspec P (unit_call f) (\<lambda>_. P) J R" for f
    using assms by (auto simp: sspec_def spec_def unit_call_def split: option.splits)
  show v: "sspec P (val_call g) (\<lambda>_. P) J R" for g :: "nat \<Rightarrow> io_error + 'z"
    using assms by (auto simp: sspec_def spec_def val_call_def split: sum.splits)
  show "sspec P (sys_open env path) (\<lambda>_. P) J R"
    unfolding sys_open_def by (rule sspec_bind [OF u]) (simp add: sspec_ret)
  show "sspec P (sys_read env fp) (\<lambda>_. P) J R" unfolding sys_read_def by (rule v)
  show "sspec P (sys_rewind env fp) (\<lambda>_. P) J R" unfolding sys_rewind_def by (rule u)
qed

lemma sspec_reread:
  assumes "\<And>s b. P s \<Longrightarrow> P (buf b s)" "\<And>s. P s \<Longrightarrow> J s"
  shows "sspec P (reread env fp buf) (\<lambda>_. P) J R"
  unfolding reread_def
  by (rule sspec_seq [where Q' = P] sspec_bind [where Q' = "\<lambda>_. P"] sspec_on_state sspec_calls sspec_ret
      | simp add: assms)+

lemma sspec_within:
  assumes "sspec A m B C R" "\<And>s. P s \<Longrightarrow> A (g s)"
    and "\<And>s t x. P s \<Longrightarrow> B x t \<Longrightarrow> Q x (put t s)" "\<And>s t. P s \<Longrightarrow> C t \<Longrightarrow> J (put t s)"
  shows "sspec P (within g put m) Q J R"
  unfolding sspec_def
proof (rule specI)
  fix c :: "'c \<times> world"
  assume P: "P (fst c)"
  obtain r t w where m: "m (g (fst c), snd c) = (r, (t, w))" by (metis prod.exhaust)
  have "case r of Ok x \<Rightarrow> B x t | Err e \<Rightarrow> C t | Panic q \<Rightarrow> C t \<and> R q"
    using specD [OF assms(1) [unfolded sspec_def], of "(g (fst c), snd c)"] assms(2) [OF P] m
    by (auto split: outcome.splits)
  then show "case within g put m c of (Ok x, s') \<Rightarrow> Q x (fst s') | (Err e, s') \<Rightarrow> J (fst s')
      | (Panic q, s') \<Rightarrow> J (fst s') \<and> R q"
    using assms(3,4) [OF P] m
    by (cases c) (auto simp: within_def zoom_def split: outcome.splits)
qed

lemma sspec_pure_within:
  assumes "spec A m B C R" "\<And>s. P s \<Longrightarrow> A (g s)"
    and "\<And>s t x. P s \<Longrightarrow> B x t \<Longrightarrow> Q x (put t s)" "\<And>s t. P s \<Longrightarrow> C t \<Longrightarrow> J (put t s)"
  shows "sspec P (pure_within g put m) Q J R"
  unfolding sspec_def
proof (rule specI)
  fix c :: "'c \<times> world"
  assume P: "P (fst c)"
  obtain r t where m: "m (g (fst c)) = (r, t)" by (metis prod.exhaust)
  have "case r of Ok x \<Rightarrow> B x t | Err e \<Rightarrow> C t | Panic q \<Rightarrow> C t \<and> R q"
    using specD [OF assms(1), of "g (fst c)"] assms(2) [OF P] m by (auto split: outcome.splits)
  then show "case pure_within g put m c of (Ok x, s') \<Rightarrow> Q x (fst s') | (Err e, s') \<Rightarrow> J (fst s')
      | (Panic q, s') \<Rightarrow> J (fst s') \<and> R q"
    using assms(3,4) [OF P] m
    by (cases c) (auto simp: pure_within_def zoom_def split: outcome.splits)
qed


section \<open>Programs that keep an invariant and panic only for given reasons\<close>

definition safe :: "('s \<Rightarrow> bool) \<Rightarrow> (panic \<Rightarrow> bool) \<Rightarrow> ('s, 'a) rust \<Rightarrow> bool" where
  "safe I R m \<longleftrightarrow> spec I m (\<lambda>_. I) I R"

definition returns :: "('s \<Rightarrow> bool) \<Rightarrow> ('s, 'a) rust \<Rightarrow> 'a \<Rightarrow> bool" where
  "returns I m x \<longleftrightarrow> (\<exists>s s'. I s \<and> m s = (Ok x, s'))"

definition beside :: "('s \<Rightarrow> bool) \<Rightarrow> 's \<times> world \<Rightarrow> bool" where
  "beside I = (\<lambda>c. I (fst c))"

named_theorems safe_rules "safety of the program combinators"

lemma safeI: "pres I m \<Longrightarrow> (\<And>s. I s \<Longrightarrow> allowed R (fst (m s))) \<Longrightarrow> safe I R m"
  unfolding safe_def
  by (rule specI) (auto simp: allowed_def split: prod.splits outcome.splits dest: presE)

lemma safeD: "safe I R m \<Longrightarrow> I s \<Longrightarrow> I (snd (m s)) \<and> allowed R (fst (m s))"
  unfolding safe_def by (drule (1) specD) (auto simp: allowed_def split: prod.splits outcome.splits)

lemma safe_pres: "safe I R m \<Longrightarrow> pres I m"
  by (rule presI) (simp add: safeD)

lemma sspec_safe: "safe (beside I) R m \<longleftrightarrow> sspec I m (\<lambda>_. I) I R"
  by (simp add: safe_def sspec_def beside_def)

lemma safe_bind [safe_rules]:
  assumes "safe I R m" "\<And>x. returns I m x \<Longrightarrow> safe I R (f x)"
  shows "safe I R (bind m f)"
  unfolding safe_def
proof (rule spec_bind)
  show "spec I m (\<lambda>x s. returns I m x \<and> I s) I R"
  proof (rule specI)
    fix s
    assume s: "I s"
    then have "returns I m x" if "m s = (Ok x, t)" for x t using that by (auto simp: returns_def)
    with safeD [OF assms(1) s] show
      "case m s of (Ok x, s') \<Rightarrow> returns I m x \<and> I s' | (Err e, s') \<Rightarrow> I s' | (Panic q, s') \<Rightarrow> I s' \<and> R q"
      by (auto simp: allowed_def split: prod.splits outcome.splits)
  qed
  show "spec (\<lambda>s. returns I m x \<and> I s) (f x) (\<lambda>_. I) I R" for x
    using assms(2) [of x] by (cases "returns I m x") (auto simp: safe_def spec_def)
qed

lemma safe_seq [safe_rules]: "safe I R m \<Longrightarrow> safe I R n \<Longrightarrow> safe I R (seq m n)"
  unfolding seq_def by (rule safe_bind)

lemma safe_ret [safe_rules]: "safe I R (ret x)"
  by (simp add: safe_def spec_ret)

lemma safe_lift [safe_rules]: "allowed R r \<Longrightarrow> safe I R (lift_o r)"
  by (rule safeI) (simp_all add: pres_lift_o lift_o_def)

lemma safe_for_each [safe_rules]: "(\<And>x. x \<in> set xs \<Longrightarrow> safe I R (f x)) \<Longrightarrow> safe I R (for_each f xs)"
  by (simp add: safe_def spec_for_each)

lemma safe_if [safe_rules]: "(b \<Longrightarrow> safe I R m) \<Longrightarrow> (\<not> b \<Longrightarrow> safe I R n) \<Longrightarrow> safe I R (if b then m else n)"
  by simp

lemma safe_modify: "(\<And>s. I s \<Longrightarrow> I (f s)) \<Longrightarrow> safe I R (modify f)"
  by (rule safeI) (auto simp: pres_modify modify_def allowed_def)

lemma safe_on_state: "(\<And>s. I s \<Longrightarrow> I (f s)) \<Longrightarrow> safe (beside I) R (on_state f)"
  unfolding sspec_safe by (rule sspec_on_state)

lemma safe_gets [safe_rules]: "safe I R (gets f)"
  by (rule safeI) (simp_all add: pres_gets gets_def allowed_def)

lemma safe_get_state [safe_rules]: "safe I R (get_state f)"
  unfolding get_state_def by (rule safe_gets)

lemma safe_calls [safe_rules]:
  "safe (beside I) R (unit_call f)" "safe (beside I) R (val_call g)"
  "safe (beside I) R (sys_open env path)" "safe (beside I) R (sys_read env fp)"
  "safe (beside I) R (sys_rewind env fp)"
  unfolding sspec_safe by (rule sspec_calls, assumption)+

lemma safe_reread: "(\<And>s b. I s \<Longrightarrow> I (buf b s)) \<Longrightarrow> safe (beside I) R (reread env fp buf)"
  unfolding reread_def by (intro safe_rules safe_on_state)

lemma safe_with_context [safe_rules]: "safe I R m \<Longrightarrow> safe I R (adapt (with_context c) m)"
  unfolding safe_def by (erule spec_adapt) (auto simp: allowed_def elim: with_context.elims)

lemma safe_in_context [safe_rules]: "safe I R m \<Longrightarrow> safe I R (in_context stat m)"
  unfolding in_context_def by (rule safe_with_context)

lemma safe_within:
  assumes "safe (beside A) R m" "\<And>s. I s \<Longrightarrow> A (g s)" "\<And>s t. I s \<Longrightarrow> A t \<Longrightarrow> I (put t s)"
  shows "safe (beside I) R (within g put m)"
  unfolding sspec_safe by (rule sspec_within [OF assms(1) [unfolded sspec_safe]]) (simp_all add: assms)

lemma safe_pure_within:
  assumes "safe A R m" "\<And>s. I s \<Longrightarrow> A (g s)" "\<And>s t. I s \<Longrightarrow> A t \<Longrightarrow> I (put t s)"
  shows "safe (beside I) R (pure_within g put m)"
  unfolding sspec_safe
  by (rule sspec_pure_within [OF assms(1) [unfolded safe_def]]) (simp_all add: assms)

lemma returns_simps [simp]:
  "returns I (lift_o r) x \<longleftrightarrow> r = Ok x \<and> (\<exists>s. I s)"
  "returns I' (get_state f) y \<longleftrightarrow> (\<exists>s w. I' (s, w) \<and> y = f s)"
  "returns I (gets g) z \<longleftrightarrow> (\<exists>s. I s \<and> z = g s)"
  by (auto simp: returns_def)

section \<open>Outcomes of the library functions\<close>

lemma allowed_simps [simp]:
  "allowed R (Ok x)" "allowed R (Err e)" "allowed R (Panic q) \<longleftrightarrow> R q"
  by (simp_all add: allowed_def)

lemma allowed_obind [allowed_rules]:
  "allowed R r \<Longrightarrow> (\<And>x. r = Ok x \<Longrightarrow> allowed R (f x)) \<Longrightarrow> allowed R (obind r f)"
  by (cases r) simp_all

lemma allowed_with_context [allowed_rules]: "allowed R r \<Longrightarrow> allowed R (with_context c r)"
  by (cases r) simp_all

lemma allowed_context_opt [allowed_rules]: "allowed R (context_opt c x)"
  by (simp add: context_opt_def split: option.splits)

lemma allowed_expect_opt [allowed_rules]: "R (Expect c) \<Longrightarrow> allowed R (expect_opt c x)"
  by (simp add: expect_opt_def split: option.splits)

lemma allowed_unwrap_opt [allowed_rules]: "x \<noteq> None \<Longrightarrow> allowed R (unwrap_opt x)"
  by (auto simp: unwrap_opt_def)

lemma allowed_index_vec [allowed_rules]: "i < length xs \<Longrightarrow> allowed R (index_vec xs i)"
  by (simp add: index_vec_def)

lemma allowed_arith [allowed_rules]:
  assumes "p = Dev \<Longrightarrow> R Overflow"
  shows "allowed R (uadd p a b)" "allowed R (usub p a b)" "allowed R (umul p a b)"
    "allowed R (sadd p a b)" "allowed R (ssub p a b)" "allowed R (smul p a b)"
  using assms by (simp_all add: arith_eval)

lemma allowed_omap [allowed_rules]: "(\<And>x. allowed R (f x)) \<Longrightarrow> allowed R (omap f xs)"
  by (induction xs) (auto intro!: allowed_obind)


lemma allowed_parse [allowed_rules]:
  "allowed R (parse_u64 s)" "allowed R (parse_i64 s)" "allowed R (parse_f64 s)"
  by (auto simp: parse_u64_def parse_i64_def parse_f64_def int_outcome_def Let_def
      split: sum.splits option.splits prod.splits)

lemma allowed_parse_meminfo_line [allowed_rules]:
  "(p = Dev \<Longrightarrow> R Overflow) \<Longrightarrow> allowed R (parse_meminfo_line p line)"
  unfolding parse_meminfo_line_def Let_def
  by (intro allowed_rules) (auto intro!: allowed_rules split: prod.splits)

lemma allowed_deltas [allowed_rules]: "(p = Dev \<Longrightarrow> R Overflow) \<Longrightarrow> allowed R (deltas p a b)"
  unfolding deltas_def by (auto intro!: allowed_rules)

section \<open>The samplers\<close>

text \<open>
  The panics an update may end in: an overflow where overflow is checked, a zero clock rate, an interface
  that is not set or not found, and a network line of another shape.
\<close>

definition update_panic :: "profile \<Rightarrow> os \<Rightarrow> panic \<Rightarrow> bool" where
  "update_panic p env q =
    (case q of
       Overflow \<Rightarrow> p = Dev
     | DivByZero \<Rightarrow> os_clk_tck env = 0
     | Expect m \<Rightarrow> m = ''Couldn't find specified network interface'' \<or> m = ''Unexpected /proc/net/dev format''
     | Explicit m \<Rightarrow> m = ''Unset network interface to monitor'' \<or>
         starts_with ''Unexpected /proc/net/dev format: got '' m
     | _ \<Rightarrow> False)"

lemma update_panic_overflow: "p = Dev \<Longrightarrow> update_panic p env Overflow"
  by (simp add: update_panic_def)

definition cpu_ready :: "CpuStat \<Rightarrow> bool" where
  "cpu_ready s \<longleftrightarrow> wf_cpu s \<and> cpu_fp s \<noteq> None"

lemma cpu_ready_updates [simp]:
  "cpu_ready (s\<lparr>cpu_ctxt := v\<rparr>) = cpu_ready s" "cpu_ready (s\<lparr>cpu_running := v\<rparr>) = cpu_ready s"
  "cpu_ready (s\<lparr>cpu_blocked := v\<rparr>) = cpu_ready s" "cpu_ready (s\<lparr>ms_per_clk := v\<rparr>) = cpu_ready s"
  "cpu_ready s \<Longrightarrow> cpu_ready (s\<lparr>cpu_totals := (cpu_totals s)[i := v]\<rparr>)"
  "cpu_ready s \<Longrightarrow> cpu_ready (s\<lparr>cpu_totals_last := cpu_totals s, cpu_ctxt_last := c\<rparr>)"
  "wf_cpu s \<Longrightarrow> cpu_ready (s\<lparr>cpu_fp := Some fp\<rparr>)"
  by (simp_all add: cpu_ready_def wf_cpu_def)

lemma cpu_ready_open: "cpu_ready s \<Longrightarrow> cpu_fp s \<noteq> None"
  by (simp add: cpu_ready_def)

lemma cpu_field_safe: "safe cpu_ready (update_panic p env) (cpu_field p x)"
proof (rule safeI)
  show "pres cpu_ready (cpu_field p x)"
    unfolding cpu_field_def by (intro rust_pres pres_modify presI) simp_all
  have umul: "allowed (update_panic p env) (umul p a b)" for a b :: u64
    by (intro allowed_rules update_panic_overflow)
  show "allowed (update_panic p env) (fst (cpu_field p x s))" for s
    using allowed_parse(1) [of "update_panic p env" "snd x"] umul [of _ "ms_per_clk s"]
    by (cases "parse_u64 (snd x)")
      (auto simp: cpu_field_def bind_def lift_o_def modify_def allowed_def split: prod.splits outcome.splits)
qed

lemma cpu_line_safe: "safe cpu_ready (update_panic p env) (cpu_line p line)"
  unfolding cpu_line_def
  by (auto intro!: safe_rules cpu_field_safe safe_modify allowed_rules split: option.splits)

lemma cpu_pass_safe: "safe (beside (\<lambda>s. cpu_ready (fst s))) (update_panic p env) (cpu_pass p env)"
  unfolding cpu_pass_def
  by (intro safe_rules safe_on_state safe_reread allowed_rules
      safe_pure_within [where A = cpu_ready] cpu_line_safe)
    (auto simp: put_buf_def beside_def dest: cpu_ready_open)

text \<open>Both samplers open their file in the first update and then make a pass over it.\<close>

lemma sspec_open_first:
  assumes "sspec A pass (\<lambda>_. A) W R" "sspec W opener (\<lambda>_. A) W R" "\<And>s. W s \<Longrightarrow> get s \<noteq> None \<Longrightarrow> A s"
  shows "sspec W (bind (get_state get) (\<lambda>f. seq (if f = None then opener else ret ()) pass)) (\<lambda>_. A) W R"
proof (rule sspec_bind [OF sspec_get], rule sspec_seq [OF _ assms(1)])
  fix f
  show "sspec (\<lambda>s. f = get s \<and> W s) (if f = None then opener else ret ()) (\<lambda>_. A) W R"
  proof (cases "f = None")
    case True
    have "sspec (\<lambda>s. f = get s \<and> W s) opener (\<lambda>_. A) W R" by (rule sspec_pre [OF assms(2)]) simp
    with True show ?thesis by simp
  next
    case False
    then have "A s" if "f = get s \<and> W s" for s using assms(3) that by metis
    then have "sspec (\<lambda>s. f = get s \<and> W s) (ret ()) (\<lambda>_. A) W R" by (rule sspec_ret)
    then show ?thesis by (simp only: False if_False)
  qed
qed

lemma cpu_update_spec:
  "sspec (\<lambda>s. wf_cpu (fst s)) (cpu_update p env) (\<lambda>_ s. cpu_ready (fst s)) (\<lambda>s. wf_cpu (fst s)) (update_panic p env)"
proof -
  let ?W = "\<lambda>s :: CpuStat \<times> string. wf_cpu (fst s)" and ?O = "\<lambda>s :: CpuStat \<times> string. cpu_ready (fst s)"
  let ?R = "update_panic p env"
  have OW: "?O s \<Longrightarrow> ?W s" for s by (simp add: cpu_ready_def)
  have pass: "sspec ?O (cpu_pass p env) (\<lambda>_. ?O) ?W ?R"
    by (rule sspec_post [OF cpu_pass_safe [unfolded sspec_safe]]) (simp_all add: cpu_ready_def)
  have div_ok: "allowed ?R (udiv 1000 (os_clk_tck env))"
    by (simp add: udiv_def update_panic_def)
  have first: "sspec ?W
      (bind (sys_open env ''/proc/stat'') (\<lambda>fp.
         seq (on_state (apfst (\<lambda>s. s\<lparr>cpu_fp := Some fp\<rparr>))) (
         bind (lift_o (udiv 1000 (os_clk_tck env))) (\<lambda>ms.
         seq (on_state (apfst (\<lambda>s. s\<lparr>ms_per_clk := ms\<rparr>))) (cpu_pass p env))))) (\<lambda>_. ?O) ?W ?R"
    by (rule sspec_bind [OF sspec_calls(3)], assumption, rule sspec_seq [where Q' = ?O],
        rule sspec_on_state, simp, rule sspec_bind [OF sspec_lift [OF div_ok]], erule OW,
        rule sspec_seq [OF _ pass], rule sspec_on_state, simp)
  show ?thesis
    unfolding cpu_update_def
    by (rule sspec_open_first [OF pass first]) (simp add: cpu_ready_def)
qed

lemma cpu_update_safe: "safe (beside (\<lambda>s. wf_cpu (fst s))) (update_panic p env) (cpu_update p env)"
  unfolding sspec_safe by (rule sspec_post [OF cpu_update_spec]) (simp_all add: cpu_ready_def)

definition io_ready :: "IoStat \<Rightarrow> bool" where
  "io_ready s \<longleftrightarrow> wf_io s \<and> io_fp s \<noteq> None"

lemma io_ready_updates [simp]:
  "io_ready s \<Longrightarrow> io_ready (s\<lparr>io_totals := (io_totals s)[i := v]\<rparr>)"
  "io_ready s \<Longrightarrow> io_ready (s\<lparr>io_totals_last := io_totals s\<rparr>)"
  "wf_io s \<Longrightarrow> io_ready (s\<lparr>io_fp := Some fp\<rparr>)"
  by (simp_all add: io_ready_def wf_io_def)

lemma io_ready_open: "io_ready s \<Longrightarrow> io_fp s \<noteq> None"
  by (simp add: io_ready_def)

lemma io_line_safe: "safe io_ready R (io_line env line)"
  unfolding io_line_def io_field_def
  by (auto intro!: safe_rules safe_modify allowed_rules split: option.splits)

lemma io_pass_safe: "safe (beside (\<lambda>s. io_ready (fst s))) R (io_pass env)"
  unfolding io_pass_def
  by (intro safe_rules safe_on_state safe_reread allowed_rules
      safe_pure_within [where A = io_ready] io_line_safe)
    (auto simp: put_buf_def beside_def dest: io_ready_open)

lemma io_update_spec:
  "sspec (\<lambda>s. wf_io (fst s)) (io_update env) (\<lambda>_ s. io_ready (fst s)) (\<lambda>s. wf_io (fst s)) R"
proof -
  let ?W = "\<lambda>s :: IoStat \<times> string. wf_io (fst s)" and ?O = "\<lambda>s :: IoStat \<times> string. io_ready (fst s)"
  have pass: "sspec ?O (io_pass env) (\<lambda>_. ?O) ?W R"
    by (rule sspec_post [OF io_pass_safe [unfolded sspec_safe]]) (simp_all add: io_ready_def)
  have first: "sspec ?W
      (bind (sys_open env ''/proc/diskstats'') (\<lambda>fp.
         seq (on_state (apfst (\<lambda>s. s\<lparr>io_fp := Some fp\<rparr>))) (io_pass env))) (\<lambda>_. ?O) ?W R"
    by (rule sspec_bind [OF sspec_calls(3)], assumption, rule sspec_seq [OF _ pass], rule sspec_on_state, simp)
  show ?thesis
    unfolding io_update_def
    by (rule sspec_open_first [OF pass first]) (simp add: io_ready_def)
qed

lemma io_update_safe: "safe (beside (\<lambda>s. wf_io (fst s))) R (io_update env)"
  unfolding sspec_safe by (rule sspec_post [OF io_update_spec]) (simp_all add: io_ready_def)


lemma set_now_safe: "w \<noteq> TotalStatCount \<Longrightarrow> is_float v = (w = LoadAvg1min) \<Longrightarrow> safe wf_table R (set_now w v)"
  by (rule safeI) (simp_all add: set_now_pres set_now_ok)

lemma sum_counters_safe:
  "(p = Dev \<Longrightarrow> R Overflow) \<Longrightarrow> safe (beside I) R (sum_counters p env stat cs val)"
proof (induction cs arbitrary: val)
  case Nil
  then show ?case by (simp add: safe_ret)
next
  case (Cons c cs)
  show ?case
    unfolding sum_counters.simps by (intro safe_rules allowed_rules Cons.IH) (simp_all add: Cons.prems)
qed

lemma event_loop_safe:
  assumes "\<And>s. I s \<Longrightarrow> wf_events (fst s)" "iterates order"
    and "\<And>stat cs. stat \<in> set (map fst event_table) \<Longrightarrow> safe (beside I) R (body stat cs)"
  shows "safe (beside I) R (event_loop order body)"
  unfolding event_loop_def
proof (rule safe_bind [OF safe_get_state], rule safe_for_each)
  fix es e
  assume "returns (beside I) (get_state (\<lambda>s. order (events (fst s)))) es" "e \<in> set es"
  then obtain s where s: "I s" "e \<in> set (order (events (fst s)))" by (auto simp: beside_def)
  then have "e \<in> set (events (fst s))" using mset_eq_setD [OF iteratesD [OF assms(2)]] by blast
  then have "fst e \<in> set (map fst event_table)" using assms(1) [OF s(1)] by (auto simp: wf_events_def)
  then show "safe (beside I) R (body (fst e) (snd e))" by (rule assms(3))
qed

lemma update_events_safe:
  assumes "iterates order"
  shows "safe (beside (\<lambda>s. wf_events (fst s) \<and> wf_table (snd s))) (update_panic p env) (update_events p env order)"
  unfolding update_events_def
proof (rule event_loop_safe [OF _ assms])
  fix stat cs
  assume "stat \<in> set (map fst event_table)"
  then have "safe wf_table (update_panic p env) (set_now stat (StatInt v))" for v
    using event_stats_not_special by (intro set_now_safe) auto
  then show "safe (beside (\<lambda>s. wf_events (fst s) \<and> wf_table (snd s))) (update_panic p env) (read_event p env stat cs)"
    unfolding read_event_def
    by (intro safe_rules sum_counters_safe safe_pure_within [where A = wf_table])
      (simp_all add: update_panic_overflow)
qed simp

section \<open>The whole update\<close>

definition wf_stats :: "Stats \<Rightarrow> bool" where
  "wf_stats s \<longleftrightarrow> wf_cpu (st_cpu s) \<and> wf_io (st_io s) \<and> wf_events (st_events s) \<and> wf_table (st_table s)"

lemma wf_stats_updates [simp]:
  "wf_stats (s\<lparr>rdbuf := b\<rparr>) = wf_stats s" "wf_stats (s\<lparr>in_range := r\<rparr>) = wf_stats s"
  "wf_stats (s\<lparr>host_prefix := h\<rparr>) = wf_stats s" "wf_stats (s\<lparr>net_iface := i\<rparr>) = wf_stats s"
  "wf_stats (s\<lparr>fp_loadavg := f\<rparr>) = wf_stats s" "wf_stats (s\<lparr>fp_meminfo := f\<rparr>) = wf_stats s"
  "wf_stats (s\<lparr>fp_net := f\<rparr>) = wf_stats s" "wf_stats (s\<lparr>fp_faasm := f\<rparr>) = wf_stats s"
  "wf_stats (s\<lparr>net_rx_ref := v\<rparr>) = wf_stats s" "wf_stats (s\<lparr>net_rxe_ref := v\<rparr>) = wf_stats s"
  "wf_stats (s\<lparr>net_tx_ref := v\<rparr>) = wf_stats s" "wf_stats (s\<lparr>net_txe_ref := v\<rparr>) = wf_stats s"
  by (simp_all add: wf_stats_def)

lemma put_now_safe:
  "w \<noteq> TotalStatCount \<Longrightarrow> is_float v = (w = LoadAvg1min) \<Longrightarrow> safe (beside wf_stats) R (put_now w v)"
  unfolding put_now_def
  by (rule safe_pure_within [OF set_now_safe]) (auto simp: wf_stats_def)

lemma reread_safe: "safe (beside wf_stats) R (reread env fp put_rdbuf)"
  by (rule safe_reread) (simp add: put_rdbuf_def)

lemma ensure_open_safe:
  "safe (beside wf_stats) R opener \<Longrightarrow> (\<And>fp s. wf_stats s \<Longrightarrow> wf_stats (put fp s)) \<Longrightarrow>
   safe (beside wf_stats) R (ensure_open opener get put)"
  unfolding ensure_open_def by (auto intro!: safe_rules safe_on_state split: option.splits)

lemma upd_loadavg_safe: "safe (beside wf_stats) R (upd_loadavg env)"
  unfolding upd_loadavg_def
  by (intro safe_rules ensure_open_safe reread_safe allowed_rules put_now_safe) simp_all

lemma meminfo_stat_not_special: "meminfo_stat v = Some w \<Longrightarrow> w \<noteq> TotalStatCount \<and> w \<noteq> LoadAvg1min"
  by (auto simp: meminfo_stat_def split: if_splits)

lemma faasm_stat_not_special: "faasm_stat v = Some w \<Longrightarrow> w \<noteq> TotalStatCount \<and> w \<noteq> LoadAvg1min"
  by (auto simp: faasm_stat_def split: if_splits)

lemma upd_meminfo_safe: "(p = Dev \<Longrightarrow> R Overflow) \<Longrightarrow> safe (beside wf_stats) R (upd_meminfo p env)"
  unfolding upd_meminfo_def meminfo_line_def
  by (auto intro!: safe_rules ensure_open_safe reread_safe allowed_rules put_now_safe
      dest: meminfo_stat_not_special split: option.splits)

lemma flock_sh_safe: "safe (beside I) R (flock_sh env)"
  unfolding flock_sh_def by (rule safe_modify) (auto simp: beside_def)

lemma drop_guard_safe: "safe (beside I) R m \<Longrightarrow> safe (beside I) R (drop_guard m)"
  by (rule safeI, rule presI) (auto simp: drop_guard_def beside_def split: prod.splits dest!: safeD)

lemma upd_faasm_safe: "safe (beside wf_stats) R (upd_faasm env)"
  unfolding upd_faasm_def faasm_field_def
  by (auto intro!: safe_rules ensure_open_safe flock_sh_safe drop_guard_safe reread_safe allowed_rules put_now_safe
      dest: faasm_stat_not_special split: option.splits)


lemma open_net_safe: "safe (beside wf_stats) (update_panic p env) (open_net env)"
  unfolding open_net_def
  by (auto intro!: safe_rules safe_on_state split: option.splits simp: update_panic_def)

lemma net_counter_safe:
  "stat \<noteq> TotalStatCount \<Longrightarrow> stat \<noteq> LoadAvg1min \<Longrightarrow> (\<And>v s. wf_stats s \<Longrightarrow> wf_stats (put v s)) \<Longrightarrow>
   safe (beside wf_stats) (update_panic p env) (net_counter p fs n stat get put)"
  unfolding net_counter_def
  by (intro safe_rules allowed_rules put_now_safe safe_on_state) (simp_all add: update_panic_def)

lemma starts_with_append [simp]: "starts_with a (a @ b)"
  by (induction a) (auto simp: starts_with_def)

lemma update_panic_net:
  "update_panic p env (Explicit (''Unexpected /proc/net/dev format: got '' @ m))"
  "update_panic p env (Expect ''Couldn't find specified network interface'')"
  unfolding update_panic_def panic.case by (simp_all only: starts_with_append simp_thms)

lemma upd_net_safe: "safe (beside wf_stats) (update_panic p env) (upd_net p env)"
  unfolding upd_net_def Let_def
  by (intro safe_rules open_net_safe reread_safe allowed_rules net_counter_safe
      allowed_simps(3) [THEN iffD2] update_panic_net) simp_all

lemma put_index_safe:
  "i < length xs \<Longrightarrow> stat \<noteq> TotalStatCount \<Longrightarrow> stat \<noteq> LoadAvg1min \<Longrightarrow>
   safe (beside wf_stats) R (put_index stat xs i)"
  unfolding put_index_def by (intro safe_rules allowed_rules put_now_safe) simp_all

lemma deltas_length: "deltas p a b = Ok d \<Longrightarrow> length a = n \<Longrightarrow> length b = n \<Longrightarrow> length d = n"
  by (simp add: deltas_def omap_Ok)

lemma upd_cpu_safe: "safe (beside wf_stats) (update_panic p env) (upd_cpu p env)"
proof -
  have idx: "fst wc \<noteq> TotalStatCount \<and> fst wc \<noteq> LoadAvg1min \<and> cpu_index (snd wc) < 10"
    if "wc \<in> set cpu_stats" for wc
    using that by (auto simp: cpu_stats_def)
  have upd: "safe (beside wf_stats) (update_panic p env)
      (within (\<lambda>s. (st_cpu s, rdbuf s)) (\<lambda>t s. s\<lparr>st_cpu := fst t, rdbuf := snd t\<rparr>) (cpu_update p env))"
    by (rule safe_within [OF cpu_update_safe]) (simp_all add: wf_stats_def)
  show ?thesis
    unfolding upd_cpu_def cpu_totals_ms_def context_switches_def
    by (intro safe_rules upd allowed_rules put_now_safe put_index_safe)
      (auto simp: update_panic_overflow beside_def wf_stats_def wf_cpu_def dest: idx dest!: deltas_length [where n = 10])
qed

lemma upd_io_safe: "safe (beside wf_stats) (update_panic p env) (upd_io p env)"
proof -
  have idx: "fst wc \<noteq> TotalStatCount \<and> fst wc \<noteq> LoadAvg1min \<and> io_index (snd wc) < 8"
    if "wc \<in> set io_stats" for wc
    using that by (auto simp: io_stats_def)
  have upd: "safe (beside wf_stats) (update_panic p env)
      (within (\<lambda>s. (st_io s, rdbuf s)) (\<lambda>t s. s\<lparr>st_io := fst t, rdbuf := snd t\<rparr>) (io_update env))"
    by (rule safe_within [OF io_update_safe]) (simp_all add: wf_stats_def)
  show ?thesis
    unfolding upd_io_def io_totals_ms_def
    by (intro safe_rules upd allowed_rules put_now_safe put_index_safe)
      (auto simp: update_panic_overflow beside_def wf_stats_def wf_io_def dest: idx dest!: deltas_length [where n = 8])
qed

lemma upd_events_safe:
  "iterates order \<Longrightarrow> safe (beside wf_stats) (update_panic p env) (upd_events p env order)"
  unfolding upd_events_def
  by (rule safe_within [OF update_events_safe]) (simp_all add: wf_stats_def)

lemma each_stat_outcome:
  "(\<And>i. i < length st \<Longrightarrow> allowed R (fst (f (st ! i)))) \<Longrightarrow> allowed R (fst (each_stat f st))"
proof (induction st)
  case Nil
  then show ?case by simp
next
  case (Cons s ss)
  have "allowed R (fst (f s))" using Cons.prems [of 0] by simp
  moreover have "allowed R (fst (each_stat f ss))" by (rule Cons.IH) (use Cons.prems in force)
  ultimately show ?case by (auto simp: allowed_def split: prod.splits outcome.splits)
qed

lemma aggregate_safe: "safe wf_table (update_panic p env) (each_stat (update_aggregate p))"
proof (rule safeI)
  show "pres wf_table (each_stat (update_aggregate p))" by (rule each_stat_wf) (rule update_aggregate_pres)
  fix st
  assume wf: "wf_table st"
  show "allowed (update_panic p env) (fst (each_stat (update_aggregate p) st))"
  proof (rule each_stat_outcome)
    fix i
    assume "i < length st"
    with wf have "stat_kind (i = 0) (st ! i)" by (simp add: wf_table_def)
    from update_aggregate_kind [OF this, of p]
    show "allowed (update_panic p env) (fst (update_aggregate p (st ! i)))"
      by (auto simp: update_panic_def)
  qed
qed

lemma upd_aggregates_safe: "safe (beside wf_stats) (update_panic p env) (upd_aggregates p)"
  unfolding upd_aggregates_def
  by (intro safe_rules safe_pure_within [OF aggregate_safe]) (simp_all add: wf_stats_def)

lemma sample_safe: "iterates order \<Longrightarrow> safe (beside wf_stats) (update_panic p env) (sample p env order)"
  unfolding sample_def
  by (intro safe_rules upd_loadavg_safe upd_meminfo_safe upd_faasm_safe upd_net_safe upd_cpu_safe
      upd_events_safe upd_io_safe update_panic_overflow)

lemma stats_update_safe:
  "iterates order \<Longrightarrow> safe (beside wf_stats) (update_panic p env) (stats_update p env order)"
  unfolding stats_update_def by (intro safe_rules sample_safe upd_aggregates_safe)


lemma wf_stats_reset: "wf_stats s \<Longrightarrow> wf_stats (s\<lparr>st_table := map stat_reset (st_table s)\<rparr>)"
  by (simp add: wf_stats_def wf_table_def)

definition unwrap_panic :: "panic \<Rightarrow> bool" where
  "unwrap_panic q \<longleftrightarrow> (\<exists>e. q = UnwrapErr e)"

lemma safe_unwrap:
  assumes "safe I (\<lambda>_. False) m"
  shows "safe I unwrap_panic (adapt unwrap_res m)"
  using assms unfolding safe_def
  by (rule spec_adapt) (auto simp: allowed_def unwrap_panic_def elim: unwrap_res.elims)

lemma range_events_safe:
  assumes "iterates order"
  shows "safe (beside (\<lambda>s. wf_events (fst s))) R (start_events env order)"
    "safe (beside (\<lambda>s. wf_events (fst s))) R (stop_events env order)"
  unfolding start_events_def stop_events_def
  by (rule event_loop_safe [OF _ assms], assumption, intro safe_rules)+

lemma begin_range_safe: "iterates order \<Longrightarrow> safe (beside wf_stats) unwrap_panic (begin_range env order)"
  unfolding begin_range_def
  by (intro safe_rules safe_on_state safe_unwrap safe_within [OF range_events_safe(1)])
    (simp_all add: wf_stats_reset, simp_all add: wf_stats_def)

lemma end_range_safe: "iterates order \<Longrightarrow> safe (beside wf_stats) unwrap_panic (end_range env order)"
  unfolding end_range_def
  by (intro safe_rules safe_on_state safe_unwrap safe_within [OF range_events_safe(2)])
    (simp_all, simp_all add: wf_stats_def)

lemma Stats_new_wf:
  assumes "Stats_new env w = Some (s, w')"
  shows "wf_stats s"
proof -
  from assms obtain ev w1 where ev: "EventStat_new env w = Some (ev, w1)" and s: "st_events s = ev"
      "st_cpu s = CpuStat_new" "st_io s = IoStat_new" "st_table s = STATS_INIT"
    by (auto simp: Stats_new_def split: option.splits)
  have "wf_events ev" using EventStat_new_wf [OF ev] by simp
  with s show ?thesis by (simp add: wf_stats_def wf_cpu_new wf_io_new wf_table_init)
qed


lemma Stats_new_total:
  assumes "\<And>ev t. \<exists>e. pc_build env t ev N = Inl e"
  shows "\<exists>s w'. Stats_new env w = Some (s, w')"
  using EventStat_new_total [OF assms, of w] by (auto simp: Stats_new_def)

text \<open>
  C12. Whatever the files of the host contain and however each system call ends, an update of well-formed
  statistics leaves well-formed statistics, also when it stops half-way with an error or a panic: no
  index is ever out of bounds, no statistic changes its kind, no \<open>unwrap\<close> fails. The only panics are the
  ones of \<open>update_panic\<close>; the same invariant is kept by opening and closing a range, whose only panic is
  the \<open>unwrap\<close> of a failing performance counter.
\<close>

theorem stats_update_keeps_invariant:
  assumes "iterates order" "wf_stats s"
  shows "wf_stats (fst (snd (stats_update p env order (s, w)))) \<and>
    allowed (update_panic p env) (fst (stats_update p env order (s, w))) \<and>
    wf_stats (fst (snd (begin_range env order (s, w)))) \<and> allowed unwrap_panic (fst (begin_range env order (s, w))) \<and>
    wf_stats (fst (snd (end_range env order (s, w)))) \<and> allowed unwrap_panic (fst (end_range env order (s, w)))"
  using safeD [OF stats_update_safe [OF assms(1), of p env], of "(s, w)"]
    safeD [OF begin_range_safe [OF assms(1), of env], of "(s, w)"]
    safeD [OF end_range_safe [OF assms(1), of env], of "(s, w)"] assms(2)
  by (simp add: beside_def)

definition demo_files :: "string \<Rightarrow> string" where
  "demo_files f =
    (if f = ''/proc/loadavg'' then ''0.5 0.4 0.3 1/2 3''
     else if f = ''/proc/meminfo'' then ''MemTotal:       16 kB'' @ [CHR 0x0A] @ ''Active: 3 kB''
     else if f = ''/tmp/faasm-monitor'' then ''active,3,waiting,1''
     else if f = ''/proc/net/dev'' then '' eth0: 100 2 0 0 0 0 0 0 300 4 0 0 0 0 0 0''
     else if f = ''/proc/stat'' then ''cpu  1 2 3 4 5 6 7 0 0 0'' @ [CHR 0x0A] @ ''ctxt 9''
     else if f = ''/proc/diskstats'' then ''8 0 sda 1 2 3 4 5 6 7 8''
     else [])"

definition demo_env :: os where
  "demo_env = static_os demo_files (\<lambda>_. False)"

definition demo_stats :: Stats where
  "demo_stats = \<lparr>in_range = False, host_prefix = ''h_'', net_iface = ''eth0'', rdbuf = [], fp_loadavg = None,
     fp_meminfo = None, fp_net = None, fp_faasm = None, st_cpu = CpuStat_new,
     st_events = \<lparr>events = [(EventCycles, [0, 1])]\<rparr>, st_table = STATS_INIT, net_rx_ref = 0,
     net_rxe_ref = 0, net_tx_ref = 0, net_txe_ref = 0, st_io = IoStat_new\<rparr>"

lemma wf_demo_stats: "wf_stats demo_stats"
  by (simp add: wf_stats_def demo_stats_def wf_cpu_new wf_io_new wf_table_init wf_events_def hm_inv_def
      event_table_def)

theorem stats_update_keeps_invariant_witness:
  "wf_stats demo_stats \<and>
   wf_stats (fst (snd (stats_update Release demo_env rev (demo_stats, start_world)))) \<and>
   allowed (update_panic Release demo_env) (fst (stats_update Release demo_env rev (demo_stats, start_world)))"
  using stats_update_keeps_invariant [OF iterates_rev wf_demo_stats] wf_demo_stats by blast

end
