(* ===== verification/Readers.thy ===== *)
theory Readers
  imports Safety
begin

text \<open>
  What the readers of the memory, faasm and network files store, on files as their writers print them.
\<close>

section \<open>Storing several values\<close>

definition put_value :: "WhichStat \<times> StatValue \<Rightarrow> Stat list \<Rightarrow> Stat list" where
  "put_value wv t = t[stat_index (fst wv) := (t ! stat_index (fst wv))\<lparr>value_now := snd wv\<rparr>]"

definition put_values :: "(WhichStat \<times> StatValue) list \<Rightarrow> Stat list \<Rightarrow> Stat list" where
  "put_values ps t = fold put_value ps t"

definition storable :: "WhichStat \<times> StatValue \<Rightarrow> bool" where
  "storable wv \<longleftrightarrow> fst wv \<noteq> TotalStatCount \<and> is_float (snd wv) = (fst wv = LoadAvg1min)"

lemma put_now_run:
  assumes "wf_stats s" "w \<noteq> TotalStatCount"
  shows "put_now w v (s, c) = (Ok (), (s\<lparr>st_table := put_value (w, v) (st_table s)\<rparr>, c))"
  using assms set_now_ok [of "st_table s" w v]
  by (simp add: put_now_def pure_within_def zoom_def put_value_def wf_stats_def)

lemma put_value_wf: "storable wv \<Longrightarrow> wf_table t \<Longrightarrow> wf_table (put_value wv t)"
  using presD [OF set_now_pres [of "snd wv" "fst wv"], of t] set_now_ok [of t "fst wv" "snd wv"]
  by (simp add: storable_def put_value_def)

lemma wf_stats_put: "storable wv \<Longrightarrow> wf_stats s \<Longrightarrow> wf_stats (s\<lparr>st_table := put_value wv (st_table s)\<rparr>)"
  using put_value_wf by (simp add: wf_stats_def)

lemma get_now_put_value:
  assumes "wf_table t" "fst wv \<noteq> TotalStatCount" "u \<noteq> TotalStatCount"
  shows "get_now (put_value wv t) u = (if u = fst wv then snd wv else get_now t u)"
  using get_now_set_now [OF assms, of "snd wv"] set_now_ok [OF assms(1,2), of "snd wv"]
  by (simp add: put_value_def)

lemma put_values_simps [simp]:
  "put_values [] t = t" "put_values (wv # ps) t = put_values ps (put_value wv t)"
  by (simp_all add: put_values_def)

lemma put_values_wf: "list_all storable ps \<Longrightarrow> wf_table t \<Longrightarrow> wf_table (put_values ps t)"
  by (induction ps arbitrary: t) (simp_all add: put_value_wf)

text \<open>The last value stored for a statistic wins.\<close>

lemma get_now_put_values:
  assumes "list_all storable ps" "wf_table t" "u \<noteq> TotalStatCount"
  shows "get_now (put_values ps t) u = (case map_of (rev ps) u of None \<Rightarrow> get_now t u | Some v \<Rightarrow> v)"
  using assms(1,2)
proof (induction ps arbitrary: t)
  case Nil
  then show ?case by simp
next
  case (Cons wv ps)
  have wv: "fst wv \<noteq> TotalStatCount" "wf_table (put_value wv t)"
    using Cons.prems put_value_wf by (auto simp: storable_def)
  have "get_now (put_values (wv # ps) t) u = get_now (put_values ps (put_value wv t)) u" by simp
  also have "\<dots> = (case map_of (rev ps) u of None \<Rightarrow> get_now (put_value wv t) u | Some v \<Rightarrow> v)"
    using Cons.prems wv by (intro Cons.IH) simp_all
  finally show ?case
    using get_now_put_value [OF Cons.prems(2) wv(1) assms(3)]
    by (cases wv) (auto simp: map_add_def split: option.splits)
qed

lemma for_each_put_run:
  assumes "wf_stats s" "list_all storable ps"
  shows "for_each (\<lambda>wv. put_now (fst wv) (snd wv)) ps (s, c) =
    (Ok (), (s\<lparr>st_table := put_values ps (st_table s)\<rparr>, c))"
  using assms
proof (induction ps arbitrary: s)
  case Nil
  then show ?case by (simp add: ret_def)
next
  case (Cons wv ps)
  have sv: "storable wv" using Cons.prems(2) by simp
  have "put_now (fst wv) (snd wv) (s, c) = (Ok (), (s\<lparr>st_table := put_value wv (st_table s)\<rparr>, c))"
    using put_now_run [OF Cons.prems(1), of "fst wv" "snd wv" c] sv by (simp add: storable_def)
  with Cons.IH [OF wf_stats_put [OF sv Cons.prems(1)]] Cons.prems(2) show ?case
    by (simp add: seq_def bind_def)
qed

section \<open>Memory\<close>

definition mem_units :: "(string \<times> i64) list" where
  "mem_units = [('' kB'', 1024), ('' MB'', 1024 * 1024), ('' GB'', 1024 * 1024 * 1024), ('' B'', 1), ([], 1)]"

definition meminfo_text :: "string \<Rightarrow> nat \<Rightarrow> i64 \<Rightarrow> string \<Rightarrow> string" where
  "meminfo_text name k v unit_text = name @ CHR '':'' # replicate k (CHR 0x20) @ show_i64 v @ unit_text"

definition proper_name :: "string \<Rightarrow> bool" where
  "proper_name n \<longleftrightarrow> n \<noteq> [] \<and> CHR '':'' \<notin> set n \<and> plain_char (hd n) \<and> plain_char (last n)"

lemma strip_unit_none: "strip_suffix u (fst vm) = None \<Longrightarrow> strip_unit u f vm = vm"
  by (simp add: strip_unit_def)

lemma strip_suffix_number: "u \<noteq> [] \<Longrightarrow> last u \<notin> number_chars \<Longrightarrow> strip_suffix u (show_i64 v) = None"
  unfolding strip_suffix_None
  using i64_text.show_chars [of v] i64_text.show_not_Nil [of v]
  by (metis append_is_Nil_conv last_appendR last_in_set subsetD)

lemma trim_end_number [simp]: "trim_end (show_i64 v @ [CHR 0x20]) = show_i64 v"
  using trim_end_spaces [of "show_i64 v" 1] trim_end_id [of "show_i64 v" "[]"] i64_text.show_not_Nil [of v]
    i64_text.show_ends_plain [of v]
  by simp

lemma mem_value_units:
  assumes "(u, f) \<in> set mem_units"
  shows "strip_unit ''B'' 1 (strip_unit ''GB'' (1024 * 1024 * 1024) (strip_unit ''MB'' (1024 * 1024)
    (strip_unit ''kB'' 1024 (show_i64 v @ u, 1)))) = (show_i64 v, f)"
proof -
  have num: "strip_suffix ''kB'' (show_i64 v) = None" "strip_suffix ''MB'' (show_i64 v) = None"
      "strip_suffix ''GB'' (show_i64 v) = None" "strip_suffix ''B'' (show_i64 v) = None"
    by (simp_all add: strip_suffix_number number_chars_def)
  show ?thesis
    using assms num by (auto simp: mem_units_def strip_unit_def strip_suffix_def)
qed

lemma parse_meminfo_text:
  assumes "proper_name n" "(u, f) \<in> set mem_units"
  shows "parse_meminfo_line p (meminfo_text n k v u) = obind (smul p v f) (\<lambda>b. Ok (n, b))"
proof -
  have ends: "show_i64 v @ u \<noteq> []" "plain_char (hd (show_i64 v @ u))" "plain_char (last (show_i64 v @ u))"
    using i64_text.show_not_Nil [of v] i64_text.show_ends_plain [of v] assms(2)
    by (auto simp: mem_units_def plain_char_def ascii_white_def)
  have tr: "trim (replicate k (CHR 0x20) @ show_i64 v @ u) = show_i64 v @ u"
    using trim_padded [OF ends, of k 0] by simp
  have nm: "trim n = n" using assms(1) by (auto simp: proper_name_def intro: trim_id)
  have "parse_meminfo_line p (meminfo_text n k v u) =
      (let vm = strip_unit ''B'' 1 (strip_unit ''GB'' (1024 * 1024 * 1024) (strip_unit ''MB'' (1024 * 1024)
        (strip_unit ''kB'' 1024 (show_i64 v @ u, 1)))) in
      obind (with_context ''Parsing meminfo value'' (parse_i64 (fst vm))) (\<lambda>vnum.
      obind (smul p vnum (snd vm)) (\<lambda>b. Ok (n, b))))"
    using assms(1) by (simp add: parse_meminfo_line_def meminfo_text_def context_opt_def proper_name_def Let_def tr nm)
  then show ?thesis
    unfolding mem_value_units [OF assms(2)] by (simp add: i64_text.parse_show)
qed


text \<open>A file that can be opened and read at any time, always with the same text.\<close>

definition serves :: "os \<Rightarrow> string \<Rightarrow> string \<Rightarrow> bool" where
  "serves env path b \<longleftrightarrow> (\<forall>t. os_open env t path = None \<and> os_read env t path = Inr b \<and> os_seek env t path = None)"

definition opened_as :: "string \<Rightarrow> File option \<Rightarrow> bool" where
  "opened_as path f \<longleftrightarrow> f = None \<or> f = Some (File path)"

lemma ensure_open_run:
  assumes "serves env path b" "opened_as path (get s)"
  shows "ensure_open (sys_open env path) get put (s, w) =
    (Ok (File path), if get s = None then (put (File path) s, tick w) else (s, w))"
  using assms
  by (auto simp: ensure_open_def bind_def seq_def get_state_def gets_def sys_open_def unit_call_def ret_def
      on_state_def modify_def serves_def opened_as_def)

lemma reread_run:
  assumes "serves env path b"
  shows "reread env (File path) buf (s, w) = (Ok b, (buf b (buf [] s), tick (tick w)))"
  using assms by (simp add: reread_Ok serves_def)

type_synonym mem_entry = "string \<times> nat \<times> i64 \<times> string \<times> i64"

definition mem_entry_ok :: "mem_entry \<Rightarrow> bool" where
  "mem_entry_ok e = (case e of (n, k, v, u, f) \<Rightarrow>
     proper_name n \<and> CHR 0x0A \<notin> set n \<and> (u, f) \<in> set mem_units \<and> sint v * sint f = sint (v * f))"

definition mem_entry_text :: "mem_entry \<Rightarrow> string" where
  "mem_entry_text e = (case e of (n, k, v, u, f) \<Rightarrow> meminfo_text n k v u)"

definition mem_values :: "mem_entry list \<Rightarrow> (WhichStat \<times> StatValue) list" where
  "mem_values es = List.map_filter
     (\<lambda>(n, k, v, u, f). map_option (\<lambda>w. (w, StatInt (v * f))) (meminfo_stat n)) es"

lemma mem_values_simps [simp]:
  "mem_values [] = []"
  "mem_values ((n, k, v, u, f) # es) =
    (case meminfo_stat n of None \<Rightarrow> mem_values es | Some w \<Rightarrow> (w, StatInt (v * f)) # mem_values es)"
  by (simp_all add: mem_values_def List.map_filter_simps split: option.splits)

lemma mem_values_storable: "list_all storable (mem_values es)"
  by (induction es) (auto simp: storable_def split: option.splits dest: meminfo_stat_not_special)

lemma number_text_no_newline: "CHR 0x0A \<notin> set (show_i64 v)"
  using i64_text.show_chars [of v] by (auto simp: number_chars_def)

lemma mem_entry_proper_line: "mem_entry_ok e \<Longrightarrow> proper_line (mem_entry_text e)"
proof -
  assume ok: "mem_entry_ok e"
  obtain n k v u f where e: "e = (n, k, v, u, f)" by (cases e)
  have u: "CHR 0x0A \<notin> set u \<and> plain_char (last (show_i64 v @ u))"
    using ok i64_text.show_ends_plain [of v]
    by (auto simp: e mem_entry_ok_def mem_units_def plain_char_def ascii_white_def)
  show ?thesis
    using ok u number_text_no_newline [of v] i64_text.show_not_Nil [of v]
    by (auto simp: e mem_entry_ok_def mem_entry_text_def meminfo_text_def proper_line_def proper_name_def)
qed

lemma meminfo_line_text:
  assumes "mem_entry_ok (n, k, v, u, f)"
  shows "meminfo_line p (mem_entry_text (n, k, v, u, f)) =
    (case meminfo_stat n of Some w \<Rightarrow> put_now w (StatInt (v * f)) | None \<Rightarrow> ret ())"
  using assms parse_meminfo_text [of n u f p k v]
  by (simp add: meminfo_line_def mem_entry_text_def mem_entry_ok_def arith_eval split: option.splits)

lemma meminfo_lines_text:
  "list_all mem_entry_ok es \<Longrightarrow> for_each (meminfo_line p) (map mem_entry_text es) =
     for_each (\<lambda>wv. put_now (fst wv) (snd wv)) (mem_values es)"
proof (induction es)
  case (Cons e es)
  then show ?case
    by (cases e) (auto simp: meminfo_line_text seq_def split: option.splits)
qed simp

text \<open>
  C36. Reading a memory file as the kernel prints it, \<open>name: n kB\<close>, or with one of the other units: the
  reader succeeds, and the statistic of each of the five known names holds the number of bytes of its
  last line; lines with other names, and all other statistics, are left alone.
\<close>

theorem meminfo_reads_kernel_file:
  assumes "wf_stats s" "opened_as ''/proc/meminfo'' (fp_meminfo s)" "list_all mem_entry_ok es"
    and "serves env ''/proc/meminfo'' (file_of (map mem_entry_text es))"
  shows "\<exists>s' w'. upd_meminfo p env (s, w) = (Ok (), (s', w')) \<and> wf_stats s' \<and>
    (\<forall>u. u \<noteq> TotalStatCount \<longrightarrow> get_now (st_table s') u =
      (case map_of (rev (mem_values es)) u of None \<Rightarrow> get_now (st_table s) u | Some v \<Rightarrow> v))"
proof -
  let ?b = "file_of (map mem_entry_text es)"
  define s1 where "s1 = put_rdbuf ?b (put_rdbuf [] (if fp_meminfo s = None
    then s\<lparr>fp_meminfo := Some (File ''/proc/meminfo'')\<rparr> else s))"
  have s1: "wf_stats s1" "st_table s1 = st_table s" using assms(1) by (auto simp: s1_def put_rdbuf_def)
  have ls: "trimmed_lines ?b = map mem_entry_text es"
    by (rule trimmed_lines_file) (use assms(3) mem_entry_proper_line in \<open>auto simp: list_all_iff\<close>)
  have "\<exists>w1. upd_meminfo p env (s, w) = for_each (meminfo_line p) (trimmed_lines ?b) (s1, w1)"
    by (cases "fp_meminfo s = None")
      (simp_all add: upd_meminfo_def bind_def ensure_open_run [OF assms(4), of fp_meminfo s, OF assms(2)]
        reread_run [OF assms(4)] s1_def, auto)
  then obtain w1 where "upd_meminfo p env (s, w) =
      (Ok (), (s1\<lparr>st_table := put_values (mem_values es) (st_table s)\<rparr>, w1))"
    using meminfo_lines_text [OF assms(3), of p] for_each_put_run [OF s1(1) mem_values_storable]
    by (auto simp: ls s1(2))
  moreover have "wf_stats (s1\<lparr>st_table := put_values (mem_values es) (st_table s)\<rparr>)"
    using s1 put_values_wf [OF mem_values_storable] by (simp add: wf_stats_def)
  moreover have "get_now (put_values (mem_values es) (st_table s)) u =
      (case map_of (rev (mem_values es)) u of None \<Rightarrow> get_now (st_table s) u | Some v \<Rightarrow> v)"
    if "u \<noteq> TotalStatCount" for u
    using get_now_put_values [OF mem_values_storable _ that] assms(1) by (simp add: wf_stats_def)
  ultimately show ?thesis by auto
qed


definition demo_memory :: "mem_entry list" where
  "demo_memory = [(''MemTotal'', 7, 16, '' kB'', 1024), (''Active(anon)'', 1, 5, '' kB'', 1024),
     (''HugePages_Total'', 3, 0, [], 1), (''Active'', 2, 3, '' kB'', 1024)]"

lemma demo_memory_ok: "list_all mem_entry_ok demo_memory"
  by (simp add: demo_memory_def mem_entry_ok_def proper_name_def mem_units_def plain_char_def ascii_white_def)

theorem meminfo_reads_kernel_file_witness:
  "\<exists>s' w'. upd_meminfo Dev (static_os (\<lambda>_. file_of (map mem_entry_text demo_memory)) (\<lambda>_. False))
      (demo_stats, start_world) = (Ok (), (s', w')) \<and>
    get_now (st_table s') MemTotal = StatInt 16384 \<and> get_now (st_table s') MemActive = StatInt 3072 \<and>
    get_now (st_table s') MemInactive = StatInt 0"
proof -
  let ?env = "static_os (\<lambda>_. file_of (map mem_entry_text demo_memory)) (\<lambda>_. False)"
  have sv: "serves ?env ''/proc/meminfo'' (file_of (map mem_entry_text demo_memory))"
    by (simp add: serves_def static_os_def)
  have op: "opened_as ''/proc/meminfo'' (fp_meminfo demo_stats)" by (simp add: opened_as_def demo_stats_def)
  obtain s' w' where run: "upd_meminfo Dev ?env (demo_stats, start_world) = (Ok (), (s', w'))"
    and vals: "\<forall>u. u \<noteq> TotalStatCount \<longrightarrow> get_now (st_table s') u =
      (case map_of (rev (mem_values demo_memory)) u of None \<Rightarrow> get_now (st_table demo_stats) u | Some v \<Rightarrow> v)"
    using meminfo_reads_kernel_file [OF wf_demo_stats op demo_memory_ok sv, of Dev start_world] by blast
  have "get_now (st_table demo_stats) MemInactive = StatInt 0"
    by (simp add: get_now_def demo_stats_def STATS_INIT_def Stat_int_def)
  then have "get_now (st_table s') MemTotal = StatInt 16384" "get_now (st_table s') MemActive = StatInt 3072"
    "get_now (st_table s') MemInactive = StatInt 0"
    using vals by (simp_all add: demo_memory_def meminfo_stat_def)
  with run show ?thesis by blast
qed

section \<open>The faasm monitor file\<close>

definition faasm_text :: "(string \<times> i64) list \<Rightarrow> string" where
  "faasm_text fs = join_with (CHR '','') (concat (map (\<lambda>(k, v). [k, show_i64 v]) fs))"

definition faasm_values :: "(string \<times> i64) list \<Rightarrow> (WhichStat \<times> StatValue) list" where
  "faasm_values fs = map (\<lambda>(k, v). (the (faasm_stat k), StatInt v)) fs"

definition faasm_ok :: "string \<times> i64 \<Rightarrow> bool" where
  "faasm_ok kv \<longleftrightarrow> faasm_stat (fst kv) \<noteq> None"

lemma faasm_key_plain:
  "faasm_stat k \<noteq> None \<Longrightarrow> k \<noteq> [] \<and> CHR '','' \<notin> set k \<and> plain_char (hd k) \<and> plain_char (last k)"
  by (auto simp: faasm_stat_def plain_char_def ascii_white_def split: if_splits)

lemma faasm_values_storable: "list_all faasm_ok fs \<Longrightarrow> list_all storable (faasm_values fs)"
  by (induction fs)
    (auto simp: faasm_values_def faasm_ok_def storable_def dest: faasm_stat_not_special)

lemma faasm_tuples:
  assumes "fs \<noteq> []" "list_all faasm_ok fs"
  shows "tuples (map trim (split_on (CHR '','') (faasm_text fs))) = map (\<lambda>(k, v). (k, show_i64 v)) fs"
proof -
  let ?ps = "concat (map (\<lambda>(k, v). [k, show_i64 v]) fs)"
  have pieces: "p \<noteq> [] \<and> CHR '','' \<notin> set p \<and> plain_char (hd p) \<and> plain_char (last p)" if "p \<in> set ?ps" for p
  proof -
    from that obtain k v where kv: "(k, v) \<in> set fs" "p = k \<or> p = show_i64 v" by auto
    have "faasm_stat k \<noteq> None" using assms(2) kv(1) by (auto simp: list_all_iff faasm_ok_def)
    then show ?thesis
      using kv(2) faasm_key_plain [of k] i64_text.show_chars [of v] i64_text.show_not_Nil [of v]
        i64_text.show_ends_plain [of v]
      by (auto simp: number_chars_def)
  qed
  have "?ps \<noteq> []" using assms(1) by (cases fs) auto
  then have "split_on (CHR '','') (faasm_text fs) = ?ps"
    unfolding faasm_text_def by (rule split_on_join) (use pieces in blast)
  moreover have "map trim ?ps = ?ps" by (rule map_idI) (use pieces trim_id in blast)
  moreover have "tuples ?ps = map (\<lambda>(k, v). (k, show_i64 v)) fs" by (induction fs) auto
  ultimately show ?thesis by simp
qed

lemma faasm_fields_text:
  "list_all faasm_ok fs \<Longrightarrow> for_each faasm_field (map (\<lambda>(k, v). (k, show_i64 v)) fs) =
     for_each (\<lambda>wv. put_now (fst wv) (snd wv)) (faasm_values fs)"
  by (induction fs)
    (auto simp: faasm_field_def faasm_values_def faasm_ok_def i64_text.parse_show split: option.splits)


lemma flock_sh_run: "flock_sh env (s, w) = (Ok (), (s, (tick w)\<lparr>flocked := os_flock env (clock w)\<rparr>))"
  by (simp add: flock_sh_def modify_def)

lemma ensure_open_adapt:
  assumes "serves env path b" "opened_as path (get s)"
  shows "ensure_open (adapt (with_context c) (sys_open env path)) get put (s, w) =
    (Ok (File path), if get s = None then (put (File path) s, tick w) else (s, w))"
  using assms
  by (auto simp: ensure_open_def bind_def seq_def get_state_def gets_def sys_open_def unit_call_def ret_def
      on_state_def modify_def serves_def opened_as_def adapt_def)

text \<open>
  Reading a non-empty faasm monitor file of the known fields, \<open>local_sched,1,waiting,2,...\<close>: the
  reader succeeds and stores each value in the statistic of its field, and nothing else.
\<close>

theorem faasm_reads_monitor_file:
  assumes "wf_stats s" "opened_as ''/tmp/faasm-monitor'' (fp_faasm s)" "fs \<noteq> []" "list_all faasm_ok fs"
    and "serves env ''/tmp/faasm-monitor'' (faasm_text fs)"
  shows "\<exists>s' w'. upd_faasm env (s, w) = (Ok (), (s', w')) \<and> wf_stats s' \<and>
    (\<forall>u. u \<noteq> TotalStatCount \<longrightarrow> get_now (st_table s') u =
      (case map_of (rev (faasm_values fs)) u of None \<Rightarrow> get_now (st_table s) u | Some v \<Rightarrow> v))"
proof -
  define s1 where "s1 = put_rdbuf (faasm_text fs) (put_rdbuf [] (if fp_faasm s = None
    then s\<lparr>fp_faasm := Some (File ''/tmp/faasm-monitor'')\<rparr> else s))"
  have s1: "wf_stats s1" "st_table s1 = st_table s" using assms(1) by (auto simp: s1_def put_rdbuf_def)
  let ?read = "for_each faasm_field (tuples (map trim (split_on (CHR '','') (faasm_text fs))))"
  have "\<exists>w1. upd_faasm env (s, w) = ?read (s1, w1)"
    by (cases "fp_faasm s = None")
      (simp_all add: upd_faasm_def bind_def seq_def ensure_open_adapt [OF assms(5), of fp_faasm s, OF assms(2)]
        flock_sh_run drop_guard_def reread_run [OF assms(5)] s1_def, auto)
  then obtain w1 where "upd_faasm env (s, w) =
      (Ok (), (s1\<lparr>st_table := put_values (faasm_values fs) (st_table s)\<rparr>, w1))"
    using faasm_fields_text [OF assms(4)] for_each_put_run [OF s1(1) faasm_values_storable [OF assms(4)]]
    by (auto simp: faasm_tuples [OF assms(3,4)] s1(2))
  moreover have "wf_stats (s1\<lparr>st_table := put_values (faasm_values fs) (st_table s)\<rparr>)"
    using s1 put_values_wf [OF faasm_values_storable [OF assms(4)]] by (simp add: wf_stats_def)
  moreover have "get_now (put_values (faasm_values fs) (st_table s)) u =
      (case map_of (rev (faasm_values fs)) u of None \<Rightarrow> get_now (st_table s) u | Some v \<Rightarrow> v)"
    if "u \<noteq> TotalStatCount" for u
    using get_now_put_values [OF faasm_values_storable [OF assms(4)] _ that] assms(1) by (simp add: wf_stats_def)
  ultimately show ?thesis by auto
qed

theorem faasm_reads_monitor_file_witness:
  "\<exists>s' w'. upd_faasm (static_os (\<lambda>_. ''active,3,waiting,1'') (\<lambda>_. False)) (demo_stats, start_world)
      = (Ok (), (s', w')) \<and>
    get_now (st_table s') FaasmActive = StatInt 3 \<and> get_now (st_table s') FaasmSuspended = StatInt 1"
proof -
  let ?env = "static_os (\<lambda>_. ''active,3,waiting,1'') (\<lambda>_. False)" and ?fs = "[(''active'', 3), (''waiting'', 1)]"
  have "faasm_text ?fs = ''active,3,waiting,1''" by code_simp
  then have sv: "serves ?env ''/tmp/faasm-monitor'' (faasm_text ?fs)"
    by (simp only: serves_def static_os_def os.simps simp_thms)
  have op: "opened_as ''/tmp/faasm-monitor'' (fp_faasm demo_stats)" by (simp add: opened_as_def demo_stats_def)
  have ok: "list_all faasm_ok ?fs" by (simp add: faasm_ok_def faasm_stat_def)
  obtain s' w' where run: "upd_faasm ?env (demo_stats, start_world) = (Ok (), (s', w'))"
    and vals: "\<forall>u. u \<noteq> TotalStatCount \<longrightarrow> get_now (st_table s') u =
      (case map_of (rev (faasm_values ?fs)) u of None \<Rightarrow> get_now (st_table demo_stats) u | Some v \<Rightarrow> v)"
    using faasm_reads_monitor_file [OF wf_demo_stats op _ ok sv, of start_world] by blast
  have "get_now (st_table s') FaasmActive = StatInt 3" "get_now (st_table s') FaasmSuspended = StatInt 1"
    using vals by (simp_all add: faasm_values_def faasm_stat_def)
  with run show ?thesis by blast
qed


text \<open>The lock is a part of the world that only the faasm reader touches.\<close>

definition unlocked :: "'s \<times> world \<Rightarrow> bool" where
  "unlocked c \<longleftrightarrow> \<not> flocked (snd c)"

lemma unlocked_calls: "pres unlocked (unit_call f)" "pres unlocked (val_call g)" "pres unlocked (on_state h)"
  by (rule presI; auto simp: unlocked_def unit_call_def val_call_def on_state_def modify_def)+

lemma unlocked_within: "pres unlocked m \<Longrightarrow> pres unlocked (within g put m)"
  unfolding within_def by (rule pres_zoom, assumption) (auto simp: unlocked_def split_beta)

lemma unlocked_pure_within: "pres unlocked (pure_within g put m)"
  unfolding pure_within_def by (rule pres_zoom_frame) (auto simp: unlocked_def)

lemma unlocked_get_state: "pres unlocked (get_state f)"
  unfolding get_state_def by (rule pres_gets)

lemma unlocked_sys: "pres unlocked (sys_open env path)" "pres unlocked (sys_read env fp)"
  "pres unlocked (sys_rewind env fp)" "pres unlocked (reread env fp buf)"
proof -
  show r: "pres unlocked (sys_read env fp)" "pres unlocked (sys_rewind env fp)" for fp
    unfolding sys_read_def sys_rewind_def by (rule unlocked_calls)+
  show "pres unlocked (sys_open env path)" unfolding sys_open_def by (intro rust_pres unlocked_calls)
  show "pres unlocked (reread env fp buf)" unfolding reread_def by (intro rust_pres unlocked_calls r)
qed

lemmas unlocked_rules = rust_pres unlocked_calls unlocked_within unlocked_pure_within unlocked_get_state unlocked_sys

lemma unlocked_put_now: "pres unlocked (put_now w v)"
  unfolding put_now_def by (rule unlocked_pure_within)

lemma unlocked_ensure_open: "pres unlocked opener \<Longrightarrow> pres unlocked (ensure_open opener get put)"
  unfolding ensure_open_def by (auto intro!: unlocked_rules split: option.splits)

lemma unlocked_guarded:
  assumes "\<And>x. pres unlocked (f x)"
  shows "pres unlocked (seq (flock_sh env) (bind (drop_guard m) f))"
proof (rule presI)
  fix c :: "'b \<times> world"
  obtain s w where c: "c = (s, w)" by (cases c)
  let ?w = "(tick w)\<lparr>flocked := os_flock env (clock w)\<rparr>"
  obtain r s' w' where m: "m (s, ?w) = (r, (s', w'))" by (metis prod.exhaust)
  have un: "unlocked (s', (tick w')\<lparr>flocked := False\<rparr>)" by (simp add: unlocked_def)
  show "unlocked (snd (seq (flock_sh env) (bind (drop_guard m) f) c))"
    using presD [OF assms un] un
    by (cases r) (simp_all add: c seq_def bind_def flock_sh_run drop_guard_def m)
qed

lemma unlocked_upd_faasm: "pres unlocked (upd_faasm env)"
proof -
  have "pres unlocked (faasm_field f)" for f
    unfolding faasm_field_def by (auto intro!: unlocked_rules unlocked_put_now split: option.splits)
  then show ?thesis
    unfolding upd_faasm_def
    by (intro pres_bind unlocked_ensure_open unlocked_guarded pres_for_each pres_adapt unlocked_sys)
qed

text \<open>
  C37. The shared lock on the faasm file never outlives its reader: from an unlocked world, however
  reading, seeking or parsing ends, the world is unlocked again.
\<close>

theorem faasm_lock_released:
  assumes "\<not> flocked w"
  shows "\<not> flocked (snd (snd (upd_faasm env (s, w))))"
  using presD [OF unlocked_upd_faasm, of "(s, w)" env] assms by (simp add: unlocked_def)

theorem faasm_lock_released_witness:
  "\<not> flocked (snd (snd (upd_faasm ((static_os (\<lambda>_. ''x'') (\<lambda>_. False))\<lparr>os_read := \<lambda>_ _. Inl (Errno 5)\<rparr>)
     (demo_stats, start_world))))"
  by (rule faasm_lock_released) (simp add: start_world_def)


section \<open>The network file\<close>

definition net_opened :: "Stats \<Rightarrow> Stats" where
  "net_opened s = (if fp_net s = None
     then s\<lparr>fp_net := Some (File ''/proc/net/dev''), net_iface := net_iface s @ '':''\<rparr> else s)"

lemma open_net_Ok:
  assumes "open_net env (s, w) = (Ok fp, (s', w'))"
  shows "s' = net_opened s \<and> (fp_net s = None \<longrightarrow> net_iface s \<noteq> [])"
  using assms
  by (auto simp: open_net_def prog_Ok_iff net_opened_def split: option.splits if_splits)

lemma net_counter_Ok:
  assumes "wf_stats s" "stat \<noteq> TotalStatCount"
  shows "net_counter p fs n stat get put (s, w) = (Ok (), c) \<longleftrightarrow>
    (\<exists>f v. nth_opt fs n = Some f \<and> parse_i64 f = Ok v \<and> ssub p v (get s) = Ok (v - get s) \<and>
      c = (put v (s\<lparr>st_table := put_value (stat, StatInt (v - get s)) (st_table s)\<rparr>), w))"
  using put_now_run [OF assms]
  by (auto simp: net_counter_def prog_Ok_iff expect_opt_def split: option.splits dest: ssub_Ok)

definition net_stored :: "i64 \<Rightarrow> i64 \<Rightarrow> i64 \<Rightarrow> i64 \<Rightarrow> Stats \<Rightarrow> Stats" where
  "net_stored rx rxe tx txe s =
    s\<lparr>net_rx_ref := rx, net_rxe_ref := rxe, net_tx_ref := tx,
      st_table := put_values [(NetRxBytes, StatInt (rx - net_rx_ref s)), (NetRxErrors, StatInt (rxe - net_rxe_ref s)),
        (NetTxBytes, StatInt (tx - net_tx_ref s)), (NetTxErrors, StatInt (txe - net_txe_ref s))] (st_table s),
      net_txe_ref := txe\<rparr>"

lemma net_counters_Ok:
  assumes "wf_stats s"
    and "seq (net_counter p fs 1 NetRxBytes net_rx_ref (\<lambda>v s. s\<lparr>net_rx_ref := v\<rparr>)) (
      seq (net_counter p fs 3 NetRxErrors net_rxe_ref (\<lambda>v s. s\<lparr>net_rxe_ref := v\<rparr>)) (
      seq (net_counter p fs 9 NetTxBytes net_tx_ref (\<lambda>v s. s\<lparr>net_tx_ref := v\<rparr>)) (
      seq (net_counter p fs 10 NetTxErrors net_txe_ref (\<lambda>v s. s\<lparr>net_txe_ref := v\<rparr>)) m))) (s, w) = (Ok (), c)"
  shows "\<exists>rx rxe tx txe. map_option parse_i64 (nth_opt fs 1) = Some (Ok rx) \<and>
    map_option parse_i64 (nth_opt fs 3) = Some (Ok rxe) \<and> map_option parse_i64 (nth_opt fs 9) = Some (Ok tx) \<and>
    map_option parse_i64 (nth_opt fs 10) = Some (Ok txe) \<and> m (net_stored rx rxe tx txe s, w) = (Ok (), c)"
proof -
  have st: "storable (w, StatInt v)" if "w \<in> {NetRxBytes, NetRxErrors, NetTxBytes, NetTxErrors}" for w v
    using that by (auto simp: storable_def)
  have wf: "wf_stats (u\<lparr>st_table := t\<rparr>)" if "wf_stats u" "wf_table t" for u t
    using that by (simp add: wf_stats_def)
  have t: "wf_table (st_table s)" using assms(1) by (simp add: wf_stats_def)
  show ?thesis
    using assms
    by (auto simp: seq_eq_Ok net_counter_Ok wf put_value_wf st t net_stored_def)
qed

lemma upd_net_Ok:
  assumes "wf_stats s" "upd_net p env (s, w) = (Ok (), (s', w'))"
  shows "\<exists>b line fs rx rxe tx txe.
    find (starts_with (net_iface (net_opened s))) (map trim (str_lines b)) = Some line \<and>
    fs = filter (\<lambda>f. f \<noteq> []) (map trim (split_whitespace line)) \<and> length fs = 17 \<and>
    parse_i64 (fs ! 1) = Ok rx \<and> parse_i64 (fs ! 3) = Ok rxe \<and> parse_i64 (fs ! 9) = Ok tx \<and>
    parse_i64 (fs ! 10) = Ok txe \<and> s' = net_stored rx rxe tx txe ((net_opened s)\<lparr>rdbuf := b\<rparr>)"
proof -
  from assms(2) obtain fp s0 w0 b w1 line where op: "open_net env (s, w) = (Ok fp, (s0, w0))"
    and fd: "find (starts_with (net_iface s0)) (map trim (str_lines b)) = Some line"
    and run: "(let fs = filter (\<lambda>f. f \<noteq> []) (map trim (split_whitespace line)) in
      seq (net_counter p fs 1 NetRxBytes net_rx_ref (\<lambda>v s. s\<lparr>net_rx_ref := v\<rparr>)) (
      seq (net_counter p fs 3 NetRxErrors net_rxe_ref (\<lambda>v s. s\<lparr>net_rxe_ref := v\<rparr>)) (
      seq (net_counter p fs 9 NetTxBytes net_tx_ref (\<lambda>v s. s\<lparr>net_tx_ref := v\<rparr>)) (
      seq (net_counter p fs 10 NetTxErrors net_txe_ref (\<lambda>v s. s\<lparr>net_txe_ref := v\<rparr>)) (
      if length fs \<noteq> 17
      then lift_o (Panic (Explicit (''Unexpected /proc/net/dev format: got '' @ show_nat (length fs)
        @ '' fields instead of expected 17'')))
      else ret ()))))) (s0\<lparr>rdbuf := b\<rparr>, w1) = (Ok (), (s', w'))"
    unfolding upd_net_def
    by (auto simp: bind_eq_Ok reread_Ok put_rdbuf_def expect_opt_def split: option.splits)
  have s0: "s0 = net_opened s" using open_net_Ok [OF op] by simp
  define fs where "fs = filter (\<lambda>f. f \<noteq> []) (map trim (split_whitespace line))"
  have wf: "wf_stats (s0\<lparr>rdbuf := b\<rparr>)" using assms(1) by (simp add: s0 net_opened_def)
  from net_counters_Ok [OF wf run [unfolded Let_def, folded fs_def]] obtain rx rxe tx txe where
    r: "map_option parse_i64 (nth_opt fs 1) = Some (Ok rx)" "map_option parse_i64 (nth_opt fs 3) = Some (Ok rxe)"
      "map_option parse_i64 (nth_opt fs 9) = Some (Ok tx)" "map_option parse_i64 (nth_opt fs 10) = Some (Ok txe)"
    and fin: "(if length fs \<noteq> 17
      then lift_o (Panic (Explicit (''Unexpected /proc/net/dev format: got '' @ show_nat (length fs)
        @ '' fields instead of expected 17'')))
      else ret ()) (net_stored rx rxe tx txe (s0\<lparr>rdbuf := b\<rparr>), w1) = (Ok (), (s', w'))"
    by blast
  have "length fs = 17" "s' = net_stored rx rxe tx txe (s0\<lparr>rdbuf := b\<rparr>)"
    using fin by (auto split: if_splits)
  moreover have "parse_i64 (fs ! 1) = Ok rx" "parse_i64 (fs ! 3) = Ok rxe" "parse_i64 (fs ! 9) = Ok tx"
    "parse_i64 (fs ! 10) = Ok txe"
    using r by (auto simp: nth_opt_def split: if_splits)
  ultimately show ?thesis
    unfolding s0 by (intro exI conjI) (rule fd [unfolded s0] fs_def | assumption)+
qed


lemma net_stored_simps [simp]:
  "net_rx_ref (net_stored rx rxe tx txe s) = rx" "net_rxe_ref (net_stored rx rxe tx txe s) = rxe"
  "net_tx_ref (net_stored rx rxe tx txe s) = tx" "net_txe_ref (net_stored rx rxe tx txe s) = txe"
  "net_iface (net_stored rx rxe tx txe s) = net_iface s" "fp_net (net_stored rx rxe tx txe s) = fp_net s"
  by (simp_all add: net_stored_def)

lemma net_opened_simps [simp]:
  "net_rx_ref (net_opened s) = net_rx_ref s" "net_rxe_ref (net_opened s) = net_rxe_ref s"
  "net_tx_ref (net_opened s) = net_tx_ref s" "net_txe_ref (net_opened s) = net_txe_ref s"
  "st_table (net_opened s) = st_table s" "fp_net (net_opened s) \<noteq> None"
  "wf_stats (net_opened s) = wf_stats s"
  by (auto simp: net_opened_def)

lemma net_stored_now:
  assumes "wf_stats s" "u \<noteq> TotalStatCount"
  shows "get_now (st_table (net_stored rx rxe tx txe s)) u =
    (if u = NetRxBytes then StatInt (rx - net_rx_ref s) else if u = NetRxErrors then StatInt (rxe - net_rxe_ref s)
     else if u = NetTxBytes then StatInt (tx - net_tx_ref s) else if u = NetTxErrors then StatInt (txe - net_txe_ref s)
     else get_now (st_table s) u)"
proof -
  let ?ps = "[(NetRxBytes, StatInt (rx - net_rx_ref s)), (NetRxErrors, StatInt (rxe - net_rxe_ref s)),
    (NetTxBytes, StatInt (tx - net_tx_ref s)), (NetTxErrors, StatInt (txe - net_txe_ref s))]"
  have "list_all storable ?ps" by (simp add: storable_def)
  moreover have "wf_table (st_table s)" using assms(1) by (simp add: wf_stats_def)
  moreover have "st_table (net_stored rx rxe tx txe s) = put_values ?ps (st_table s)" by (simp add: net_stored_def)
  ultimately show ?thesis using get_now_put_values [of ?ps "st_table s" u] assms(2) by auto
qed

text \<open>
  A successful reading of the network file, whatever it contains, reports for each of the four
  counters the difference to the reading before and remembers the new one; no other statistic changes.
  The colon is appended to the interface name when the file is opened and never again.
\<close>

theorem net_update_reports_growth:
  assumes "wf_stats s" "upd_net p env (s, w) = (Ok (), (s', w'))"
  shows "get_now (st_table s') NetRxBytes = StatInt (net_rx_ref s' - net_rx_ref s) \<and>
    get_now (st_table s') NetRxErrors = StatInt (net_rxe_ref s' - net_rxe_ref s) \<and>
    get_now (st_table s') NetTxBytes = StatInt (net_tx_ref s' - net_tx_ref s) \<and>
    get_now (st_table s') NetTxErrors = StatInt (net_txe_ref s' - net_txe_ref s) \<and>
    (\<forall>u. u \<notin> {NetRxBytes, NetRxErrors, NetTxBytes, NetTxErrors, TotalStatCount} \<longrightarrow>
      get_now (st_table s') u = get_now (st_table s) u) \<and>
    fp_net s' \<noteq> None \<and> net_iface s' = net_iface s @ (if fp_net s = None then '':'' else [])"
proof -
  from upd_net_Ok [OF assms] obtain b rx rxe tx txe where
    s': "s' = net_stored rx rxe tx txe ((net_opened s)\<lparr>rdbuf := b\<rparr>)" by blast
  have wf: "wf_stats ((net_opened s)\<lparr>rdbuf := b\<rparr>)" using assms(1) by simp
  show ?thesis
    unfolding s' by (simp add: net_stored_now [OF wf], simp add: net_opened_def)
qed

theorem net_update_reports_growth_witness:
  "wf_stats demo_stats \<and> (\<exists>s' w'. upd_net Dev demo_env (demo_stats, start_world) = (Ok (), (s', w')) \<and>
    get_now (st_table s') NetRxBytes = StatInt (net_rx_ref s' - net_rx_ref demo_stats) \<and>
    get_now (st_table s') MemTotal = get_now (st_table demo_stats) MemTotal)"
proof -
  have "fst (upd_net Dev demo_env (demo_stats, start_world)) = Ok ()" by code_simp
  then obtain s' w' where run: "upd_net Dev demo_env (demo_stats, start_world) = (Ok (), (s', w'))"
    by (metis prod.collapse)
  from net_update_reports_growth [OF wf_demo_stats run] run wf_demo_stats show ?thesis by blast
qed

definition net_text :: "nat \<Rightarrow> string \<Rightarrow> i64 list \<Rightarrow> string" where
  "net_text k iface xs = replicate k (CHR 0x20) @ join_with (CHR 0x20) ((iface @ '':'') # map show_i64 xs)"

definition line_text :: "string \<Rightarrow> bool" where
  "line_text l \<longleftrightarrow> CHR 0x0A \<notin> set l \<and> (l = [] \<or> last l \<noteq> CHR 0x0D)"

definition iface_name :: "string \<Rightarrow> bool" where
  "iface_name i \<longleftrightarrow> i \<noteq> [] \<and> list_all plain_char i"

lemma join_with_last: "xs \<noteq> [] \<Longrightarrow> last xs \<noteq> [] \<Longrightarrow> join_with c xs \<noteq> [] \<and> last (join_with c xs) = last (last xs)"
proof (induction xs)
  case (Cons x xs)
  then show ?case by (cases xs) auto
qed simp

lemma join_with_chars: "set (join_with c xs) \<subseteq> insert c (\<Union>(set ` set xs))"
proof (induction xs)
  case (Cons x xs)
  then show ?case by (cases xs) auto
qed simp

lemma net_fields_ok:
  assumes "iface_name i"
  shows "f \<in> set ((i @ '':'') # map show_i64 xs) \<Longrightarrow> f \<noteq> [] \<and> (\<forall>c \<in> set f. plain_char c)"
  using assms i64_text.show_plain i64_text.show_not_Nil
  by (auto simp: iface_name_def list_all_iff plain_char_def ascii_white_def)

lemma net_text_trim:
  assumes "iface_name i"
  shows "trim (net_text k i xs) = join_with (CHR 0x20) ((i @ '':'') # map show_i64 xs)"
    and "line_text (net_text k i xs)"
proof -
  let ?fs = "(i @ '':'') # map show_i64 xs" and ?j = "join_with (CHR 0x20) ((i @ '':'') # map show_i64 xs)"
  have l: "last ?fs \<in> set ?fs" by (rule last_in_set) simp
  have ne: "last ?fs \<noteq> []" using net_fields_ok [OF assms l] by blast
  have lst: "?j \<noteq> []" "last ?j = last (last ?fs)"
    using join_with_last [OF list.distinct(2) ne, of "CHR 0x20"] by blast+
  have pl: "plain_char (last ?j)"
    unfolding lst(2) using net_fields_ok [OF assms l] last_in_set by blast
  have "hd ?j = hd i" using assms by (cases xs) (auto simp: iface_name_def)
  then have "plain_char (hd ?j)" using assms by (cases i) (auto simp: iface_name_def)
  with lst(1) pl show "trim (net_text k i xs) = ?j"
    using trim_padded [of ?j k 0] by (simp add: net_text_def)
  have nl: "\<not> plain_char (CHR 0x0A)" by (simp add: plain_char_def ascii_white_def)
  have "CHR 0x0A \<notin> set f" if "f \<in> set ?fs" for f using net_fields_ok [OF assms that] nl by blast
  then have "CHR 0x0A \<notin> \<Union>(set ` set ?fs)" by blast
  then have "CHR 0x0A \<notin> insert (CHR 0x20) (\<Union>(set ` set ?fs))" by (simp only: insert_iff char.inject) simp
  then have "CHR 0x0A \<notin> set ?j" using join_with_chars by (rule contra_subsetD [rotated])
  then have "CHR 0x0A \<notin> set (net_text k i xs)" by (simp add: net_text_def del: join_with.simps)
  moreover have "last (net_text k i xs) = last ?j" using lst(1) by (simp add: net_text_def)
  ultimately show "line_text (net_text k i xs)"
    using pl by (auto simp: line_text_def plain_char_def ascii_white_def)
qed


lemma ssub_nonneg: "0 \<le> sint a \<Longrightarrow> 0 \<le> sint b \<Longrightarrow> ssub p a b = Ok (a - b)" for a b :: i64
proof -
  assume ab: "0 \<le> sint a" "0 \<le> sint b"
  have "sint (a - b) = sint a - sint b"
    using ab sint_range64 [of a] sint_range64 [of b]
    by (simp add: sint_word_ariths signed_take_bit_int_eq_self)
  then show ?thesis by (simp add: arith_eval)
qed

lemma net_line_found:
  assumes "iface_name i" "list_all line_text (before @ after)"
    and "list_all (\<lambda>l. \<not> starts_with (i @ '':'') (trim l)) before"
  shows "find (starts_with (i @ '':'')) (map trim (str_lines (file_of (before @ net_text k i xs # after)))) =
    Some (join_with (CHR 0x20) ((i @ '':'') # map show_i64 xs))"
proof -
  let ?ls = "before @ net_text k i xs # after"
  have "str_lines (file_of ?ls) = ?ls"
    by (rule str_lines_file) (use assms(2) net_text_trim(2) [OF assms(1)] in \<open>auto simp: list_all_iff line_text_def\<close>)
  moreover have "starts_with (i @ '':'') (join_with (CHR 0x20) ((i @ '':'') # map show_i64 xs))"
    by (cases xs) (simp_all add: starts_with_iff)
  moreover have "find P (map trim bs @ j # r) = Some j" if "list_all (\<lambda>l. \<not> P (trim l)) bs" "P j" for P bs j r
    using that by (induction bs) simp_all
  ultimately show ?thesis
    using assms(3) net_text_trim(1) [OF assms(1), of k xs] by (simp del: join_with.simps)
qed

lemma net_line_fields:
  assumes "iface_name i"
  shows "filter (\<lambda>f. f \<noteq> []) (map trim (split_whitespace (join_with (CHR 0x20) ((i @ '':'') # map show_i64 xs)))) =
    (i @ '':'') # map show_i64 xs"
proof -
  let ?fs = "(i @ '':'') # map show_i64 xs"
  have fs: "f \<noteq> [] \<and> (\<forall>c \<in> set f. plain_char c)" if "f \<in> set ?fs" for f
    using net_fields_ok [OF assms that] .
  have "split_whitespace (join_with (CHR 0x20) ?fs) = ?fs" by (rule split_whitespace_words) (use fs in auto)
  moreover have "map trim ?fs = ?fs" by (rule map_idI, rule trim_id) (use fs in auto)
  moreover have "filter (\<lambda>f. f \<noteq> []) ?fs = ?fs" by (rule filter_True) (use fs in blast)
  ultimately show ?thesis by (simp only:)
qed

lemma net_counters_run:
  assumes "wf_stats s" "length fs = 17"
    and "parse_i64 (fs ! 1) = Ok rx" "parse_i64 (fs ! 3) = Ok rxe" "parse_i64 (fs ! 9) = Ok tx"
      "parse_i64 (fs ! 10) = Ok txe"
    and "list_all (\<lambda>x. 0 \<le> sint x) [rx, rxe, tx, txe, net_rx_ref s, net_rxe_ref s, net_tx_ref s, net_txe_ref s]"
  shows "seq (net_counter p fs 1 NetRxBytes net_rx_ref (\<lambda>v s. s\<lparr>net_rx_ref := v\<rparr>)) (
      seq (net_counter p fs 3 NetRxErrors net_rxe_ref (\<lambda>v s. s\<lparr>net_rxe_ref := v\<rparr>)) (
      seq (net_counter p fs 9 NetTxBytes net_tx_ref (\<lambda>v s. s\<lparr>net_tx_ref := v\<rparr>)) (
      seq (net_counter p fs 10 NetTxErrors net_txe_ref (\<lambda>v s. s\<lparr>net_txe_ref := v\<rparr>)) m))) (s, w) =
    m (net_stored rx rxe tx txe s, w)"
proof -
  have run: "net_counter p fs n stat get put (u, w) =
      (Ok (), (put v (u\<lparr>st_table := put_value (stat, StatInt (v - get u)) (st_table u)\<rparr>), w))"
    if "wf_stats u" "stat \<noteq> TotalStatCount" "n < 17" "parse_i64 (fs ! n) = Ok v" "0 \<le> sint v" "0 \<le> sint (get u)"
    for u n stat v put and get :: "Stats \<Rightarrow> i64"
    using that assms(2) by (simp add: net_counter_Ok nth_opt_def ssub_nonneg)
  have st: "storable (NetRxBytes, StatInt v)" "storable (NetRxErrors, StatInt v)" "storable (NetTxBytes, StatInt v)" for v
    by (simp_all add: storable_def)
  have wf: "wf_stats (u\<lparr>st_table := t\<rparr>)" if "wf_stats u" "wf_table t" for u t
    using that by (simp add: wf_stats_def)
  have t: "wf_table (st_table s)" using assms(1) by (simp add: wf_stats_def)
  show ?thesis
    using assms(3-)
    by (simp add: seq_def bind_def run [of _ NetRxBytes 1 rx] run [of _ NetRxErrors 3 rxe] run [of _ NetTxBytes 9 tx]
        run [of _ NetTxErrors 10 txe] assms(1) wf put_value_wf st t net_stored_def del: One_nat_def)
qed

lemma open_net_run:
  assumes "serves env ''/proc/net/dev'' b" "opened_as ''/proc/net/dev'' (fp_net s)" "net_iface s \<noteq> []"
  shows "\<exists>w'. open_net env (s, w) = (Ok (File ''/proc/net/dev''), (net_opened s, w'))"
  using assms
  by (auto simp: open_net_def bind_def seq_def get_state_def gets_def sys_open_def unit_call_def ret_def
      on_state_def modify_def serves_def opened_as_def net_opened_def)




end
