(* ===== verification/Liveness.thy ===== *)
theory Liveness
  imports Readers
begin

text \<open>
  The update of \<^verbatim>\<open>statmon/src/stats.rs\<close> succeeds on a healthy host: when the system calls succeed and every
  file has its documented form, \<open>Stats::update\<close> returns \<open>Ok\<close> in the release profile, again and again.
\<close>

section \<open>Programs that succeed\<close>

fun is_ok :: "'a outcome \<Rightarrow> bool" where
  "is_ok (Ok x) = True"
| "is_ok r = False"

lemma is_ok_iff: "is_ok r \<longleftrightarrow> (\<exists>x. r = Ok x)"
  by (cases r) auto

definition succeeds :: "('s \<Rightarrow> bool) \<Rightarrow> ('s, 'a) rust \<Rightarrow> bool" where
  "succeeds I m \<longleftrightarrow> (\<forall>s. I s \<longrightarrow> (\<exists>x s'. m s = (Ok x, s') \<and> I s'))"

named_theorems succ_rules "success of the program combinators"

lemma succeedsI: "(\<And>s. I s \<Longrightarrow> \<exists>x s'. m s = (Ok x, s') \<and> I s') \<Longrightarrow> succeeds I m"
  by (simp add: succeeds_def)

lemma succeedsD: "succeeds I m \<Longrightarrow> I s \<Longrightarrow> \<exists>x s'. m s = (Ok x, s') \<and> I s'"
  by (simp add: succeeds_def)

lemma succ_bind [succ_rules]:
  assumes "succeeds I m" "\<And>x. returns I m x \<Longrightarrow> succeeds I (f x)"
  shows "succeeds I (bind m f)"
proof (rule succeedsI)
  fix s
  assume s: "I s"
  from succeedsD [OF assms(1) s] obtain x t where m: "m s = (Ok x, t)" "I t" by blast
  with s have "returns I m x" by (auto simp: returns_def)
  from succeedsD [OF assms(2) [OF this] m(2)] m(1) show "\<exists>x s'. bind m f s = (Ok x, s') \<and> I s'"
    by (simp add: bind_def)
qed

lemma succ_seq [succ_rules]: "succeeds I m \<Longrightarrow> succeeds I n \<Longrightarrow> succeeds I (seq m n)"
  unfolding seq_def by (rule succ_bind)

lemma succ_ret [succ_rules]: "succeeds I (ret x)"
  by (simp add: succeeds_def)

lemma succ_lift [succ_rules]: "is_ok r \<Longrightarrow> succeeds I (lift_o r)"
  by (auto simp: succeeds_def is_ok_iff)

lemma succ_for_each [succ_rules]: "(\<And>x. x \<in> set xs \<Longrightarrow> succeeds I (f x)) \<Longrightarrow> succeeds I (for_each f xs)"
  by (induction xs) (auto intro: succ_ret succ_seq)

lemma succ_get_state [succ_rules]: "succeeds I (get_state f)"
  by (auto simp: succeeds_def get_state_def gets_def)

lemma succ_gets [succ_rules]: "succeeds I (gets f)"
  by (auto simp: succeeds_def gets_def)

lemma succ_with_context [succ_rules]: "succeeds I m \<Longrightarrow> succeeds I (adapt (with_context c) m)"
  by (fastforce simp: succeeds_def adapt_def)

lemma succ_modify: "(\<And>s. I s \<Longrightarrow> I (f s)) \<Longrightarrow> succeeds I (modify f)"
  by (simp add: succeeds_def)

lemma succ_on_state: "(\<And>s. I s \<Longrightarrow> I (f s)) \<Longrightarrow> succeeds (beside I) (on_state f)"
  by (auto simp: succeeds_def beside_def)

lemma succ_unit_call: "(\<And>t. f t = None) \<Longrightarrow> succeeds (beside I) (unit_call f)"
  by (auto simp: succeeds_def beside_def unit_call_def)

lemma succ_val_call: "(\<And>t. \<exists>v. f t = Inr v) \<Longrightarrow> succeeds (beside I) (val_call f)"
proof (rule succeedsI)
  fix c
  assume "\<And>t. \<exists>v. f t = Inr v" "beside I c"
  then show "\<exists>x s'. val_call f c = (Ok x, s') \<and> beside I s'"
    by (cases c) (metis beside_def fst_conv val_call_Ok)
qed

lemma succ_sys_open: "serves env path b \<Longrightarrow> succeeds (beside I) (sys_open env path)"
  unfolding sys_open_def by (intro succ_rules succ_unit_call) (simp add: serves_def)

lemma succ_reread:
  assumes "serves env path b" "\<And>s t. I s \<Longrightarrow> I (buf t s)"
  shows "succeeds (beside I) (reread env (File path) buf)"
  using assms by (auto simp: succeeds_def beside_def reread_run [OF assms(1)])

lemma returns_reread: "serves env path b \<Longrightarrow> returns I (reread env (File path) buf) x \<longleftrightarrow> x = b \<and> (\<exists>s. I s)"
  by (auto simp: returns_def reread_run)

lemma succ_within:
  assumes "succeeds (beside A) m" "\<And>s. I s \<Longrightarrow> A (g s)" "\<And>s t. I s \<Longrightarrow> A t \<Longrightarrow> I (put t s)"
  shows "succeeds (beside I) (within g put m)"
proof (rule succeedsI)
  fix c
  assume c: "beside I c"
  obtain s w where sw: "c = (s, w)" by (cases c)
  have "beside A (g s, w)" using c assms(2) sw by (simp add: beside_def)
  from succeedsD [OF assms(1) this] obtain x t w' where "m (g s, w) = (Ok x, (t, w'))" "A t"
    by (auto simp: beside_def)
  then show "\<exists>x s'. within g put m c = (Ok x, s') \<and> beside I s'"
    using c sw assms(3) by (auto simp: within_Ok beside_def)
qed

lemma succ_pure_within:
  assumes "succeeds A m" "\<And>s. I s \<Longrightarrow> A (g s)" "\<And>s t. I s \<Longrightarrow> A t \<Longrightarrow> I (put t s)"
  shows "succeeds (beside I) (pure_within g put m)"
proof (rule succeedsI)
  fix c
  assume c: "beside I c"
  obtain s w where sw: "c = (s, w)" by (cases c)
  from succeedsD [OF assms(1) assms(2)] c sw obtain x t where "m (g s) = (Ok x, t)" "A t"
    by (fastforce simp: beside_def)
  then show "\<exists>x s'. pure_within g put m c = (Ok x, s') \<and> beside I s'"
    using c sw assms(3) by (auto simp: pure_within_Ok beside_def)
qed

lemma is_ok_release [simp]:
  "is_ok (uadd Release a b)" "is_ok (usub Release a b)" "is_ok (umul Release a b)"
  "is_ok (sadd Release a b)" "is_ok (ssub Release a b)" "is_ok (smul Release a b)"
  by simp_all

lemma is_ok_with_context [simp]: "is_ok (with_context c r) = is_ok r"
  by (cases r) simp_all

section \<open>The samplers\<close>

definition is_u64 :: "string \<Rightarrow> bool" where
  "is_u64 t = is_ok (parse_u64 t)"

definition cpu_line_ok :: "string \<Rightarrow> bool" where
  "cpu_line_ok line =
    (if starts_with ''cpu '' line then list_all is_u64 (take 10 (drop 1 (split_whitespace line)))
     else case strip_prefix ''ctxt '' line of Some v \<Rightarrow> is_u64 (trim v)
     | None \<Rightarrow> (case strip_prefix ''procs_running '' line of Some v \<Rightarrow> is_u64 (trim v)
     | None \<Rightarrow> (case strip_prefix ''procs_blocked '' line of Some v \<Rightarrow> is_u64 (trim v)
     | None \<Rightarrow> True)))"

definition cpu_live :: "CpuStat \<Rightarrow> bool" where
  "cpu_live s \<longleftrightarrow> wf_cpu s \<and> cpu_fp s = Some (File ''/proc/stat'')"

lemma cpu_live_updates [simp]:
  "cpu_live (s\<lparr>cpu_ctxt := v\<rparr>) = cpu_live s" "cpu_live (s\<lparr>cpu_running := v\<rparr>) = cpu_live s"
  "cpu_live (s\<lparr>cpu_blocked := v\<rparr>) = cpu_live s" "cpu_live (s\<lparr>ms_per_clk := v\<rparr>) = cpu_live s"
  "cpu_live s \<Longrightarrow> cpu_live (s\<lparr>cpu_totals := (cpu_totals s)[i := v]\<rparr>)"
  "cpu_live s \<Longrightarrow> cpu_live (s\<lparr>cpu_totals_last := cpu_totals s, cpu_ctxt_last := c\<rparr>)"
  "wf_cpu s \<Longrightarrow> cpu_live (s\<lparr>cpu_fp := Some (File ''/proc/stat'')\<rparr>)"
  by (simp_all add: cpu_live_def wf_cpu_def)

lemma zip_upt_snd: "x \<in> set (zip [0..<n] ys) \<Longrightarrow> snd x \<in> set (take n ys)"
  by (auto simp: set_zip in_set_conv_nth)

lemma cpu_field_succ: "is_u64 (snd x) \<Longrightarrow> succeeds cpu_live (cpu_field Release x)"
  by (auto simp: succeeds_def cpu_field_def is_u64_def is_ok_iff bind_def modify_def lift_o_def)

lemma cpu_line_succ: "cpu_line_ok line \<Longrightarrow> succeeds cpu_live (cpu_line Release line)"
  unfolding cpu_line_def cpu_line_ok_def
  by (auto intro!: succ_rules succ_modify cpu_field_succ
      simp: is_u64_def list_all_iff dest!: zip_upt_snd split: option.splits if_splits)

definition stat_file_ok :: "string \<Rightarrow> bool" where
  "stat_file_ok b = list_all cpu_line_ok (trimmed_lines b)"

lemma cpu_pass_succ:
  assumes "serves env ''/proc/stat'' b" "stat_file_ok b"
  shows "succeeds (beside (\<lambda>s. cpu_live (fst s))) (cpu_pass Release env)"
proof -
  have lines: "succeeds cpu_live (for_each (cpu_line Release) (trimmed_lines b))"
    using assms(2) by (intro succ_rules cpu_line_succ) (simp add: stat_file_ok_def list_all_iff)
  have body: "succeeds (beside (\<lambda>s. cpu_live (fst s))) (pure_within fst (\<lambda>c s. (c, snd s))
      (for_each (cpu_line Release) (trimmed_lines b)))"
    by (rule succ_pure_within [OF lines]) simp_all
  show ?thesis
  proof (rule succeedsI)
    fix c :: "(CpuStat \<times> string) \<times> world"
    assume c: "beside (\<lambda>s. cpu_live (fst s)) c"
    obtain s t w where sw: "c = ((s, t), w)" by (metis prod.exhaust)
    let ?s = "s\<lparr>cpu_totals_last := cpu_totals s, cpu_ctxt_last := cpu_ctxt s\<rparr>"
    have live: "cpu_live s" using c by (simp add: sw beside_def)
    then have "cpu_pass Release env c = pure_within fst (\<lambda>c s. (c, snd s))
        (for_each (cpu_line Release) (trimmed_lines b)) ((?s, b), tick (tick w))"
      by (simp add: sw cpu_pass_def bind_def seq_def get_state_def gets_def lift_o_def unwrap_opt_def cpu_live_def
          on_state_def modify_def reread_run [OF assms(1)] put_buf_def)
    with succeedsD [OF body, of "((?s, b), tick (tick w))"] live
    show "\<exists>x s'. cpu_pass Release env c = (Ok x, s') \<and> beside (\<lambda>s. cpu_live (fst s)) s'"
      by (simp add: beside_def)
  qed
qed


lemma cpu_update_succ:
  assumes "serves env ''/proc/stat'' b" "stat_file_ok b" "os_clk_tck env \<noteq> 0"
    and "wf_cpu s" "opened_as ''/proc/stat'' (cpu_fp s)"
  shows "\<exists>s' t' w'. cpu_update Release env ((s, t), w) = (Ok (), ((s', t'), w')) \<and> cpu_live s'"
proof -
  have pass: "\<exists>s' t' w'. cpu_pass Release env ((u, t), w) = (Ok (), ((s', t'), w')) \<and> cpu_live s'"
    if "cpu_live u" for u t w
    using succeedsD [OF cpu_pass_succ [OF assms(1,2)], of "((u, t), w)"] that by (auto simp: beside_def)
  show ?thesis
  proof (cases "cpu_fp s")
    case None
    let ?u = "s\<lparr>cpu_fp := Some (File ''/proc/stat''), ms_per_clk := 1000 div os_clk_tck env\<rparr>"
    have "cpu_live ?u" using assms(4) by simp
    from pass [OF this] obtain s1 t1 w1 where
      p1: "cpu_pass Release env ((?u, t), tick w) = (Ok (), ((s1, t1), w1))" "cpu_live s1" by blast
    from pass [OF p1(2)] obtain s2 t2 w2 where
      p2: "cpu_pass Release env ((s1, t1), w1) = (Ok (), ((s2, t2), w2))" "cpu_live s2" by blast
    have "cpu_update Release env ((s, t), w) = (Ok (), ((s2, t2), w2))"
      using None assms(1,3) p1(1) p2(1)
      by (simp add: cpu_update_def bind_def seq_def get_state_def gets_def sys_open_def unit_call_def serves_def
          ret_def on_state_def modify_def lift_o_def udiv_def)
    with p2(2) show ?thesis by blast
  next
    case (Some f)
    then have "cpu_live s" using assms(4,5) by (simp add: cpu_live_def opened_as_def)
    from pass [OF this] show ?thesis using Some by (simp add: cpu_update_opened)
  qed
qed

definition io_line_ok :: "os \<Rightarrow> string \<Rightarrow> bool" where
  "io_line_ok env line = (case io_device_fields env (io_ignore_set IoStat_new) line of
     None \<Rightarrow> True | Some fs \<Rightarrow> list_all is_u64 (take 8 fs))"

definition io_live :: "IoStat \<Rightarrow> bool" where
  "io_live s \<longleftrightarrow> wf_io s \<and> io_ignore_set s = io_ignore_set IoStat_new \<and> io_fp s = Some (File ''/proc/diskstats'')"

lemma io_live_updates [simp]:
  "io_live s \<Longrightarrow> io_live (s\<lparr>io_totals := (io_totals s)[i := v]\<rparr>)"
  "io_live s \<Longrightarrow> io_live (s\<lparr>io_totals_last := io_totals s\<rparr>)"
  by (simp_all add: io_live_def wf_io_def)

lemma io_field_succ: "is_u64 (snd x) \<Longrightarrow> succeeds io_live (io_field x)"
  unfolding io_field_def by (intro succ_rules succ_modify) (simp_all add: is_u64_def)

lemma io_line_succ:
  assumes "io_line_ok env line"
  shows "succeeds io_live (io_line env line)"
  unfolding io_line_def
proof (rule succ_bind [OF succ_gets])
  fix ig
  assume "returns io_live (gets io_ignore_set) ig"
  then have "ig = io_ignore_set IoStat_new" by (auto simp: io_live_def)
  with assms show "succeeds io_live (case io_device_fields env ig line of None \<Rightarrow> ret ()
      | Some fs \<Rightarrow> for_each io_field (zip [0..<8] fs))"
    by (auto simp: io_line_ok_def list_all_iff intro!: succ_rules io_field_succ dest!: zip_upt_snd split: option.splits)
qed

definition disk_file_ok :: "os \<Rightarrow> string \<Rightarrow> bool" where
  "disk_file_ok env b = list_all (io_line_ok env) (trimmed_lines b)"

lemma io_pass_succ:
  assumes "serves env ''/proc/diskstats'' b" "disk_file_ok env b" "io_live s"
  shows "\<exists>s' t' w'. io_pass env ((s, t), w) = (Ok (), ((s', t'), w')) \<and> io_live s'"
proof -
  have lines: "succeeds io_live (for_each (io_line env) (trimmed_lines b))"
    using assms(2) by (intro succ_rules io_line_succ) (simp add: disk_file_ok_def list_all_iff)
  let ?s = "s\<lparr>io_totals_last := io_totals s\<rparr>"
  from succeedsD [OF lines, of ?s] assms(3) obtain s' where
    "for_each (io_line env) (trimmed_lines b) ?s = (Ok (), s')" "io_live s'" by auto
  then have "io_pass env ((s, t), w) = (Ok (), ((s', b), tick (tick w)))"
    using assms(3)
    by (simp add: io_pass_def bind_def seq_def get_state_def gets_def lift_o_def unwrap_opt_def io_live_def
        on_state_def modify_def reread_run [OF assms(1)] put_buf_def pure_within_def zoom_def)
  with \<open>io_live s'\<close> show ?thesis by blast
qed

lemma io_update_succ:
  assumes "serves env ''/proc/diskstats'' b" "disk_file_ok env b" "wf_io s"
    and "io_ignore_set s = io_ignore_set IoStat_new" "opened_as ''/proc/diskstats'' (io_fp s)"
  shows "\<exists>s' t' w'. io_update env ((s, t), w) = (Ok (), ((s', t'), w')) \<and> io_live s'"
proof (cases "io_fp s")
  case None
  let ?u = "s\<lparr>io_fp := Some (File ''/proc/diskstats'')\<rparr>"
  have "io_live ?u" using assms(3,4) by (simp add: io_live_def wf_io_def)
  from io_pass_succ [OF assms(1,2) this] obtain s1 t1 w1 where
    p1: "io_pass env ((?u, t), tick w) = (Ok (), ((s1, t1), w1))" "io_live s1" by blast
  from io_pass_succ [OF assms(1,2) p1(2)] obtain s2 t2 w2 where
    p2: "io_pass env ((s1, t1), w1) = (Ok (), ((s2, t2), w2))" "io_live s2" by blast
  have "io_update env ((s, t), w) = (Ok (), ((s2, t2), w2))"
    using None assms(1) p1(1) p2(1)
    by (simp add: io_update_def bind_def seq_def get_state_def gets_def sys_open_def unit_call_def serves_def
        ret_def on_state_def modify_def)
  with p2(2) show ?thesis by blast
next
  case (Some f)
  then have "io_live s" using assms(3-) by (simp add: io_live_def opened_as_def)
  from io_pass_succ [OF assms(1,2) this] show ?thesis using Some by (simp add: io_update_opened)
qed


section \<open>The readers\<close>

definition loadavg_ok :: "string \<Rightarrow> bool" where
  "loadavg_ok b = (case split_once (CHR 0x20) b of None \<Rightarrow> False | Some (a, _) \<Rightarrow> is_ok (parse_f64 a))"

definition meminfo_ok :: "string \<Rightarrow> bool" where
  "meminfo_ok b = list_all (\<lambda>l. is_ok (parse_meminfo_line Release l)) (trimmed_lines b)"

definition faasm_file_ok :: "string \<Rightarrow> bool" where
  "faasm_file_ok b = list_all (\<lambda>(k, v). faasm_stat k \<noteq> None \<and> is_ok (parse_i64 v))
     (tuples (map trim (split_on (CHR '','') b)))"

definition net_fields :: "string \<Rightarrow> string list" where
  "net_fields line = filter (\<lambda>f. f \<noteq> []) (map trim (split_whitespace line))"

definition net_file_ok :: "string \<Rightarrow> string \<Rightarrow> bool" where
  "net_file_ok i b = (case find (starts_with (i @ '':'')) (map trim (str_lines b)) of
     None \<Rightarrow> False
   | Some line \<Rightarrow> length (net_fields line) = 17 \<and>
       list_all (\<lambda>n. is_ok (parse_i64 (net_fields line ! n))) [1, 3, 9, 10])"

definition healthy_stats :: "string \<Rightarrow> Stats \<Rightarrow> bool" where
  "healthy_stats i s \<longleftrightarrow> wf_stats s \<and> opened_as ''/proc/loadavg'' (fp_loadavg s) \<and>
     opened_as ''/proc/meminfo'' (fp_meminfo s) \<and> opened_as ''/tmp/faasm-monitor'' (fp_faasm s) \<and>
     opened_as ''/proc/net/dev'' (fp_net s) \<and> opened_as ''/proc/stat'' (cpu_fp (st_cpu s)) \<and>
     opened_as ''/proc/diskstats'' (io_fp (st_io s)) \<and> io_ignore_set (st_io s) = io_ignore_set IoStat_new \<and>
     i \<noteq> [] \<and> net_iface s = (if fp_net s = None then i else i @ '':'')"

lemma opened_as_self: "opened_as path (Some (File path))"
  by (simp add: opened_as_def)

lemma healthy_updates [simp]:
  "healthy_stats i (s\<lparr>rdbuf := b\<rparr>) = healthy_stats i s"
  "healthy_stats i (s\<lparr>in_range := r\<rparr>) = healthy_stats i s"
  "healthy_stats i (s\<lparr>net_rx_ref := v\<rparr>) = healthy_stats i s" "healthy_stats i (s\<lparr>net_rxe_ref := v\<rparr>) = healthy_stats i s"
  "healthy_stats i (s\<lparr>net_tx_ref := v\<rparr>) = healthy_stats i s" "healthy_stats i (s\<lparr>net_txe_ref := v\<rparr>) = healthy_stats i s"
  "healthy_stats i s \<Longrightarrow> healthy_stats i (s\<lparr>fp_loadavg := Some (File ''/proc/loadavg'')\<rparr>)"
  "healthy_stats i s \<Longrightarrow> healthy_stats i (s\<lparr>fp_meminfo := Some (File ''/proc/meminfo'')\<rparr>)"
  "healthy_stats i s \<Longrightarrow> healthy_stats i (s\<lparr>fp_faasm := Some (File ''/tmp/faasm-monitor'')\<rparr>)"
  "healthy_stats i s \<Longrightarrow> wf_table t \<Longrightarrow> healthy_stats i (s\<lparr>st_table := t\<rparr>)"
  by (simp_all add: healthy_stats_def opened_as_self wf_stats_def)

lemma healthy_wf: "healthy_stats i s \<Longrightarrow> wf_stats s" "healthy_stats i s \<Longrightarrow> wf_table (st_table s)"
  by (simp_all add: healthy_stats_def wf_stats_def)

lemma set_now_succ: "storable (w, v) \<Longrightarrow> succeeds wf_table (set_now w v)"
proof (rule succeedsI)
  fix t
  assume "storable (w, v)" "wf_table t"
  then show "\<exists>x t'. set_now w v t = (Ok x, t') \<and> wf_table t'"
    using set_now_ok [of t w v] presD [OF set_now_pres, of v w t] by (simp add: storable_def)
qed

lemma put_now_succ: "storable (w, v) \<Longrightarrow> succeeds (beside (healthy_stats i)) (put_now w v)"
  unfolding put_now_def by (rule succ_pure_within [OF set_now_succ]) (simp_all add: healthy_wf)

lemma healthy_read:
  assumes "serves env path b" "\<And>s. healthy_stats i s \<Longrightarrow> opened_as path (get s)"
    and "\<And>s. healthy_stats i s \<Longrightarrow> healthy_stats i (put (File path) s)"
    and "succeeds (beside (healthy_stats i)) (body b)"
  shows "succeeds (beside (healthy_stats i))
    (bind (ensure_open (sys_open env path) get put) (\<lambda>fp. bind (reread env fp put_rdbuf) body))"
proof (rule succeedsI)
  fix c
  assume c: "beside (healthy_stats i) c"
  obtain s w where sw: "c = (s, w)" by (cases c)
  have h: "healthy_stats i s" using c sw by (simp add: beside_def)
  let ?d = "if get s = None then (put (File path) s, tick w) else (s, w)"
  have op: "ensure_open (sys_open env path) get put (s, w) = (Ok (File path), ?d)"
    using assms(1) assms(2) [OF h] by (rule ensure_open_run)
  have d: "beside (healthy_stats i) (put_rdbuf b (put_rdbuf [] (fst ?d)), tick (tick (snd ?d)))"
    using h assms(3) by (simp add: beside_def put_rdbuf_def)
  have "bind (ensure_open (sys_open env path) get put) (\<lambda>fp. bind (reread env fp put_rdbuf) body) c =
      body b (put_rdbuf b (put_rdbuf [] (fst ?d)), tick (tick (snd ?d)))"
    by (simp add: sw bind_def op reread_run [OF assms(1)])
  with succeedsD [OF assms(4) d]
  show "\<exists>x s'. bind (ensure_open (sys_open env path) get put) (\<lambda>fp. bind (reread env fp put_rdbuf) body) c =
      (Ok x, s') \<and> beside (healthy_stats i) s'" by simp
qed

lemma healthy_opened:
  "healthy_stats i s \<Longrightarrow> opened_as ''/proc/loadavg'' (fp_loadavg s)"
  "healthy_stats i s \<Longrightarrow> opened_as ''/proc/meminfo'' (fp_meminfo s)"
  "healthy_stats i s \<Longrightarrow> opened_as ''/tmp/faasm-monitor'' (fp_faasm s)"
  "healthy_stats i s \<Longrightarrow> opened_as ''/proc/net/dev'' (fp_net s)"
  by (simp_all only: healthy_stats_def)

lemma upd_loadavg_succ:
  assumes "serves env ''/proc/loadavg'' b" "loadavg_ok b"
  shows "succeeds (beside (healthy_stats i)) (upd_loadavg env)"
  unfolding upd_loadavg_def
proof (rule healthy_read [OF assms(1) healthy_opened(1)])
  obtain a r where "split_once (CHR 0x20) b = Some (a, r)" "is_ok (parse_f64 a)"
    using assms(2) by (auto simp: loadavg_ok_def split: option.splits)
  then show "succeeds (beside (healthy_stats i))
      (bind (lift_o (context_opt ''Splitting 1min loadavg'' (split_once (CHR 0x20) b))) (\<lambda>sp.
       bind (lift_o (with_context ''Parsing 1min loadavg'' (parse_f64 (fst sp)))) (\<lambda>v.
       put_now LoadAvg1min (StatFloat v))))"
    by (intro succ_rules put_now_succ) (auto simp: context_opt_def storable_def)
qed simp_all

lemma meminfo_line_succ:
  assumes "is_ok (parse_meminfo_line Release l)"
  shows "succeeds (beside (healthy_stats i)) (meminfo_line Release l)"
proof -
  have "succeeds (beside (healthy_stats i)) (case meminfo_stat n of Some w \<Rightarrow> put_now w (StatInt v) | None \<Rightarrow> ret ())"
    for n v
    using meminfo_stat_not_special [of n]
    by (cases "meminfo_stat n") (auto intro!: succ_rules put_now_succ simp: storable_def)
  with assms show ?thesis unfolding meminfo_line_def by (intro succ_rules) simp_all
qed

lemma upd_meminfo_succ:
  assumes "serves env ''/proc/meminfo'' b" "meminfo_ok b"
  shows "succeeds (beside (healthy_stats i)) (upd_meminfo Release env)"
  unfolding upd_meminfo_def
  using assms(2)
  by (intro healthy_read [OF assms(1) healthy_opened(2)] succ_rules meminfo_line_succ)
    (simp_all add: meminfo_ok_def list_all_iff)

lemma faasm_field_succ:
  assumes "faasm_stat (fst f) \<noteq> None" "is_ok (parse_i64 (snd f))"
  shows "succeeds (beside (healthy_stats i)) (faasm_field f)"
proof -
  obtain w where w: "faasm_stat (fst f) = Some w" using assms(1) by blast
  with faasm_stat_not_special [OF this] assms(2) show ?thesis
    unfolding faasm_field_def by (auto intro!: succ_rules put_now_succ simp: storable_def)
qed

lemma upd_faasm_succ:
  assumes "serves env ''/tmp/faasm-monitor'' b" "faasm_file_ok b"
  shows "succeeds (beside (healthy_stats i)) (upd_faasm env)"
proof (rule succeedsI)
  fix c
  assume c: "beside (healthy_stats i) c"
  obtain s w where sw: "c = (s, w)" by (cases c)
  have h: "healthy_stats i s" using c sw by (simp add: beside_def)
  let ?d = "if fp_faasm s = None then (s\<lparr>fp_faasm := Some (File ''/tmp/faasm-monitor'')\<rparr>, tick w) else (s, w)"
  let ?fields = "tuples (map trim (split_on (CHR '','') b))"
  have fields: "succeeds (beside (healthy_stats i)) (for_each faasm_field ?fields)"
    using assms(2) by (intro succ_rules faasm_field_succ) (auto simp: faasm_file_ok_def list_all_iff)
  have d: "healthy_stats i (put_rdbuf b (put_rdbuf [] (fst ?d)))"
    using h by (simp add: put_rdbuf_def)
  have "\<exists>w1. upd_faasm env c = for_each faasm_field ?fields (put_rdbuf b (put_rdbuf [] (fst ?d)), w1)"
    using ensure_open_adapt [OF assms(1), of fp_faasm s, OF healthy_opened(3) [OF h]]
    by (simp add: upd_faasm_def sw bind_def seq_def flock_sh_run drop_guard_def reread_run [OF assms(1)]) auto
  with succeedsD [OF fields] d show "\<exists>x s'. upd_faasm env c = (Ok x, s') \<and> beside (healthy_stats i) s'"
    by (fastforce simp: beside_def)
qed


lemma healthy_opened_net: "healthy_stats i s \<Longrightarrow> healthy_stats i (net_opened s)"
  by (simp add: healthy_stats_def net_opened_def opened_as_self wf_stats_def)

lemma net_counter_succ:
  assumes "n < length fs" "is_ok (parse_i64 (fs ! n))" "stat \<noteq> TotalStatCount" "stat \<noteq> LoadAvg1min"
    and "\<And>v s. healthy_stats i s \<Longrightarrow> healthy_stats i (put v s)"
  shows "succeeds (beside (healthy_stats i)) (net_counter Release fs n stat get put)"
  unfolding net_counter_def
  using assms by (intro succ_rules put_now_succ succ_on_state)
    (auto simp: expect_opt_def nth_opt_def storable_def)

lemma upd_net_succ:
  assumes "serves env ''/proc/net/dev'' b" "net_file_ok i b"
  shows "succeeds (beside (healthy_stats i)) (upd_net Release env)"
proof (rule succeedsI)
  fix c
  assume c: "beside (healthy_stats i) c"
  obtain s w where sw: "c = (s, w)" by (cases c)
  have h: "healthy_stats i s" using c sw by (simp add: beside_def)
  from assms(2) obtain line where line: "find (starts_with (i @ '':'')) (map trim (str_lines b)) = Some line"
    and fs: "length (net_fields line) = 17"
      "list_all (\<lambda>n. is_ok (parse_i64 (net_fields line ! n))) [1, 3, 9, 10]"
    by (auto simp: net_file_ok_def split: option.splits)
  have ne: "net_iface s \<noteq> []" using h by (auto simp: healthy_stats_def split: if_splits)
  obtain w0 where op: "open_net env (s, w) = (Ok (File ''/proc/net/dev''), (net_opened s, w0))"
    using open_net_run [OF assms(1) healthy_opened(4) [OF h] ne] by blast
  have ifc: "net_iface (net_opened s) = i @ '':''" using h by (auto simp: healthy_stats_def net_opened_def)
  let ?s = "(net_opened s)\<lparr>rdbuf := b\<rparr>"
  have hs: "beside (healthy_stats i) (?s, tick (tick w0))"
    using healthy_opened_net [OF h] by (simp add: beside_def)
  let ?body = "seq (net_counter Release (net_fields line) 1 NetRxBytes net_rx_ref (\<lambda>v s. s\<lparr>net_rx_ref := v\<rparr>)) (
      seq (net_counter Release (net_fields line) 3 NetRxErrors net_rxe_ref (\<lambda>v s. s\<lparr>net_rxe_ref := v\<rparr>)) (
      seq (net_counter Release (net_fields line) 9 NetTxBytes net_tx_ref (\<lambda>v s. s\<lparr>net_tx_ref := v\<rparr>)) (
      seq (net_counter Release (net_fields line) 10 NetTxErrors net_txe_ref (\<lambda>v s. s\<lparr>net_txe_ref := v\<rparr>)) (ret ()))))"
  have body: "succeeds (beside (healthy_stats i)) ?body"
    using fs by (intro succ_rules net_counter_succ) simp_all
  have "upd_net Release env c = ?body (?s, tick (tick w0))"
    unfolding sw upd_net_def
    by (simp add: bind_def op reread_run [OF assms(1)] put_rdbuf_def get_state_def gets_def lift_o_def
        expect_opt_def ifc [simplified] line net_fields_def [symmetric] Let_def fs(1)
        del: length_filter_map One_nat_def)
  with succeedsD [OF body hs] show "\<exists>x s'. upd_net Release env c = (Ok x, s') \<and> beside (healthy_stats i) s'"
    by simp
qed

lemma put_index_succ:
  "k < length xs \<Longrightarrow> stat \<noteq> TotalStatCount \<Longrightarrow> stat \<noteq> LoadAvg1min \<Longrightarrow>
   succeeds (beside (healthy_stats i)) (put_index stat xs k)"
  unfolding put_index_def by (intro succ_rules put_now_succ) (auto simp: index_vec_def storable_def)

lemma omap_ok: "(\<And>x. is_ok (f x)) \<Longrightarrow> is_ok (omap f xs)"
proof (induction xs)
  case (Cons x xs)
  obtain y ys where "f x = Ok y" "omap f xs = Ok ys" using Cons by (metis is_ok_iff)
  then show ?case by simp
qed simp

lemma deltas_ok: "is_ok (deltas Release a b)"
  unfolding deltas_def by (rule omap_ok) (simp add: split_beta)

lemma cpu_update_healthy:
  assumes "serves env ''/proc/stat'' b" "stat_file_ok b" "os_clk_tck env \<noteq> 0"
  shows "succeeds (beside (healthy_stats i)) (within (\<lambda>s. (st_cpu s, rdbuf s))
    (\<lambda>t s. s\<lparr>st_cpu := fst t, rdbuf := snd t\<rparr>) (cpu_update Release env))"
proof (rule succeedsI)
  fix c
  assume "beside (healthy_stats i) c"
  then obtain s w where sw: "c = (s, w)" and h: "healthy_stats i s" by (cases c) (simp add: beside_def)
  have wf: "wf_cpu (st_cpu s)" "opened_as ''/proc/stat'' (cpu_fp (st_cpu s))"
    using h by (simp_all add: healthy_stats_def wf_stats_def)
  from cpu_update_succ [OF assms wf] obtain u t w' where
    "cpu_update Release env ((st_cpu s, rdbuf s), w) = (Ok (), ((u, t), w'))" "cpu_live u" by blast
  moreover have "healthy_stats i (s\<lparr>st_cpu := u, rdbuf := t\<rparr>)"
    using h \<open>cpu_live u\<close> by (simp add: healthy_stats_def wf_stats_def cpu_live_def opened_as_self)
  ultimately show "\<exists>x s'. within (\<lambda>s. (st_cpu s, rdbuf s)) (\<lambda>t s. s\<lparr>st_cpu := fst t, rdbuf := snd t\<rparr>)
      (cpu_update Release env) c = (Ok x, s') \<and> beside (healthy_stats i) s'"
    by (simp add: sw within_def zoom_def beside_def)
qed

lemma io_update_healthy:
  assumes "serves env ''/proc/diskstats'' b" "disk_file_ok env b"
  shows "succeeds (beside (healthy_stats i)) (within (\<lambda>s. (st_io s, rdbuf s))
    (\<lambda>t s. s\<lparr>st_io := fst t, rdbuf := snd t\<rparr>) (io_update env))"
proof (rule succeedsI)
  fix c
  assume "beside (healthy_stats i) c"
  then obtain s w where sw: "c = (s, w)" and h: "healthy_stats i s" by (cases c) (simp add: beside_def)
  have wf: "wf_io (st_io s)" "io_ignore_set (st_io s) = io_ignore_set IoStat_new"
      "opened_as ''/proc/diskstats'' (io_fp (st_io s))"
    using h by (simp_all add: healthy_stats_def wf_stats_def)
  from io_update_succ [OF assms wf] obtain u t w' where
    "io_update env ((st_io s, rdbuf s), w) = (Ok (), ((u, t), w'))" "io_live u" by blast
  moreover have "healthy_stats i (s\<lparr>st_io := u, rdbuf := t\<rparr>)"
    using h \<open>io_live u\<close> by (simp add: healthy_stats_def wf_stats_def io_live_def opened_as_self)
  ultimately show "\<exists>x s'. within (\<lambda>s. (st_io s, rdbuf s)) (\<lambda>t s. s\<lparr>st_io := fst t, rdbuf := snd t\<rparr>)
      (io_update env) c = (Ok x, s') \<and> beside (healthy_stats i) s'"
    by (simp add: sw within_def zoom_def beside_def)
qed


lemma sum_counters_succ:
  "(\<And>t c. \<exists>v. pc_read env t c = Inr v) \<Longrightarrow> succeeds (beside I) (sum_counters Release env stat cs v)"
proof (induction cs arbitrary: v)
  case Nil
  then show ?case by (simp add: succ_ret)
next
  case (Cons c cs)
  show ?case
    unfolding sum_counters.simps in_context_def
    by (intro succ_rules succ_val_call Cons.IH) (simp_all add: Cons.prems)
qed

lemma update_events_succ:
  assumes "\<And>t c. \<exists>v. pc_read env t c = Inr v" "iterates order"
  shows "succeeds (beside (\<lambda>s. wf_events (fst s) \<and> wf_table (snd s))) (update_events Release env order)"
  unfolding update_events_def event_loop_def
proof (rule succ_bind [OF succ_get_state], rule succ_for_each)
  let ?I = "\<lambda>s :: EventStat \<times> Stat list. wf_events (fst s) \<and> wf_table (snd s)"
  fix es e
  assume es: "returns (beside ?I) (get_state (\<lambda>s. order (events (fst s)))) es" "e \<in> set es"
  then obtain s :: "EventStat \<times> Stat list" where s: "wf_events (fst s)" "e \<in> set (order (events (fst s)))"
    by (auto simp: beside_def)
  then have "e \<in> set (events (fst s))" using mset_eq_setD [OF iteratesD [OF assms(2)]] by blast
  then have "fst e \<in> set (map fst event_table)" using s(1) by (auto simp: wf_events_def)
  then have st: "storable (fst e, StatInt v)" for v using event_stats_not_special by (auto simp: storable_def)
  show "succeeds (beside ?I) (read_event Release env (fst e) (snd e))"
    unfolding read_event_def
    by (intro succ_rules sum_counters_succ [OF assms(1)] succ_pure_within [OF set_now_succ [OF st]]) simp_all
qed

lemma upd_events_succ:
  assumes "\<And>t c. \<exists>v. pc_read env t c = Inr v" "iterates order"
  shows "succeeds (beside (healthy_stats i)) (upd_events Release env order)"
  unfolding upd_events_def
  by (rule succ_within [OF update_events_succ [OF assms]]) (simp_all add: healthy_stats_def wf_stats_def)

lemma upd_cpu_succ:
  assumes "serves env ''/proc/stat'' b" "stat_file_ok b" "os_clk_tck env \<noteq> 0"
  shows "succeeds (beside (healthy_stats i)) (upd_cpu Release env)"
proof -
  have idx: "fst wc \<noteq> TotalStatCount \<and> fst wc \<noteq> LoadAvg1min \<and> cpu_index (snd wc) < 10"
    if "wc \<in> set cpu_stats" for wc
    using that by (auto simp: cpu_stats_def)
  have wf: "wf_cpu (st_cpu s)" if "healthy_stats i s" for s using that by (simp add: healthy_stats_def wf_stats_def)
  show ?thesis
    unfolding upd_cpu_def cpu_totals_ms_def context_switches_def
    by (intro succ_rules cpu_update_healthy [OF assms] put_now_succ put_index_succ deltas_ok)
      (auto simp: storable_def beside_def wf_cpu_def dest: idx dest!: wf deltas_length [where n = 10])
qed

lemma upd_io_succ:
  assumes "serves env ''/proc/diskstats'' b" "disk_file_ok env b"
  shows "succeeds (beside (healthy_stats i)) (upd_io Release env)"
proof -
  have idx: "fst wc \<noteq> TotalStatCount \<and> fst wc \<noteq> LoadAvg1min \<and> io_index (snd wc) < 8"
    if "wc \<in> set io_stats" for wc
    using that by (auto simp: io_stats_def)
  have wf: "wf_io (st_io s)" if "healthy_stats i s" for s using that by (simp add: healthy_stats_def wf_stats_def)
  show ?thesis
    unfolding upd_io_def io_totals_ms_def
    by (intro succ_rules io_update_healthy [OF assms] put_index_succ deltas_ok)
      (auto simp: beside_def wf_io_def dest: idx dest!: wf deltas_length [where n = 8])
qed

lemma each_stat_succ:
  "(\<And>j. j < length st \<Longrightarrow> fst (f (st ! j)) = Ok ()) \<Longrightarrow> fst (each_stat f st) = Ok ()"
proof (induction st)
  case (Cons s ss)
  have "fst (f s) = Ok ()" using Cons.prems [of 0] by simp
  moreover have "fst (each_stat f ss) = Ok ()" by (rule Cons.IH) (use Cons.prems in force)
  ultimately show ?case by (auto split: prod.splits)
qed simp

lemma aggregate_succ: "succeeds wf_table (each_stat (update_aggregate Release))"
proof (rule succeedsI)
  fix t
  assume wf: "wf_table t"
  have "fst (each_stat (update_aggregate Release) t) = Ok ()"
  proof (rule each_stat_succ)
    fix j
    assume "j < length t"
    with wf have "stat_kind (j = 0) (t ! j)" by (simp add: wf_table_def)
    from update_aggregate_kind [OF this, of Release] show "fst (update_aggregate Release (t ! j)) = Ok ()" by simp
  qed
  then show "\<exists>x t'. each_stat (update_aggregate Release) t = (Ok x, t') \<and> wf_table t'"
    using presD [OF each_stat_wf [OF update_aggregate_pres, of Release] wf] by (metis prod.collapse)
qed

lemma upd_aggregates_succ: "succeeds (beside (healthy_stats i)) (upd_aggregates Release)"
proof -
  have "succeeds (beside (healthy_stats i)) (pure_within st_table (\<lambda>t s. s\<lparr>st_table := t\<rparr>)
      (each_stat (update_aggregate Release)))"
    by (rule succ_pure_within [OF aggregate_succ]) (simp_all add: healthy_wf)
  then show ?thesis unfolding upd_aggregates_def by (auto intro!: succ_rules)
qed

section \<open>A healthy host\<close>

definition healthy_host :: "os \<Rightarrow> (string \<Rightarrow> string) \<Rightarrow> string \<Rightarrow> bool" where
  "healthy_host env files i \<longleftrightarrow>
     list_all (\<lambda>f. serves env f (files f))
       [''/proc/loadavg'', ''/proc/meminfo'', ''/tmp/faasm-monitor'', ''/proc/net/dev'', ''/proc/stat'', ''/proc/diskstats''] \<and>
     loadavg_ok (files ''/proc/loadavg'') \<and> meminfo_ok (files ''/proc/meminfo'') \<and>
     faasm_file_ok (files ''/tmp/faasm-monitor'') \<and> net_file_ok i (files ''/proc/net/dev'') \<and>
     stat_file_ok (files ''/proc/stat'') \<and> disk_file_ok env (files ''/proc/diskstats'') \<and>
     os_clk_tck env \<noteq> 0 \<and> (\<forall>t c. \<exists>v. pc_read env t c = Inr v)"

lemma stats_update_succ:
  assumes "healthy_host env files i" "iterates order"
  shows "succeeds (beside (healthy_stats i)) (stats_update Release env order)"
proof -
  have sv: "serves env ''/proc/loadavg'' (files ''/proc/loadavg'')" "serves env ''/proc/meminfo'' (files ''/proc/meminfo'')"
      "serves env ''/tmp/faasm-monitor'' (files ''/tmp/faasm-monitor'')" "serves env ''/proc/net/dev'' (files ''/proc/net/dev'')"
      "serves env ''/proc/stat'' (files ''/proc/stat'')" "serves env ''/proc/diskstats'' (files ''/proc/diskstats'')"
    using assms(1) unfolding healthy_host_def list.pred_inject by blast+
  have rd: "\<And>t c. \<exists>v. pc_read env t c = Inr v" using assms(1) unfolding healthy_host_def by blast
  show ?thesis
    unfolding stats_update_def sample_def
    by (intro succ_seq upd_loadavg_succ [OF sv(1)] upd_meminfo_succ [OF sv(2)] upd_faasm_succ [OF sv(3)]
        upd_net_succ [OF sv(4)] upd_cpu_succ [OF sv(5)] upd_events_succ [OF rd assms(2)] upd_io_succ [OF sv(6)]
        upd_aggregates_succ; use assms(1) in \<open>unfold healthy_host_def, blast\<close>)
qed


lemma update_chain_succ:
  assumes "succeeds (beside I) upd" "I (fst c)"
  shows "\<exists>ds. length ds = n \<and> update_chain upd c ds \<and> list_all (beside I) ds"
  using assms(2)
proof (induction n arbitrary: c)
  case 0
  then show ?case by simp
next
  case (Suc n)
  from succeedsD [OF assms(1), of c] Suc.prems obtain d where d: "upd c = (Ok (), d)" "I (fst d)"
    by (auto simp: beside_def)
  from Suc.IH [OF d(2)] obtain ds where "length ds = n" "update_chain upd d ds" "list_all (beside I) ds" by blast
  with d show ?case by (intro exI [of _ "d # ds"]) (simp add: beside_def)
qed

lemma healthy_new:
  assumes "Stats_new env w = Some (s, w')" "i \<noteq> []"
  shows "healthy_stats i (s\<lparr>host_prefix := h, net_iface := i\<rparr>)"
proof -
  have "fp_loadavg s = None" "fp_meminfo s = None" "fp_faasm s = None" "fp_net s = None" "st_cpu s = CpuStat_new"
      "st_io s = IoStat_new"
    using assms(1) by (auto simp: Stats_new_def split: option.splits)
  with Stats_new_wf [OF assms(1)] assms(2) show ?thesis
    by (simp add: healthy_stats_def opened_as_def CpuStat_new_def IoStat_new_def)
qed

text \<open>
  On a healthy host, where system calls succeed, the six files have their documented form and the
  clock rate is not zero, the statistics can be updated any number of times in the release profile: from
  the statistics that \<open>async_main\<close> sets up every update returns \<open>Ok\<close>, and they stay healthy.
\<close>

theorem healthy_host_updates_forever:
  assumes "healthy_host env files i" "iterates order" "i \<noteq> []" "Stats_new env w = Some (s, w')"
  shows "\<exists>ds. length ds = n \<and>
    update_chain (stats_update Release env order) (s\<lparr>host_prefix := h, net_iface := i\<rparr>, w') ds \<and>
    list_all (\<lambda>d. healthy_stats i (fst d)) ds"
proof -
  have "healthy_stats i (fst (s\<lparr>host_prefix := h, net_iface := i\<rparr>, w'))"
    using healthy_new [OF assms(4,3)] by simp
  from update_chain_succ [OF stats_update_succ [OF assms(1,2)] this] show ?thesis
    unfolding beside_def .
qed

lemma healthy_demo: "healthy_host demo_env demo_files ''eth0''"
proof -
  have "list_all (\<lambda>f. serves demo_env f (demo_files f)) fs" for fs
    by (simp add: serves_def demo_env_def static_os_def list_all_iff)
  moreover have "loadavg_ok (demo_files ''/proc/loadavg'')" by code_simp
  moreover have "meminfo_ok (demo_files ''/proc/meminfo'')" by code_simp
  moreover have "faasm_file_ok (demo_files ''/tmp/faasm-monitor'')" by code_simp
  moreover have "net_file_ok ''eth0'' (demo_files ''/proc/net/dev'')" by code_simp
  moreover have "stat_file_ok (demo_files ''/proc/stat'')" by code_simp
  moreover have "disk_file_ok demo_env (demo_files ''/proc/diskstats'')" by code_simp
  moreover have "os_clk_tck demo_env \<noteq> 0" "\<forall>t c. \<exists>v. pc_read demo_env t c = Inr v"
    by (simp_all add: demo_env_def static_os_def)
  ultimately show ?thesis unfolding healthy_host_def by blast
qed

lemma healthy_demo_stats: "healthy_stats ''eth0'' demo_stats"
  using wf_demo_stats
  by (simp add: healthy_stats_def, simp add: opened_as_def demo_stats_def CpuStat_new_def IoStat_new_def)

theorem healthy_host_updates_forever_witness:
  "\<exists>s w' ds. Stats_new demo_env start_world = Some (s, w') \<and> length ds = 3 \<and>
    update_chain (stats_update Release demo_env rev) (s\<lparr>host_prefix := ''h_'', net_iface := ''eth0''\<rparr>, w') ds"
proof -
  obtain s w' where new: "Stats_new demo_env start_world = Some (s, w')"
    using Stats_new_total [of demo_env 1 start_world] by (auto simp: demo_env_def static_os_def)
  from healthy_host_updates_forever [OF healthy_demo iterates_rev _ new, of 3 "''h_''"] new show ?thesis
    by (metis list.distinct(1))
qed

end
