(* ===== verification/Ranges.thy ===== *)
theory Ranges
  imports Liveness
begin

text \<open>
  Ranges of \<^verbatim>\<open>statmon/src/stats.rs\<close> from end to end: what \<open>begin_range\<close>, a sequence of updates and
  \<open>stat_packet\<close> report, for every statistic, and for the counters that are reported as differences.
\<close>

section \<open>What taking a sample leaves alone\<close>

text \<open>The frame of a statistic is all of it but the current value.\<close>

definition stat_frame :: "Stat \<Rightarrow> Stat" where
  "stat_frame st = st\<lparr>value_now := StatInt 0\<rparr>"

definition framed :: "Stat list \<Rightarrow> bool \<Rightarrow> string \<Rightarrow> Stats \<Rightarrow> bool" where
  "framed F r h s \<longleftrightarrow> map stat_frame (st_table s) = F \<and> in_range s = r \<and> host_prefix s = h"

lemma framed_updates [simp]:
  "framed F r h (s\<lparr>rdbuf := b\<rparr>) = framed F r h s" "framed F r h (s\<lparr>net_iface := i\<rparr>) = framed F r h s"
  "framed F r h (s\<lparr>fp_loadavg := f\<rparr>) = framed F r h s" "framed F r h (s\<lparr>fp_meminfo := f\<rparr>) = framed F r h s"
  "framed F r h (s\<lparr>fp_net := f\<rparr>) = framed F r h s" "framed F r h (s\<lparr>fp_faasm := f\<rparr>) = framed F r h s"
  "framed F r h (s\<lparr>net_rx_ref := v\<rparr>) = framed F r h s" "framed F r h (s\<lparr>net_rxe_ref := v\<rparr>) = framed F r h s"
  "framed F r h (s\<lparr>net_tx_ref := v\<rparr>) = framed F r h s" "framed F r h (s\<lparr>net_txe_ref := v\<rparr>) = framed F r h s"
  "framed F r h (s\<lparr>st_cpu := c\<rparr>) = framed F r h s" "framed F r h (s\<lparr>st_io := d\<rparr>) = framed F r h s"
  "framed F r h (s\<lparr>st_events := e\<rparr>) = framed F r h s"
  by (simp_all add: framed_def)

lemma set_now_frame: "pres (\<lambda>t. map stat_frame t = F) (set_now w v)"
proof (rule presI)
  fix t
  assume "map stat_frame t = F"
  then show "map stat_frame (snd (set_now w v t)) = F"
    by (cases "stat_index w < length t") (auto simp: set_now_def map_update stat_frame_def list_update_same_conv)
qed

lemma put_now_frame: "keeps (framed F r h) (put_now w v)"
  unfolding put_now_def by (rule keeps_pure_within [OF set_now_frame]) (auto simp: framed_def)

lemma reread_frame: "keeps (framed F r h) (reread env fp put_rdbuf)"
  by (rule keeps_reread) (simp add: put_rdbuf_def)

lemma ensure_open_frame:
  "keeps (framed F r h) opener \<Longrightarrow> (\<And>fp s. framed F r h s \<Longrightarrow> framed F r h (put fp s)) \<Longrightarrow>
   keeps (framed F r h) (ensure_open opener get put)"
  unfolding ensure_open_def by (auto intro!: keeps_rules keeps_on_state split: option.splits)

lemma guard_frame:
  "keeps I m \<Longrightarrow> keeps I (drop_guard m)" "keeps I (flock_sh env)"
  by (auto simp: keeps_iff drop_guard_def flock_sh_def modify_def split: prod.splits)
     (metis fst_conv snd_conv)

lemma within_frame:
  "(\<And>t s. framed F r h s \<Longrightarrow> framed F r h (put t s)) \<Longrightarrow> keeps (framed F r h) (within g put m)"
  by (rule keepsI) (auto simp: within_def zoom_def split: prod.splits)

lemmas frame_rules = keeps_rules put_now_frame reread_frame ensure_open_frame guard_frame

lemma readers_frame:
  "keeps (framed F r h) (upd_loadavg env)" "keeps (framed F r h) (upd_meminfo p env)"
  "keeps (framed F r h) (upd_faasm env)"
  unfolding upd_loadavg_def upd_meminfo_def upd_faasm_def meminfo_line_def faasm_field_def
  by (auto intro!: frame_rules split: option.splits)

lemma upd_net_frame: "keeps (framed F r h) (upd_net p env)"
  unfolding upd_net_def open_net_def net_counter_def Let_def
  by (auto intro!: frame_rules keeps_on_state split: option.splits)

lemma upd_cpu_frame: "keeps (framed F r h) (upd_cpu p env)"
  unfolding upd_cpu_def put_index_def by (intro frame_rules within_frame) simp_all

lemma upd_io_frame: "keeps (framed F r h) (upd_io p env)"
  unfolding upd_io_def put_index_def by (intro frame_rules within_frame) simp_all


lemma update_events_frame: "keeps (\<lambda>t. map stat_frame (snd t) = F) (update_events p env order)"
  unfolding update_events_def event_loop_def read_event_def
  by (intro keeps_rules sum_counters_keeps keeps_pure_within [OF set_now_frame]) simp_all

lemma upd_events_frame: "keeps (framed F r h) (upd_events p env order)"
  unfolding upd_events_def
  by (rule keeps_within [OF update_events_frame [of F]]) (auto simp: framed_def)

lemma sample_frame: "keeps (framed F r h) (sample p env order)"
  unfolding sample_def
  by (intro keeps_rules readers_frame upd_net_frame upd_cpu_frame upd_events_frame upd_io_frame)


section \<open>One update extends every range\<close>

lemma stat_frame_aggregates: "stat_frame st = stat_frame st' \<Longrightarrow> aggregates xs st = aggregates xs st'"
  by (cases st; cases st') (simp add: stat_frame_def aggregates_def)

lemma framed_aggregates:
  assumes "framed F r h s" "framed F r h s'" "k < length (st_table s)"
  shows "aggregates xs (st_table s ! k) = aggregates xs (st_table s' ! k)"
proof (rule stat_frame_aggregates)
  have len: "length (st_table s) = length F" "length (st_table s') = length F"
    using assms(1,2) unfolding framed_def by (metis length_map)+
  have "map stat_frame (st_table s) ! k = map stat_frame (st_table s') ! k"
    using assms(1,2) by (simp add: framed_def)
  with assms(3) len show "stat_frame (st_table s ! k) = stat_frame (st_table s' ! k)" by simp
qed

lemma stats_update_Ok:
  assumes "stats_update p env order (s, w) = (Ok (), (s', w'))"
  obtains s1 w1 where "sample p env order (s, w) = (Ok (), (s1, w1))" "upd_aggregates p (s1, w1) = (Ok (), (s', w'))"
  using assms by (auto simp: stats_update_def seq_eq_Ok)

lemma upd_aggregates_Ok:
  assumes "upd_aggregates p (s, w) = (Ok (), (s', w'))"
  shows "s' = (if in_range s then s\<lparr>st_table := st_table s'\<rparr> else s) \<and>
    (in_range s \<longrightarrow> each_stat (update_aggregate p) (st_table s) = (Ok (), st_table s'))"
  using assms by (auto simp: upd_aggregates_def bind_eq_Ok pure_within_Ok split: if_splits)

lemma update_keeps_range:
  assumes "stats_update p env order (s, w) = (r, (s', w'))"
  shows "in_range s' = in_range s"
proof -
  have fr: "framed (map stat_frame (st_table s)) (in_range s) (host_prefix s) s" by (simp add: framed_def)
  have "keeps (\<lambda>t. in_range t = in_range s) (upd_aggregates p)"
    unfolding upd_aggregates_def by (intro keeps_rules keepsI) (auto simp: pure_within_def zoom_def split: prod.splits)
  moreover have "keeps (\<lambda>t. framed (map stat_frame (st_table s)) (in_range s) (host_prefix s) t) (sample p env order)"
    by (rule sample_frame)
  ultimately show ?thesis
    using assms fr unfolding stats_update_def
    by (auto simp: seq_def bind_def framed_def split: prod.splits outcome.splits dest!: keepsE)
qed

definition now_int :: "Stats \<Rightarrow> WhichStat \<Rightarrow> i64" where
  "now_int s u = (case get_now (st_table s) u of StatInt x \<Rightarrow> x | StatFloat f \<Rightarrow> 0)"

definition int_stat :: "WhichStat \<Rightarrow> bool" where
  "int_stat u \<longleftrightarrow> u \<noteq> LoadAvg1min \<and> u \<noteq> TotalStatCount"

lemma int_stat_index: "int_stat u \<Longrightarrow> stat_index u < 54 \<and> stat_index u \<noteq> 0"
  using stat_index_bound [of u] stat_index_inject [of u LoadAvg1min] by (auto simp: int_stat_def)

lemma int_stat_now:
  assumes "wf_stats s" "int_stat u"
  shows "value_now (st_table s ! stat_index u) = StatInt (now_int s u)"
proof -
  have "stat_kind False (st_table s ! stat_index u)"
    using assms(1) int_stat_index [OF assms(2)] by (auto simp: wf_stats_def wf_table_def)
  then show ?thesis
    by (cases "value_now (st_table s ! stat_index u)") (auto simp: stat_kind_def now_int_def get_now_def)
qed

lemma update_keeps_wf:
  assumes "iterates order" "wf_stats s" "stats_update p env order (s, w) = (r, (s', w'))"
  shows "wf_stats s'"
  using safeD [OF stats_update_safe [OF assms(1), of p env], of "(s, w)"] assms(2,3) by (simp add: beside_def)

lemma update_extends_aggregates:
  assumes "iterates order" "wf_stats s" "in_range s" "int_stat u" "aggregates xs (st_table s ! stat_index u)"
    and "stats_update p env order (s, w) = (Ok (), (s', w'))"
  shows "aggregates (xs @ [now_int s' u]) (st_table s' ! stat_index u) \<and> in_range s' \<and> wf_stats s'"
proof -
  let ?k = "stat_index u"
  have k: "?k < 54" using int_stat_index [OF assms(4)] by simp
  from assms(6) obtain s1 w1 where sm: "sample p env order (s, w) = (Ok (), (s1, w1))"
    and ag: "upd_aggregates p (s1, w1) = (Ok (), (s', w'))" by (rule stats_update_Ok)
  let ?F = "map stat_frame (st_table s)"
  have fr: "framed ?F True (host_prefix s) s" using assms(3) by (simp add: framed_def)
  have fr1: "framed ?F True (host_prefix s) s1" by (rule keepsE [OF sample_frame sm fr])
  have wf1: "wf_stats s1"
    using safeD [OF sample_safe [OF assms(1), of p env], of "(s, w)"] assms(2) sm by (simp add: beside_def)
  have wf': "wf_stats s'" by (rule update_keeps_wf [OF assms(1,2,6)])
  have ir: "in_range s1" using fr1 by (simp add: framed_def)
  have st': "s' = s1\<lparr>st_table := st_table s'\<rparr>" "each_stat (update_aggregate p) (st_table s1) = (Ok (), st_table s')"
    using upd_aggregates_Ok [OF ag] ir by auto
  have len: "length (st_table s) = 54" "length (st_table s1) = 54"
    using assms(2) wf1 by (auto simp: wf_stats_def wf_table_def)
  have step: "update_aggregate p (st_table s1 ! ?k) = (Ok (), st_table s' ! ?k)"
    using st'(2) k len(2) by (simp add: each_stat_Ok)
  have "stat_kind False (st_table s1 ! ?k)"
    using wf1 int_stat_index [OF assms(4)] by (auto simp: wf_stats_def wf_table_def)
  then have now: "value_now (st_table s' ! ?k) = value_now (st_table s1 ! ?k)"
    using update_aggregate_kind [of False "st_table s1 ! ?k" p] step by simp
  have "aggregates xs (st_table s1 ! ?k)"
    using assms(5) framed_aggregates [OF fr fr1, of ?k xs] k len(1) by simp
  moreover have "value_now (st_table s1 ! ?k) = StatInt (now_int s' u)"
    using now int_stat_now [OF wf' assms(4)] by simp
  ultimately have "aggregates (xs @ [now_int s' u]) (st_table s' ! ?k)"
    using step by (rule update_aggregate_extends)
  moreover have "in_range s'" using ir by (subst st'(1)) simp
  ultimately show ?thesis using wf' by simp
qed

lemma chain_extends_aggregates:
  assumes "iterates order" "int_stat u"
  shows "update_chain (stats_update p env order) c ds \<Longrightarrow> wf_stats (fst c) \<Longrightarrow> in_range (fst c) \<Longrightarrow>
    aggregates xs (st_table (fst c) ! stat_index u) \<Longrightarrow>
    aggregates (xs @ map (\<lambda>d. now_int (fst d) u) ds) (st_table (fst (last (c # ds))) ! stat_index u)"
proof (induction ds arbitrary: c xs)
  case Nil
  then show ?case by simp
next
  case (Cons d ds)
  have u: "stats_update p env order (fst c, snd c) = (Ok (), (fst d, snd d))" using Cons.prems(1) by simp
  from update_extends_aggregates [OF assms(1) Cons.prems(2,3) assms(2) Cons.prems(4) u]
  have d: "aggregates (xs @ [now_int (fst d) u]) (st_table (fst d) ! stat_index u)" "in_range (fst d)"
    "wf_stats (fst d)" by auto
  from Cons.IH [OF _ d(3,2,1)] Cons.prems(1) show ?case by simp
qed

lemma begin_range_Ok:
  assumes "begin_range env order (s, w) = (Ok (), (s', w'))"
  shows "in_range s' \<and> st_table s' = map stat_reset (st_table s)"
  using assms
  by (auto simp: begin_range_def seq_eq_Ok adapt_def within_Ok split: prod.splits)


lemma range_aggregated:
  assumes "iterates order" "wf_stats s" "int_stat u"
    and "begin_range env order (s, w) = (Ok (), c)" "update_chain (stats_update p env order) c ds"
  shows "aggregates (map (\<lambda>d. now_int (fst d) u) ds) (st_table (fst (last (c # ds))) ! stat_index u)"
proof -
  have c: "begin_range env order (s, w) = (Ok (), (fst c, snd c))" using assms(4) by simp
  have wf: "wf_stats (fst c)"
    using safeD [OF begin_range_safe [OF assms(1), of env], of "(s, w)"] assms(2,4) by (simp add: beside_def)
  have k: "stat_index u < length (st_table s)" "\<not> is_float (value_now (st_table s ! stat_index u))"
    using assms(2) int_stat_index [OF assms(3)] int_stat_now [OF assms(2,3)]
    by (auto simp: wf_stats_def wf_table_def)
  have "aggregates [] (st_table (fst c) ! stat_index u)"
    using begin_range_Ok [OF c] k by (simp add: aggregates_reset)
  from chain_extends_aggregates [OF assms(1,3,5) wf _ this] begin_range_Ok [OF c] show ?thesis by simp
qed

text \<open>
  C5. A range from end to end, for every integer statistic and every iteration order: after
  \<open>begin_range\<close> and any non-empty sequence of successful updates, the statistic holds the least and the
  greatest of the values that the updates found, their sum (modulo \<open>2^64\<close>) and their number.
\<close>

theorem range_reports_samples:
  assumes "iterates order" "wf_stats s" "int_stat u"
    and "begin_range env order (s, w) = (Ok (), c)" "update_chain (stats_update p env order) c ds" "ds \<noteq> []"
  shows "let xs = map (\<lambda>d. now_int (fst d) u) ds; st = st_table (fst (last ds)) ! stat_index u in
    \<exists>lo hi. value_min st = StatInt lo \<and> sint lo = Min (sint ` set xs) \<and>
      value_max st = StatInt hi \<and> sint hi = Max (sint ` set xs) \<and>
      value_sum st = StatInt (sum_list xs) \<and> value_cnt st = of_nat (length xs)"
proof -
  have agg: "aggregates (map (\<lambda>d. now_int (fst d) u) ds) (st_table (fst (last ds)) ! stat_index u)"
    using range_aggregated [OF assms(1-5)] assms(6) by simp
  with aggregates_extremes [OF agg] assms(6) show ?thesis by (auto simp: Let_def aggregates_def)
qed

lemma begin_range_demo:
  "\<exists>c. begin_range demo_env rev (demo_stats, start_world) = (Ok (), c) \<and> healthy_stats ''eth0'' (fst c)"
proof -
  have run: "begin_range demo_env rev (demo_stats, start_world) =
      (Ok (), (demo_stats\<lparr>in_range := True, st_table := map stat_reset STATS_INIT\<rparr>, start_world\<lparr>clock := 4\<rparr>))"
    by (simp add: begin_range_def start_events_def event_loop_def seq_def bind_def on_state_def modify_def
        adapt_def within_def zoom_def get_state_def gets_def demo_stats_def in_context_def unit_call_def demo_env_def
        static_os_def tick_def start_world_def ret_def numeral_eq_Suc)
  have "wf_table (map stat_reset STATS_INIT)" using wf_table_init by (simp add: wf_table_def)
  then have "healthy_stats ''eth0'' (demo_stats\<lparr>in_range := True, st_table := map stat_reset STATS_INIT\<rparr>)"
    using healthy_demo_stats by simp
  with run show ?thesis by simp
qed

lemma demo_chain:
  "\<exists>c d e. begin_range demo_env rev (demo_stats, start_world) = (Ok (), c) \<and>
     update_chain (stats_update Release demo_env rev) c [d, e]"
proof -
  obtain c where c: "begin_range demo_env rev (demo_stats, start_world) = (Ok (), c)" "healthy_stats ''eth0'' (fst c)"
    using begin_range_demo by blast
  from update_chain_succ [OF stats_update_succ [OF healthy_demo iterates_rev] c(2), of 2] obtain ds where
    "length ds = 2" "update_chain (stats_update Release demo_env rev) c ds" by blast
  with c(1) show ?thesis by (auto simp: length_Suc_conv numeral_2_eq_2)
qed

theorem range_reports_samples_witness:
  "\<exists>c d e lo. begin_range demo_env rev (demo_stats, start_world) = (Ok (), c) \<and>
     update_chain (stats_update Release demo_env rev) c [d, e] \<and>
     value_min (st_table (fst e) ! stat_index MemTotal) = StatInt lo \<and>
     sint lo = Min {sint (now_int (fst d) MemTotal), sint (now_int (fst e) MemTotal)} \<and>
     value_cnt (st_table (fst e) ! stat_index MemTotal) = 2"
proof -
  obtain c d e where c: "begin_range demo_env rev (demo_stats, start_world) = (Ok (), c)"
    "update_chain (stats_update Release demo_env rev) c [d, e]" using demo_chain by blast
  have "int_stat MemTotal" by (simp add: int_stat_def)
  from range_reports_samples [OF iterates_rev wf_demo_stats this c] obtain lo where
    "value_min (st_table (fst e) ! stat_index MemTotal) = StatInt lo"
    "sint lo = Min {sint (now_int (fst d) MemTotal), sint (now_int (fst e) MemTotal)}"
    "value_cnt (st_table (fst e) ! stat_index MemTotal) = 2" by (auto simp: Let_def)
  with c show ?thesis by blast
qed

section \<open>Counters reported as differences\<close>

text \<open>
  What the second half of an update must not touch: the current values of some statistics and a part of
  the state. The locale fixes them; its extension covers the CPU sampler as well.
\<close>

definition viewed :: "WhichStat list \<Rightarrow> (Stats \<Rightarrow> 'v) \<Rightarrow> StatValue list \<Rightarrow> 'v \<Rightarrow> Stats \<Rightarrow> bool" where
  "viewed us part vs x s \<longleftrightarrow> wf_stats s \<and> map (get_now (st_table s)) us = vs \<and> part s = x"

lemma set_now_other:
  assumes "w \<notin> set us"
  shows "pres (\<lambda>t. map (get_now t) us = vs) (set_now w v)"
proof (rule presI)
  fix t
  assume t: "map (get_now t) us = vs"
  have "stat_index w \<noteq> stat_index u" if "u \<in> set us" for u using that assms stat_index_inject by metis
  with t show "map (get_now (snd (set_now w v t))) us = vs"
    by (auto simp: set_now_def get_now_def)
qed

locale stat_view =
  fixes us :: "WhichStat list" and part :: "Stats \<Rightarrow> 'v"
  assumes part_table: "part (s\<lparr>st_table := t\<rparr>) = part s"
    and part_events: "part (s\<lparr>st_events := e\<rparr>) = part s"
    and part_io: "part (s\<lparr>st_io := d\<rparr>) = part s"
    and part_rdbuf: "part (s\<lparr>rdbuf := b\<rparr>) = part s"
    and not_events: "set us \<inter> set (map fst event_table) = {}"
    and not_io: "set us \<inter> set (map fst io_stats) = {}"
begin

lemma view_put_now:
  assumes "storable (w, v)" "w \<notin> set us"
  shows "safe (beside (viewed us part vs x)) (\<lambda>_. True) (put_now w v)"
proof -
  have "safe (\<lambda>t. wf_table t \<and> map (get_now t) us = vs) (\<lambda>_. True) (set_now w v)"
  proof (rule safeI)
    show "pres (\<lambda>t. wf_table t \<and> map (get_now t) us = vs) (set_now w v)"
      using presD [OF set_now_other [OF assms(2), of vs v]] presD [OF set_now_pres, of v w] assms(1)
      by (intro presI) (simp add: storable_def)
  qed (simp add: allowed_def)
  then show ?thesis
    unfolding put_now_def
    by (rule safe_pure_within) (auto simp: viewed_def wf_stats_def part_table)
qed

lemma view_put_index:
  assumes "stat \<notin> set us" "stat \<noteq> TotalStatCount" "stat \<noteq> LoadAvg1min"
  shows "safe (beside (viewed us part vs x)) (\<lambda>_. True) (put_index stat xs i)"
  unfolding put_index_def using assms
  by (intro safe_rules view_put_now) (auto simp: storable_def allowed_def)

lemma view_upd_io: "safe (beside (viewed us part vs x)) (\<lambda>_. True) (upd_io p env)"
proof -
  have io: "fst wi \<notin> set us \<and> fst wi \<noteq> TotalStatCount \<and> fst wi \<noteq> LoadAvg1min" if "wi \<in> set io_stats" for wi
    using that not_io by (auto simp: io_stats_def)
  have upd: "safe (beside (viewed us part vs x)) (\<lambda>_. True)
      (within (\<lambda>s. (st_io s, rdbuf s)) (\<lambda>t s. s\<lparr>st_io := fst t, rdbuf := snd t\<rparr>) (io_update env))"
    by (rule safe_within [OF io_update_safe]) (simp_all add: viewed_def wf_stats_def part_io part_rdbuf)
  show ?thesis
    unfolding upd_io_def by (intro safe_rules upd view_put_index) (auto simp: allowed_def dest: io)
qed

lemma view_upd_events:
  assumes "iterates order"
  shows "safe (beside (viewed us part vs x)) (\<lambda>_. True) (upd_events p env order)"
proof -
  let ?I = "\<lambda>s. wf_events (fst s) \<and> wf_table (snd s) \<and> map (get_now (snd s)) us = vs"
  have "safe (beside ?I) (\<lambda>_. True) (update_events p env order)"
    unfolding update_events_def
  proof (rule event_loop_safe [OF _ assms])
    fix stat cs
    assume stat: "stat \<in> set (map fst event_table)"
    then have other: "stat \<notin> set us" using not_events by blast
    have "safe (\<lambda>t. wf_table t \<and> map (get_now t) us = vs) (\<lambda>_. True) (set_now stat (StatInt v))" for v
    proof (rule safeI)
      show "pres (\<lambda>t. wf_table t \<and> map (get_now t) us = vs) (set_now stat (StatInt v))"
        using presD [OF set_now_other [OF other, of vs "StatInt v"]] presD [OF set_now_pres, of "StatInt v" stat]
          event_stats_not_special [OF stat]
        by (intro presI) simp
    qed (simp add: allowed_def)
    then show "safe (beside ?I) (\<lambda>_. True) (read_event p env stat cs)"
      unfolding read_event_def by (intro safe_rules sum_counters_safe safe_pure_within) auto
  qed simp
  then show ?thesis
    unfolding upd_events_def
    by (rule safe_within) (simp_all add: viewed_def wf_stats_def part_events part_table)
qed

lemma view_upd_aggregates:
  assumes "viewed us part vs x s" "TotalStatCount \<notin> set us" "upd_aggregates p (s, w) = (Ok (), (s', w'))"
  shows "viewed us part vs x s'"
proof (cases "in_range s")
  case False
  with upd_aggregates_Ok [OF assms(3)] assms(1) show ?thesis by simp
next
  case True
  then have s': "s' = s\<lparr>st_table := st_table s'\<rparr>" and ag: "each_stat (update_aggregate p) (st_table s) = (Ok (), st_table s')"
    using upd_aggregates_Ok [OF assms(3)] by auto
  have wf: "wf_table (st_table s)" using assms(1) by (simp add: viewed_def wf_stats_def)
  have wf': "wf_table (st_table s')"
    using presE [OF each_stat_wf [OF update_aggregate_pres] ag wf] .
  have "get_now (st_table s') u = get_now (st_table s) u" if "u \<in> set us" for u
  proof -
    have "stat_index u < 54" using that assms(2) stat_index_bound [of u] by metis
    moreover from this wf have "stat_kind (stat_index u = 0) (st_table s ! stat_index u)" by (simp add: wf_table_def)
    from update_aggregate_kind [OF this, of p] have
      "value_now (snd (update_aggregate p (st_table s ! stat_index u))) = value_now (st_table s ! stat_index u)" by simp
    ultimately show ?thesis using ag wf by (simp add: each_stat_Ok wf_table_def get_now_def)
  qed
  then have "map (get_now (st_table s')) us = map (get_now (st_table s)) us" by (rule map_cong [OF refl])
  then have "map (get_now (st_table s')) us = vs" by (rule trans) (use assms(1) in \<open>simp only: viewed_def\<close>)
  moreover have "part s' = part s" by (subst s') (rule part_table)
  moreover have "wf_stats s'" using assms(1) wf' by (subst s') (simp add: viewed_def wf_stats_def)
  ultimately show ?thesis using assms(1) unfolding viewed_def by blast
qed

end

lemma safe_weaken: "safe I R m \<Longrightarrow> safe I (\<lambda>_. True) m"
  by (rule safeI) (simp_all add: safe_pres allowed_def)

locale stat_view_cpu = stat_view +
  assumes part_cpu: "part (s\<lparr>st_cpu := c\<rparr>) = part s"
    and not_cpu: "set us \<inter> set (map fst cpu_stats) = {}"
    and not_procs: "set us \<inter> {ContextSwitches, ProcsRunning, ProcsBlocked} = {}"
begin

lemma view_upd_cpu: "safe (beside (viewed us part vs x)) (\<lambda>_. True) (upd_cpu p env)"
proof -
  have cpu: "fst wc \<notin> set us \<and> fst wc \<noteq> TotalStatCount \<and> fst wc \<noteq> LoadAvg1min" if "wc \<in> set cpu_stats" for wc
    using that not_cpu by (auto simp: cpu_stats_def)

  have upd: "safe (beside (viewed us part vs x)) (\<lambda>_. True)
      (within (\<lambda>s. (st_cpu s, rdbuf s)) (\<lambda>t s. s\<lparr>st_cpu := fst t, rdbuf := snd t\<rparr>) (cpu_update p env))"
    by (rule safe_within [OF safe_weaken [OF cpu_update_safe]]) (simp_all add: viewed_def wf_stats_def part_cpu part_rdbuf)
  show ?thesis
    unfolding upd_cpu_def using not_procs
    by (intro safe_rules upd view_put_index view_put_now) (auto simp: allowed_def storable_def dest: cpu)
qed

end

definition net_stats :: "WhichStat list" where
  "net_stats = [NetRxBytes, NetRxErrors, NetTxBytes, NetTxErrors]"

definition net_refs :: "Stats \<Rightarrow> u64 list" where
  "net_refs s = [net_rx_ref s, net_rxe_ref s, net_tx_ref s, net_txe_ref s]"

interpretation net_view: stat_view_cpu net_stats net_refs
  by unfold_locales (auto simp: net_refs_def net_stats_def event_table_def io_stats_def cpu_stats_def)

lemma net_refs_updates [simp]:
  "net_refs (s\<lparr>rdbuf := b\<rparr>) = net_refs s" "net_refs (s\<lparr>st_table := t\<rparr>) = net_refs s"
  "net_refs (s\<lparr>fp_loadavg := f\<rparr>) = net_refs s" "net_refs (s\<lparr>fp_meminfo := f\<rparr>) = net_refs s"
  "net_refs (s\<lparr>fp_faasm := f\<rparr>) = net_refs s" "net_refs (s\<lparr>in_range := r\<rparr>) = net_refs s"
  "net_refs (s\<lparr>st_events := e\<rparr>) = net_refs s"
  by (simp_all add: net_refs_def)

lemma head_net_refs:
  "keeps (\<lambda>s. net_refs s = r) (upd_loadavg env)" "keeps (\<lambda>s. net_refs s = r) (upd_meminfo p env)"
  "keeps (\<lambda>s. net_refs s = r) (upd_faasm env)"
proof -
  have put: "keeps (\<lambda>s. net_refs s = r) (put_now w v)" for w v
    unfolding put_now_def by (rule keepsI) (auto simp: pure_within_def zoom_def split: prod.splits)
  have rd: "keeps (\<lambda>s. net_refs s = r) (reread env fp put_rdbuf)" for fp
    by (rule keeps_reread) (simp add: put_rdbuf_def)
  have op: "keeps (\<lambda>s. net_refs s = r) (ensure_open opener get put)"
    if "keeps (\<lambda>s. net_refs s = r) opener" "\<And>fp s. net_refs (put fp s) = net_refs s" for opener get put
    unfolding ensure_open_def using that by (auto intro!: keeps_rules keeps_on_state split: option.splits)
  show "keeps (\<lambda>s. net_refs s = r) (upd_loadavg env)" "keeps (\<lambda>s. net_refs s = r) (upd_meminfo p env)"
    "keeps (\<lambda>s. net_refs s = r) (upd_faasm env)"
    unfolding upd_loadavg_def upd_meminfo_def upd_faasm_def meminfo_line_def faasm_field_def
    by (auto intro!: keeps_rules put rd op guard_frame split: option.splits)
qed


lemma keeps_Ok: "keeps (\<lambda>s. f s = x) m \<Longrightarrow> m (s, w) = (r, (s', w')) \<Longrightarrow> f s = x \<Longrightarrow> f s' = x"
  by (rule keepsE)

lemma safe_Ok: "safe (beside I) R m \<Longrightarrow> I s \<Longrightarrow> m (s, w) = (r, (s', w')) \<Longrightarrow> I s'"
  using safeD [of "beside I" R m "(s, w)"] by (simp add: beside_def)

lemma update_reports_net_growth:
  assumes "iterates order" "wf_stats s" "stats_update p env order (s, w) = (Ok (), (s', w'))"
  shows "map (get_now (st_table s')) net_stats = map StatInt (map2 (-) (net_refs s') (net_refs s)) \<and> wf_stats s'"
proof -
  from assms(3) obtain s1 w1 s2 w2 s3 w3 s4 w4 s5 w5 s6 w6 s7 w7 where
    r: "upd_loadavg env (s, w) = (Ok (), (s1, w1))" "upd_meminfo p env (s1, w1) = (Ok (), (s2, w2))"
      "upd_faasm env (s2, w2) = (Ok (), (s3, w3))" "upd_net p env (s3, w3) = (Ok (), (s4, w4))"
      "upd_cpu p env (s4, w4) = (Ok (), (s5, w5))" "upd_events p env order (s5, w5) = (Ok (), (s6, w6))"
      "upd_io p env (s6, w6) = (Ok (), (s7, w7))" "upd_aggregates p (s7, w7) = (Ok (), (s', w'))"
    by (auto simp: stats_update_def sample_def seq_eq_Ok)
  have refs: "net_refs s3 = net_refs s"
    using keeps_Ok [OF head_net_refs(1) r(1)] keeps_Ok [OF head_net_refs(2) r(2)] keeps_Ok [OF head_net_refs(3) r(3)]
    by metis
  have "wf_stats s1" by (rule safe_Ok [OF upd_loadavg_safe assms(2) r(1)])
  then have "wf_stats s2" using r(2) by (rule safe_Ok [OF upd_meminfo_safe [of p "\<lambda>_. True", OF TrueI]])
  then have "wf_stats s3" using r(3) by (rule safe_Ok [OF upd_faasm_safe])
  then have wf4: "wf_stats s4" using r(4) by (rule safe_Ok [OF upd_net_safe])
  define vs where "vs = map StatInt (map2 (-) (net_refs s4) (net_refs s))"
  from upd_net_Ok [OF \<open>wf_stats s3\<close> r(4)] obtain b rx rxe tx txe where
    s4: "s4 = net_stored rx rxe tx txe ((net_opened s3)\<lparr>rdbuf := b\<rparr>)" by blast
  have wf: "wf_stats ((net_opened s3)\<lparr>rdbuf := b\<rparr>)" using \<open>wf_stats s3\<close> by simp
  have "map (get_now (st_table s4)) net_stats = vs"
    using refs unfolding vs_def s4 net_stats_def net_refs_def
    by (simp add: net_stored_now [OF wf, simplified])
  then have v4: "viewed net_stats net_refs vs (net_refs s4) s4" using wf4 by (simp add: viewed_def)
  have "viewed net_stats net_refs vs (net_refs s4) s5" by (rule safe_Ok [OF net_view.view_upd_cpu v4 r(5)])
  then have "viewed net_stats net_refs vs (net_refs s4) s6"
    using r(6) by (rule safe_Ok [OF net_view.view_upd_events [OF assms(1)]])
  then have v7: "viewed net_stats net_refs vs (net_refs s4) s7" using r(7) by (rule safe_Ok [OF net_view.view_upd_io])
  have "TotalStatCount \<notin> set net_stats" by (simp add: net_stats_def)
  from net_view.view_upd_aggregates [OF v7 this r(8)]
  have "viewed net_stats net_refs vs (net_refs s4) s'" .
  then have "map (get_now (st_table s')) net_stats = vs" "net_refs s4 = net_refs s'" "wf_stats s'"
    by (simp_all only: viewed_def)
  then show ?thesis by (simp only: vs_def)
qed


lemma net_refs_length [simp]: "length (net_refs s) = 4"
  by (simp add: net_refs_def)

text \<open>The whole monitor is a sampler of the four network counters, too.\<close>

interpretation net: delta_sampler "stats_update p env order" net_refs
  "\<lambda>s. map2 (-) (net_refs s) (map (now_int s) net_stats)" "\<lambda>s. iterates order \<and> wf_stats s" for p env order
proof unfold_locales
  fix s w s' w'
  assume o: "iterates order \<and> wf_stats s" and u: "stats_update p env order (s, w) = (Ok (), (s', w'))"
  have rep: "map (get_now (st_table s')) net_stats = map StatInt (map2 (-) (net_refs s') (net_refs s))" and wf: "wf_stats s'"
    using update_reports_net_growth [OF _ _ u] o by auto
  have "map (now_int s') net_stats = map2 (-) (net_refs s') (net_refs s)"
    using rep by (simp add: now_int_def net_stats_def net_refs_def)
  then have "map2 (-) (net_refs s') (map (now_int s') net_stats) = net_refs s"
    by (simp add: net_refs_def)
  with o wf show "map2 (-) (net_refs s') (map (now_int s') net_stats) = net_refs s \<and> iterates order \<and> wf_stats s'"
    by simp
qed

lemma net_now_delta:
  "k < 4 \<Longrightarrow> net_refs s ! k - map2 (-) (net_refs s) (map (now_int s) net_stats) ! k = now_int s (net_stats ! k)"
proof -
  have "length net_stats = 4" by (simp add: net_stats_def)
  then show "k < 4 \<Longrightarrow> ?thesis" by simp
qed

lemma begin_range_refs: "begin_range env order (s, w) = (Ok (), (s', w')) \<Longrightarrow> net_refs s' = net_refs s"
  by (auto simp: begin_range_def seq_eq_Ok adapt_def within_Ok net_refs_def split: prod.splits)



end
