(* ===== verification/Float_Figures.thy ===== *)
theory Float_Figures
  imports F64_Laws Ranges
begin

text \<open>
  The floating-point figures of the monitor against the exact ones: the average of a range and the extremes
  of a float statistic.
\<close>

section \<open>The average of a range\<close>

lemma sum_list_word_of_int: "sum_list xs = (word_of_int (\<Sum>x\<leftarrow>xs. sint x) :: i64)"
  by (induction xs) simp_all

lemma sint_word_of_int_fits: "\<bar>v\<bar> < 2 ^ 53 \<Longrightarrow> sint (word_of_int v :: i64) = v"
  by (simp add: signed_of_int signed_take_bit_int_eq_self abs_if split: if_splits)

lemma quotient_le: "1 \<le> (n :: real) \<Longrightarrow> \<bar>v / n\<bar> \<le> \<bar>v\<bar>"
  using mult_left_mono [of 1 n "\<bar>v\<bar>"] by (simp add: divide_le_eq)

lemma aggregates_average:
  assumes "aggregates xs s" "xs \<noteq> []" "length xs < 2 ^ 53" "\<bar>\<Sum>x\<leftarrow>xs. sint x\<bar> < 2 ^ 53"
  shows "f_nearest (stat_avg s) (real_of_int (\<Sum>x\<leftarrow>xs. sint x) / real (length xs))"
proof -
  let ?v = "\<Sum>x\<leftarrow>xs. sint x" and ?n = "int (length xs)"
  have n: "1 \<le> ?n" "\<bar>?n\<bar> < 2 ^ 53" using assms(2,3) by (simp_all add: Suc_le_eq)
  have sum: "sint (sum_list xs) = ?v" by (simp only: sum_list_word_of_int sint_word_of_int_fits [OF assms(4)])
  have cnt: "sint (of_nat (length xs) :: i64) = ?n" using sint_word_of_int_fits [OF n(2)] by simp
  have "sint (smax (of_nat (length xs) :: i64) 1) = ?n" using cnt n(1) by (auto simp: smax_def)
  then have avg: "stat_avg s = f_div (f_of_int ?v) (f_of_int ?n)" using assms(1) sum by (simp add: stat_avg_def aggregates_def)
  note v = f_of_int_exact [OF assms(4)] and c = f_of_int_exact [OF n(2)]
  have "\<bar>real_of_int ?v / real_of_int ?n\<bar> \<le> real_of_int \<bar>?v\<bar>" using quotient_le [of "real_of_int ?n"] n(1) by simp
  also have "real_of_int \<bar>?v\<bar> < 2 powi 1023" by (rule two_powi_1023) (use assms(4) in simp)
  finally have "\<bar>f_val (f_of_int ?v) / f_val (f_of_int ?n)\<bar> < 2 powi 1023" by (simp only: v(2) c(2))
  moreover have "f_val (f_of_int ?n) \<noteq> 0" using assms(2) by (simp add: c(2))
  ultimately have "f_nearest (stat_avg s) (f_val (f_of_int ?v) / f_val (f_of_int ?n))"
    unfolding avg by (intro f_div_nearest v(1) c(1))
  then show ?thesis by (simp only: v(2) c(2) of_int_of_nat_eq)
qed


text \<open>An idle host without disks and without counters, and one sample of it.\<close>

definition quiet_env :: os where
  "quiet_env = static_os (\<lambda>f. if f = ''/proc/loadavg'' then ''0 0'' else if f = ''/proc/meminfo'' then ''MemTotal: 16 kB''
     else if f = ''/tmp/faasm-monitor'' then ''active,3,waiting,1''
     else if f = ''/proc/net/dev'' then '' eth0: 0 0 0 0 0 0 0 0 0 0 0 0 0 0 0 0'' else []) (\<lambda>_. False)"

definition quiet_stats :: Stats where
  "quiet_stats = demo_stats\<lparr>st_events := \<lparr>events = []\<rparr>\<rparr>"

lemma wf_quiet_stats: "wf_stats quiet_stats"
  using wf_demo_stats by (simp add: quiet_stats_def wf_stats_def wf_events_def hm_inv_def)

lemma quiet_sample:
  "(case begin_range quiet_env rev (quiet_stats, start_world) of
      (Ok _, c) \<Rightarrow> (case stats_update Release quiet_env rev c of
        (Ok _, d) \<Rightarrow> Some (now_int (fst d) MemTotal) | _ \<Rightarrow> None)
    | _ \<Rightarrow> None) = Some 16384"
  by code_simp


section \<open>The extremes of a float statistic\<close>

definition feed_float :: "profile \<Rightarrow> f64 \<Rightarrow> (Stat, unit) rust" where
  "feed_float p x = seq (modify (\<lambda>s. s\<lparr>value_now := StatFloat x\<rparr>)) (update_aggregate p)"

definition float_aggregates :: "f64 list \<Rightarrow> Stat \<Rightarrow> bool" where
  "float_aggregates xs s \<longleftrightarrow> (list_all f_finite xs \<longrightarrow>
     (\<exists>lo hi. value_min s = StatFloat lo \<and> f_finite lo \<and> f_val lo = foldr (\<lambda>x m. min (f_val x) m) xs (f_val f_MAX) \<and>
        value_max s = StatFloat hi \<and> f_finite hi \<and> f_val hi = foldr (\<lambda>x m. max (f_val x) m) xs (f_val f_MIN)) \<and>
     value_sum s = StatFloat (fold (\<lambda>x v. f_add v x) xs (f_zero False)) \<and> value_cnt s = of_nat (length xs))"

lemma float_aggregates_reset: "is_float (value_now s) \<Longrightarrow> float_aggregates [] (stat_reset s)"
  by (cases "value_now s") (simp_all add: float_aggregates_def stat_reset_def f_extremes_finite)

lemma foldr_snoc_min: "foldr (\<lambda>x m. min (f x) m) (xs @ [y]) b = min (foldr (\<lambda>x m. min (f x) m) xs b) (f y :: real)"
  by (induction xs) (simp_all add: min.commute min.assoc)

lemma foldr_snoc_max: "foldr (\<lambda>x m. max (f x) m) (xs @ [y]) b = max (foldr (\<lambda>x m. max (f x) m) xs b) (f y :: real)"
  by (induction xs) (simp_all add: max.commute max.assoc)

interpretation float_samples: sample_store float_aggregates "feed_float p" for p
proof unfold_locales
  fix xs s x s'
  assume agg: "float_aggregates xs s" and fed: "feed_float p x s = (Ok (), s')"
  show "float_aggregates (xs @ [x]) s'"
  proof (cases "list_all f_finite (xs @ [x])")
    case True
    then have fin: "list_all f_finite xs" "f_finite x" by simp_all
    with agg obtain lo hi where v: "value_min s = StatFloat lo" "value_max s = StatFloat hi" "f_finite lo" "f_finite hi"
        "value_sum s = StatFloat (fold (\<lambda>x v. f_add v x) xs (f_zero False))" "value_cnt s = of_nat (length xs)"
      by (auto simp: float_aggregates_def)
    have "value_min s' = StatFloat (f_min lo x)" "value_max s' = StatFloat (f_max hi x)"
        "value_sum s' = StatFloat (f_add (fold (\<lambda>x v. f_add v x) xs (f_zero False)) x)" "value_cnt s' = value_cnt s + 1"
      using fed v
      by (auto simp: feed_float_def update_aggregate_def bind_def seq_def modify_def sadd_def arith_res_def split: if_splits)
    with agg fin v f_min_val [OF v(3) fin(2)] f_max_val [OF v(4) fin(2)] show ?thesis
      by (auto simp: float_aggregates_def foldr_snoc_min foldr_snoc_max simp del: foldr_append)
  qed (auto simp: float_aggregates_def)
qed

lemma foldr_Min:
  fixes f :: "'a \<Rightarrow> real"
  assumes "xs \<noteq> []" "\<And>x. x \<in> set xs \<Longrightarrow> f x \<le> b"
  shows "foldr (\<lambda>x m. min (f x) m) xs b = Min (f ` set xs)"
  using assms
proof (induction xs)
  case (Cons a xs)
  show ?case
  proof (cases "xs = []")
    case False
    with Cons show ?thesis by simp
  qed (use Cons.prems(2) in simp)
qed simp

lemma foldr_Max:
  fixes f :: "'a \<Rightarrow> real"
  assumes "xs \<noteq> []" "\<And>x. x \<in> set xs \<Longrightarrow> b \<le> f x"
  shows "foldr (\<lambda>x m. max (f x) m) xs b = Max (f ` set xs)"
  using assms
proof (induction xs)
  case (Cons a xs)
  show ?case
  proof (cases "xs = []")
    case False
    with Cons show ?thesis by simp
  qed (use Cons.prems(2) in simp)
qed simp

text \<open>
  C31. A float statistic (the load average) over a range of finite samples, at least one: the reported minimum
  and maximum are exactly the least and the greatest of them, whatever they are, the sentinels
  \<open>f64::MAX\<close> and \<open>f64::MIN\<close> never show, and the count is the number of samples.
\<close>

theorem float_range_extremes:
  assumes "is_float (value_now s)" "for_each (feed_float p) xs (stat_reset s) = (Ok (), s')" "xs \<noteq> []" "list_all f_finite xs"
  shows "\<exists>lo hi. value_min s' = StatFloat lo \<and> f_val lo = Min (f_val ` set xs) \<and>
    value_max s' = StatFloat hi \<and> f_val hi = Max (f_val ` set xs) \<and> value_cnt s' = of_nat (length xs)"
proof -
  have "float_aggregates xs s'" using float_samples.accept_all [OF float_aggregates_reset [OF assms(1)] assms(2)] by simp
  moreover have "f_val x \<le> f_val f_MAX" "f_val f_MIN \<le> f_val x" if "x \<in> set xs" for x
    using that assms(4) f_val_bounded by (auto simp: list_all_iff)
  ultimately show ?thesis using foldr_Min [OF assms(3), of f_val] foldr_Max [OF assms(3), of _ f_val]
    using assms(4) by (auto simp: float_aggregates_def)
qed

theorem float_range_extremes_witness:
  "\<exists>s' lo. for_each (feed_float Release) [f_of_int 3, f_of_int (- 2)] (stat_reset (Stat_float ''load'')) = (Ok (), s') \<and>
     value_min s' = StatFloat lo \<and> f_val lo = - 2"
proof -
  let ?xs = "[f_of_int 3, f_of_int (- 2)]"
  have "fst (for_each (feed_float Release) ?xs (stat_reset (Stat_float ''load''))) = Ok ()" by code_simp
  then obtain s' where s': "for_each (feed_float Release) ?xs (stat_reset (Stat_float ''load'')) = (Ok (), s')"
    by (metis prod.collapse)
  have fin: "list_all f_finite ?xs" by (simp add: f_of_int_exact)
  have "is_float (value_now (Stat_float ''load''))" by (simp add: Stat_float_def)
  from float_range_extremes [OF this s' _ fin] obtain lo where
    "value_min s' = StatFloat lo" "f_val lo = - 2" by (auto simp: f_of_int_exact)
  with s' show ?thesis by blast
qed

end
