(* ===== verification/Speed_Requests.thy ===== *)
theory Speed_Requests
  imports Rust_F64
begin

text \<open>
  The load generator \<^verbatim>\<open>faasmspeed/src/main.rs\<close>, part one: the options and their defaults, the pool of
  prepared requests of a function, the test request, and the scheduler that decides which request of the
  sequence may be offloaded.

  The HTTP client is a parameter: what building, cloning and executing a request answers. The file
  system is the function that answers \<open>read_to_string\<close>.
\<close>

section \<open>Options\<close>

record SpeedOptions =
  url :: string
  timeout :: u64
  requests_per_second :: "f64 list"
  time :: f64
  parallelism :: usize
  user :: string
  function_names :: "string list"
  oneshot :: bool
  csv :: bool
  dry_run :: bool
  offload_frac_num :: "i32 list"
  offload_frac_den :: i32
  monitoring_hosts :: string
  input_data :: "string list"

text \<open>The options of a command line without arguments.\<close>

definition SpeedOptions_default :: SpeedOptions where
  "SpeedOptions_default =
    \<lparr>url = ''localhost:8080'', timeout = 10000, requests_per_second = [], time = f_of_int 10, parallelism = 4,
     user = ''demo'', function_names = [], oneshot = False, csv = False, dry_run = False, offload_frac_num = [],
     offload_frac_den = 1, monitoring_hosts = [], input_data = []\<rparr>"

text \<open>\<open>Vec::push\<close> of a default into an empty vector.\<close>

definition or_default :: "'a \<Rightarrow> 'a list \<Rightarrow> 'a list" where
  "or_default d xs = (if xs = [] then xs @ [d] else xs)"

definition get_opts :: "SpeedOptions \<Rightarrow> SpeedOptions" where
  "get_opts opts =
    (let opts = opts\<lparr>input_data := or_default [] (input_data opts)\<rparr>;
         opts = opts\<lparr>requests_per_second := or_default (f_of_int 10) (requests_per_second opts)\<rparr>;
         opts = opts\<lparr>function_names := or_default ''hello'' (function_names opts)\<rparr>;
         opts = opts\<lparr>offload_frac_num := or_default 1 (offload_frac_num opts)\<rparr> in
     if \<not> starts_with ''http://'' (url opts) then opts\<lparr>url := ''http://'' @ url opts\<rparr> else opts)"

section \<open>Requests\<close>

record request =
  rq_url :: string
  rq_content_type :: string
  rq_body :: string
  rq_timeout :: u64

text \<open>
  What the client answers: \<open>error_for_status\<close> and \<open>bytes\<close> of a response may fail on their own.
\<close>

record response =
  rs_status_error :: "error option"
  rs_bytes :: "error + string"

record http =
  http_build :: "request \<Rightarrow> error option"
  http_clone :: "request \<Rightarrow> request option"

definition make_json_call :: "string \<Rightarrow> string \<Rightarrow> string \<Rightarrow> bool \<Rightarrow> bool \<Rightarrow> string" where
  "make_json_call usr function data forbid_ndp force_storage =
    ''{\"user\":\"'' @ usr @ ''\",\"function\":\"'' @ function @ ''\",\"input_data\":\"'' @ data @
    ''\",\"forbid_ndp\":'' @ (if forbid_ndp then ''true'' else ''false'') @
    (if force_storage then '',\"is_storage\":true'' else []) @ ''}''"

definition make_request :: "http \<Rightarrow> string \<Rightarrow> string \<Rightarrow> u64 \<Rightarrow> request outcome" where
  "make_request h u data timeout_ms =
    (let r = \<lparr>rq_url = u, rq_content_type = ''application/json'', rq_body = data, rq_timeout = timeout_ms\<rparr> in
     case http_build h r of None \<Rightarrow> Ok r | Some e \<Rightarrow> Err e)"

text \<open>The two variants of one request: offloading forbidden, and allowed.\<close>

definition request_pair :: "http \<Rightarrow> SpeedOptions \<Rightarrow> string \<Rightarrow> bool \<Rightarrow> string \<Rightarrow> (request \<times> request) outcome" where
  "request_pair h opts function force_ndp data =
    obind (make_request h (url opts) (make_json_call (user opts) function data True force_ndp) (timeout opts)) (\<lambda>a.
    obind (make_request h (url opts) (make_json_call (user opts) function data False force_ndp) (timeout opts)) (\<lambda>b.
    Ok (a, b)))"

text \<open>\<open>Result::expect\<close>: the text of the error follows the message.\<close>

fun expect_res :: "string \<Rightarrow> 'a outcome \<Rightarrow> 'a outcome" where
  "expect_res msg (Err e) = Panic (Expect msg)"
| "expect_res msg x = x"

definition function_input ::
  "(string \<Rightarrow> io_error + string) \<Rightarrow> SpeedOptions \<Rightarrow> nat \<Rightarrow> string list outcome" where
  "function_input read_file opts idx =
    obind (if idx = 0 then obind (index_vec (input_data opts) 0) (\<lambda>d. Ok (\<not> starts_with ''@'' d)) else Ok False) (\<lambda>inline.
    if inline then Ok (input_data opts)
    else
      obind (expect_opt ''Input not provided for one of the functions'' (nth_opt (input_data opts) idx)) (\<lambda>d.
      obind (expect_opt ''Input dataset needs @'' (strip_prefix ''@'' d)) (\<lambda>f.
      obind (case read_file (trim f) of
          Inl e \<Rightarrow> Panic (Expect ''Couldn't read arguments file'') | Inr t \<Rightarrow> Ok t) (\<lambda>text.
      Ok (filter (\<lambda>l. l \<noteq> []) (map trim (str_lines text)))))))"

text \<open>What \<open>run_function\<close> fixes before its first request.\<close>

record fn_plan =
  pl_function :: string
  pl_rps :: f64
  pl_num :: i32
  pl_force :: bool
  pl_pool :: "(request \<times> request) list"

definition function_plan ::
  "http \<Rightarrow> (string \<Rightarrow> io_error + string) \<Rightarrow> SpeedOptions \<Rightarrow> nat \<Rightarrow> fn_plan outcome" where
  "function_plan h read_file opts idx =
    obind (expect_opt ''Function name not provided for one of the functions'' (nth_opt (function_names opts) idx)) (\<lambda>function.
    obind (expect_opt ''RPS not provided for one of the functions'' (nth_opt (requests_per_second opts) idx)) (\<lambda>rps.
    obind (expect_opt ''Offload % not provided for one of the functions'' (nth_opt (offload_frac_num opts) idx)) (\<lambda>num.
    obind (function_input read_file opts idx) (\<lambda>data.
    let force_ndp = sint num > sint (offload_frac_den opts) in
    obind (expect_res ''Couldn't create request list'' (omap (request_pair h opts function force_ndp) data)) (\<lambda>pool.
    Ok \<lparr>pl_function = function, pl_rps = rps, pl_num = num, pl_force = force_ndp, pl_pool = pool\<rparr>)))))"

text \<open>
  The exchange of one request: the response, its status and its bytes may each be an error. The result is
  the number of bytes.
\<close>

definition exchange :: "error + response \<Rightarrow> usize outcome" where
  "exchange a =
    (case a of
       Inl e \<Rightarrow> Err e
     | Inr r \<Rightarrow> (case rs_status_error r of
         Some e \<Rightarrow> Err e
       | None \<Rightarrow> (case rs_bytes r of Inl e \<Rightarrow> Err e | Inr b \<Rightarrow> Ok (of_nat (length b)))))"

definition expect_exchange :: "error + response \<Rightarrow> string outcome" where
  "expect_exchange a =
    (case a of
       Inl e \<Rightarrow> Panic (Expect ''Test request failure'')
     | Inr r \<Rightarrow> (case rs_status_error r of
         Some e \<Rightarrow> Panic (Expect ''Test request status failure'')
       | None \<Rightarrow> (case rs_bytes r of Inl e \<Rightarrow> Panic (Expect ''Test request bytes failure'') | Inr b \<Rightarrow> Ok b)))"

text \<open>The test request; the result is the content that is reported, in full for a single shot.\<close>

definition test_request ::
  "http \<Rightarrow> (request \<Rightarrow> error + response) \<Rightarrow> SpeedOptions \<Rightarrow> fn_plan \<Rightarrow> string outcome" where
  "test_request h execute opts pl =
    (if dry_run opts then Ok []
     else
       obind (index_vec (pl_pool pl) 0) (\<lambda>pair.
       obind (unwrap_opt (http_clone h (if sint (pl_num pl) > 0 then snd pair else fst pair))) (\<lambda>rq.
       obind (expect_exchange (execute rq)) (\<lambda>bytes.
       let bytecount = (if oneshot opts then length bytes else min 60 (length bytes)) in
       Ok (take bytecount bytes)))))"

section \<open>The schedule\<close>

definition total_requests :: "f64 \<Rightarrow> f64 \<Rightarrow> i64 outcome" where
  "total_requests rps t = (let n = f_ceil_i64 (f_mul rps t) in if sint n \<ge> 0 then Ok n else Panic AssertFailed)"

text \<open>\<open>Duration::from_secs_f64\<close> in nanoseconds, and the period check of \<open>tokio::time::interval\<close>.\<close>

fun duration_from_secs :: "f64 \<Rightarrow> int outcome" where
  "duration_from_secs (F_Fin s m e) =
    (if s \<and> 0 < m then Panic (Explicit ''can not convert float seconds to Duration: value is negative'')
     else let n = round_half_even (m * 10 ^ 9 * pow2_int e) (pow2_int (- e)) in
       if 2 ^ 64 * 10 ^ 9 \<le> n
       then Panic (Explicit ''can not convert float seconds to Duration: value is either too big or NaN'')
       else Ok n)"
| "duration_from_secs (F_Inf True) = Panic (Explicit ''can not convert float seconds to Duration: value is negative'')"
| "duration_from_secs x = Panic (Explicit ''can not convert float seconds to Duration: value is either too big or NaN'')"

definition tick_period :: "f64 \<Rightarrow> int outcome" where
  "tick_period rps =
    obind (duration_from_secs (f_div (f_of_int 1) rps)) (\<lambda>n.
    if n = 0 then Panic (Explicit ''`period` must be non-zero.'') else Ok n)"

text \<open>The vector of handles: eight bytes each, at most \<open>isize::MAX\<close> bytes.\<close>

definition handle_capacity :: "i64 \<Rightarrow> unit outcome" where
  "handle_capacity n = (if 2 ^ 63 \<le> 8 * uint n then Panic (Explicit ''capacity overflow'') else Ok ())"

record gen_state =
  which_request :: nat
  ndp_var :: i32

definition gen_start :: "profile \<Rightarrow> SpeedOptions \<Rightarrow> fn_plan \<Rightarrow> i64 \<Rightarrow> gen_state outcome" where
  "gen_start p opts pl n =
    obind (handle_capacity n) (\<lambda>_.
    obind (ssub p (offload_frac_den opts) 1) (\<lambda>v.
    obind (tick_period (pl_rps pl)) (\<lambda>_.
    Ok \<lparr>which_request = 0, ndp_var = v\<rparr>)))"

partial_function (option) ndp_wrap :: "profile \<Rightarrow> i32 \<Rightarrow> i32 \<Rightarrow> i32 outcome option" where
  "ndp_wrap p den v =
    (if sint v > sint den
     then (case ssub p v den of Ok v' \<Rightarrow> ndp_wrap p den v' | Err e \<Rightarrow> Some (Err e) | Panic q \<Rightarrow> Some (Panic q))
     else Some (Ok v))"

declare ndp_wrap.simps [code]

definition ndp_next :: "profile \<Rightarrow> i32 \<Rightarrow> i32 \<Rightarrow> i32 outcome option" where
  "ndp_next p den v =
    (case sadd p v 1 of Ok v' \<Rightarrow> ndp_wrap p den v' | Err e \<Rightarrow> Some (Err e) | Panic q \<Rightarrow> Some (Panic q))"

definition uses_ndp :: "fn_plan \<Rightarrow> i32 \<Rightarrow> bool" where
  "uses_ndp pl v \<longleftrightarrow> sint v \<le> sint (pl_num pl) \<or> pl_force pl"

text \<open>The request an iteration takes from the pool, and where the next one looks.\<close>

definition pick_request :: "http \<Rightarrow> fn_plan \<Rightarrow> nat \<Rightarrow> bool \<Rightarrow> request outcome" where
  "pick_request h pl w ndp =
    obind (index_vec (pl_pool pl) w) (\<lambda>pair.
    unwrap_opt (http_clone h (if ndp then snd pair else fst pair)))"

definition next_request :: "fn_plan \<Rightarrow> nat \<Rightarrow> nat" where
  "next_request pl w = (if w + 1 = length (pl_pool pl) then 0 else w + 1)"

text \<open>
  One iteration of the generator: the decision, the request (or the panic of taking it, which comes after
  the offload counter was raised) and the state of the next iteration. It is \<open>None\<close> when the loop that
  reduces the counter never ends.
\<close>

definition gen_step ::
  "profile \<Rightarrow> http \<Rightarrow> i32 \<Rightarrow> fn_plan \<Rightarrow> gen_state \<Rightarrow> (bool \<times> request outcome \<times> gen_state) outcome option" where
  "gen_step p h den pl g =
    (case ndp_next p den (ndp_var g) of
       None \<Rightarrow> None
     | Some (Err e) \<Rightarrow> Some (Err e)
     | Some (Panic q) \<Rightarrow> Some (Panic q)
     | Some (Ok v) \<Rightarrow>
         (let ndp = uses_ndp pl v in
          Some (Ok (ndp, pick_request h pl (which_request g) ndp,
            \<lparr>which_request = next_request pl (which_request g), ndp_var = v\<rparr>))))"

text \<open>\<open>n\<close> iterations in a row, as long as none of them panics.\<close>

primrec generate ::
  "profile \<Rightarrow> http \<Rightarrow> i32 \<Rightarrow> fn_plan \<Rightarrow> nat \<Rightarrow> gen_state \<Rightarrow> (bool \<times> request) list outcome option" where
  "generate p h den pl 0 g = Some (Ok [])"
| "generate p h den pl (Suc n) g =
    (case gen_step p h den pl g of
       None \<Rightarrow> None
     | Some (Err e) \<Rightarrow> Some (Err e)
     | Some (Panic q) \<Rightarrow> Some (Panic q)
     | Some (Ok (ndp, Err e, g')) \<Rightarrow> Some (Err e)
     | Some (Ok (ndp, Panic q, g')) \<Rightarrow> Some (Panic q)
     | Some (Ok (ndp, Ok rq, g')) \<Rightarrow>
         (case generate p h den pl n g' of
            None \<Rightarrow> None
          | Some (Err e) \<Rightarrow> Some (Err e)
          | Some (Panic q) \<Rightarrow> Some (Panic q)
          | Some (Ok rqs) \<Rightarrow> Some (Ok ((ndp, rq) # rqs))))"

end
