(* ===== verification/Speed_Schedule.thy ===== *)
theory Speed_Schedule
  imports Speed_Requests
begin

text \<open>
  What the load generator's scheduler computes: the sequence of prepared requests in closed form, the exact
  number of offloaded ones, and the settings for which the reduction loop never ends.
\<close>

section \<open>The offload counter\<close>

lemma sint_add_fits:
  fixes a b :: "32 word"
  assumes "- (2 ^ 31) \<le> sint a + sint b" "sint a + sint b < 2 ^ 31"
  shows "sint (a + b) = sint a + sint b"
  using assms by (simp add: sint_word_ariths signed_take_bit_int_eq_self)

lemma sint_sub_fits:
  fixes a b :: "32 word"
  assumes "- (2 ^ 31) \<le> sint a - sint b" "sint a - sint b < 2 ^ 31"
  shows "sint (a - b) = sint a - sint b"
  using assms by (simp add: sint_word_ariths signed_take_bit_int_eq_self)

lemma ndp_wrap_done: "sint v \<le> sint den \<Longrightarrow> ndp_wrap p den v = Some (Ok v)"
  by (subst ndp_wrap.simps) simp

lemma ndp_next_value:
  assumes "1 \<le> sint den" "sint den < 2 ^ 31 - 1" "0 \<le> sint v" "sint v \<le> sint den"
  shows "\<exists>v'. ndp_next p den v = Some (Ok v') \<and> sint v' = (if sint v = sint den then 1 else sint v + 1)"
proof -
  have add: "sint (v + 1) = sint v + 1" using assms sint_add_fits [of v 1] by simp
  then have next_v: "ndp_next p den v = ndp_wrap p den (v + 1)" by (simp add: ndp_next_def sadd_def arith_res_def)
  show ?thesis
  proof (cases "sint v = sint den")
    case True
    have sub: "sint (v + 1 - den) = 1" using True assms add sint_sub_fits [of "v + 1" den] by simp
    have "ndp_wrap p den (v + 1) = ndp_wrap p den (v + 1 - den)"
      using True add sub by (subst ndp_wrap.simps) (simp add: ssub_def arith_res_def)
    also have "\<dots> = Some (Ok (v + 1 - den))" using sub assms(1) by (simp add: ndp_wrap_done)
    finally show ?thesis using next_v sub True by auto
  next
    case False
    then have "ndp_wrap p den (v + 1) = Some (Ok (v + 1))" using assms(4) add by (simp add: ndp_wrap_done)
    with next_v add False show ?thesis by auto
  qed
qed

text \<open>The counter when request \<open>k\<close> is decided, for a denominator \<open>d\<close>: \<open>d\<close> first, then \<open>1, 2, \<dots>\<close> around.\<close>

definition ndp_position :: "nat \<Rightarrow> nat \<Rightarrow> nat" where
  "ndp_position d k = (k + d - 1) mod d + 1"

lemma ndp_position_range: "0 < d \<Longrightarrow> 1 \<le> ndp_position d k \<and> ndp_position d k \<le> d"
  using mod_less_divisor [of d "k + d - 1"] by (simp add: ndp_position_def Suc_le_eq)

lemma ndp_position_0: "0 < d \<Longrightarrow> ndp_position d 0 = d"
  by (simp add: ndp_position_def)

lemma ndp_position_Suc: "0 < d \<Longrightarrow> ndp_position d (Suc k) = (if ndp_position d k = d then 1 else ndp_position d k + 1)"
proof -
  assume d: "0 < d"
  define n where "n = k + d - 1"
  have "Suc k + d - 1 = Suc n" using d by (simp add: n_def)
  then have "ndp_position d (Suc k) = Suc n mod d + 1" "ndp_position d k = n mod d + 1"
    by (simp_all only: ndp_position_def n_def)
  then show ?thesis by (simp add: mod_Suc)
qed

lemma ndp_position_mod: "0 < d \<Longrightarrow> ndp_position d k = (if k mod d = 0 then d else k mod d)"
proof (induction k)
  case (Suc k)
  have "k mod d \<noteq> d" using mod_less_divisor [OF Suc.prems, of k] by simp
  with Suc show ?case by (auto simp: ndp_position_Suc mod_Suc)
qed (simp add: ndp_position_0)

section \<open>The sequence of requests\<close>

text \<open>The client can copy every prepared request: their bodies are static strings.\<close>

definition clones :: "http \<Rightarrow> bool" where
  "clones h \<longleftrightarrow> (\<forall>r. http_clone h r = Some r)"

text \<open>The state of the generator before request \<open>k\<close>.\<close>

definition gen_at :: "i32 \<Rightarrow> fn_plan \<Rightarrow> nat \<Rightarrow> gen_state \<Rightarrow> bool" where
  "gen_at den pl k g \<longleftrightarrow> which_request g = k mod length (pl_pool pl) \<and>
     sint (ndp_var g) = (if k = 0 then sint den - 1 else int (ndp_position (nat (sint den)) (k - 1)))"

definition scheduled :: "i32 \<Rightarrow> fn_plan \<Rightarrow> nat \<Rightarrow> bool \<times> request" where
  "scheduled den pl k =
    (let ndp = (int (ndp_position (nat (sint den)) k) \<le> sint (pl_num pl) \<or> pl_force pl);
         pair = pl_pool pl ! (k mod length (pl_pool pl)) in
     (ndp, if ndp then snd pair else fst pair))"

definition ok_den :: "i32 \<Rightarrow> bool" where
  "ok_den den \<longleftrightarrow> 1 \<le> sint den \<and> sint den < 2 ^ 31 - 1"

lemma next_request_mod:
  assumes "pl_pool pl \<noteq> []"
  shows "next_request pl (k mod length (pl_pool pl)) = Suc k mod length (pl_pool pl)"
  by (auto simp: next_request_def mod_Suc)

lemma gen_step_at:
  assumes "ok_den den" "clones h" "pl_pool pl \<noteq> []" "gen_at den pl k g"
  shows "\<exists>g'. gen_step p h den pl g = Some (Ok (fst (scheduled den pl k), Ok (snd (scheduled den pl k)), g')) \<and>
    gen_at den pl (Suc k) g'"
proof -
  let ?d = "nat (sint den)"
  have d: "0 < ?d" "int ?d = sint den" and den: "1 \<le> sint den" "sint den < 2 ^ 31 - 1"
    using assms(1) by (auto simp: ok_den_def)
  have v: "0 \<le> sint (ndp_var g)" "sint (ndp_var g) \<le> sint den"
    using assms(4) ndp_position_range [OF d(1), of "k - 1"] d(2) den by (auto simp: gen_at_def)
  obtain v' where v': "ndp_next p den (ndp_var g) = Some (Ok v')"
      "sint v' = (if sint (ndp_var g) = sint den then 1 else sint (ndp_var g) + 1)"
    using ndp_next_value [OF den v] by blast
  have pos: "sint v' = int (ndp_position ?d k)"
  proof (cases k)
    case 0
    with v'(2) assms(4) ndp_position_0 [OF d(1)] d(2) show ?thesis by (simp add: gen_at_def)
  next
    case (Suc j)
    with v'(2) assms(4) ndp_position_Suc [OF d(1), of j] d(2) show ?thesis by (auto simp: gen_at_def)
  qed
  have w: "which_request g = k mod length (pl_pool pl)" using assms(4) by (simp add: gen_at_def)
  have lt: "k mod length (pl_pool pl) < length (pl_pool pl)" using assms(3) by simp
  have "uses_ndp pl v' = fst (scheduled den pl k)" by (simp add: uses_ndp_def scheduled_def Let_def pos)
  moreover have "pick_request h pl (which_request g) (fst (scheduled den pl k)) = Ok (snd (scheduled den pl k))"
    using lt assms(2) by (simp add: pick_request_def index_vec_def w clones_def unwrap_opt_def scheduled_def Let_def)
  moreover have "gen_at den pl (Suc k) \<lparr>which_request = next_request pl (which_request g), ndp_var = v'\<rparr>"
    using pos w next_request_mod [OF assms(3)] by (simp add: gen_at_def)
  ultimately show ?thesis using v'(1) by (simp add: gen_step_def Let_def)
qed

lemma generate_at:
  assumes "ok_den den" "clones h" "pl_pool pl \<noteq> []" "gen_at den pl k g"
  shows "generate p h den pl n g = Some (Ok (map (scheduled den pl) [k..<k + n]))"
  using assms(4)
proof (induction n arbitrary: k g)
  case (Suc n)
  obtain g' where g': "gen_step p h den pl g = Some (Ok (fst (scheduled den pl k), Ok (snd (scheduled den pl k)), g'))"
      "gen_at den pl (Suc k) g'" using gen_step_at [OF assms(1-3) Suc.prems] by blast
  have "generate p h den pl n g' = Some (Ok (map (scheduled den pl) [Suc k..<Suc k + n]))" by (rule Suc.IH [OF g'(2)])
  moreover have "[k..<k + Suc n] = k # [Suc k..<Suc k + n]" by (simp add: upt_conv_Cons)
  ultimately show ?case using g'(1) by simp
qed simp

lemma gen_start_at:
  assumes "ok_den (offload_frac_den opts)" "gen_start p opts pl n = Ok g"
  shows "gen_at (offload_frac_den opts) pl 0 g"
proof -
  have "sint (offload_frac_den opts - 1) = sint (offload_frac_den opts) - 1"
    using assms(1) sint_sub_fits [of "offload_frac_den opts" 1] by (simp add: ok_den_def)
  with assms show ?thesis by (auto simp: gen_start_def gen_at_def ssub_def arith_res_def split: if_splits)
qed

section \<open>How many requests are offloaded\<close>

definition ndp_count :: "nat \<Rightarrow> nat \<Rightarrow> nat \<Rightarrow> nat" where
  "ndp_count d c n = n div d * c + (if n mod d = 0 then 0 else (if c = d then 1 else 0) + min c (n mod d - 1))"

lemma ndp_count_Suc:
  assumes "0 < d" "c \<le> d"
  shows "ndp_count d c (Suc n) = ndp_count d c n + (if ndp_position d n \<le> c then 1 else 0)"
proof (cases "Suc (n mod d) = d")
  case True
  then have s: "Suc n mod d = 0" "Suc n div d = Suc (n div d)" by (simp_all add: mod_Suc div_Suc)
  show ?thesis
  proof (cases "n mod d = 0")
    case z: True
    with True have "d = 1" by simp
    with assms(2) show ?thesis by (auto simp: ndp_count_def ndp_position_def)
  next
    case False
    with True have m: "ndp_position d n = d - 1" "n mod d = d - 1" "2 \<le> d" using assms(1) by (auto simp: ndp_position_mod)
    with assms(2) s show ?thesis by (auto simp: ndp_count_def min_def)
  qed
next
  case False
  then have s: "Suc n mod d = Suc (n mod d)" "Suc n div d = n div d" by (simp_all add: mod_Suc div_Suc)
  with assms show ?thesis by (auto simp: ndp_count_def ndp_position_mod min_def)
qed

lemma ndp_count_filter:
  assumes "0 < d" "c \<le> d"
  shows "length (filter (\<lambda>k. ndp_position d k \<le> c) [0..<n]) = ndp_count d c n"
proof (induction n)
  case 0
  then show ?case by (simp add: ndp_count_def)
next
  case (Suc n)
  then show ?case by (simp add: ndp_count_Suc [OF assms])
qed

text \<open>The offloaded requests of a period: the numerator, between none and all.\<close>

definition per_period :: "i32 \<Rightarrow> i32 \<Rightarrow> nat" where
  "per_period num den = nat (min (sint num) (sint den))"

lemma scheduled_flag:
  assumes "ok_den den" "pl_force pl \<longleftrightarrow> sint (pl_num pl) > sint den"
  shows "fst (scheduled den pl k) \<longleftrightarrow> ndp_position (nat (sint den)) k \<le> per_period (pl_num pl) den"
proof -
  have "1 \<le> ndp_position (nat (sint den)) k \<and> ndp_position (nat (sint den)) k \<le> nat (sint den)"
    using assms(1) by (intro ndp_position_range) (simp add: ok_den_def)
  then show ?thesis using assms by (auto simp: scheduled_def Let_def per_period_def ok_den_def)
qed

lemma scheduled_count:
  assumes "ok_den den" "pl_force pl \<longleftrightarrow> sint (pl_num pl) > sint den"
  shows "length (filter fst (map (scheduled den pl) [0..<n])) = ndp_count (nat (sint den)) (per_period (pl_num pl) den) n"
proof -
  have "length (filter fst (map (scheduled den pl) [0..<n])) =
      length (filter (\<lambda>k. ndp_position (nat (sint den)) k \<le> per_period (pl_num pl) den) [0..<n])"
    by (simp add: filter_map comp_def scheduled_flag [OF assms])
  also have "\<dots> = ndp_count (nat (sint den)) (per_period (pl_num pl) den) n"
    by (rule ndp_count_filter) (use assms(1) in \<open>auto simp: ok_den_def per_period_def\<close>)
  finally show ?thesis .
qed

lemma function_plan_force:
  assumes "function_plan h read_file opts idx = Ok pl"
  shows "pl_force pl \<longleftrightarrow> sint (pl_num pl) > sint (offload_frac_den opts)"
  using assms by (auto simp: function_plan_def Let_def)

text \<open>A client that builds and copies every request, for evaluating the model.\<close>

definition demo_http :: http where
  "demo_http = \<lparr>http_build = (\<lambda>_. None), http_clone = Some\<rparr>"

definition demo_opts :: SpeedOptions where
  "demo_opts = get_opts (SpeedOptions_default\<lparr>offload_frac_num := [2], offload_frac_den := 5, input_data := [''a'', ''b'']\<rparr>)"

definition demo_pair :: "string \<Rightarrow> request \<times> request" where
  "demo_pair d =
    (let r = (\<lambda>b. \<lparr>rq_url = ''http://localhost:8080'', rq_content_type = ''application/json'',
         rq_body = make_json_call ''demo'' ''hello'' d b False, rq_timeout = 10000\<rparr>) in (r True, r False))"

definition demo_plan :: fn_plan where
  "demo_plan = \<lparr>pl_function = ''hello'', pl_rps = f_of_int 10, pl_num = 2, pl_force = False,
     pl_pool = [demo_pair ''a'', demo_pair ''b'']\<rparr>"

lemma demo_clones: "clones demo_http"
  by (simp add: clones_def demo_http_def)

lemma demo_function_plan: "function_plan demo_http (\<lambda>_. Inl (Errno 2)) demo_opts 0 = Ok demo_plan"
  by (simp add: function_plan_def demo_opts_def get_opts_def or_default_def SpeedOptions_default_def Let_def
      starts_with_def function_input_def index_vec_def expect_opt_def request_pair_def make_request_def demo_http_def
      demo_plan_def demo_pair_def nth_opt_def)

lemma demo_period: "tick_period (f_of_int 10) = Ok 100000000"
  by code_simp

lemma demo_gen_start: "gen_start p demo_opts demo_plan 100 = Ok \<lparr>which_request = 0, ndp_var = 4\<rparr>"
proof -
  have "pl_rps demo_plan = f_of_int 10" by (simp add: demo_plan_def)
  then have "tick_period (pl_rps demo_plan) = Ok 100000000" using demo_period by simp
  then show ?thesis
    by (simp add: gen_start_def handle_capacity_def demo_opts_def get_opts_def or_default_def SpeedOptions_default_def Let_def
        ssub_def arith_res_def)
qed

lemma demo_den: "offload_frac_den demo_opts = 5"
  by (simp add: demo_opts_def get_opts_def or_default_def SpeedOptions_default_def Let_def)

text \<open>
  C3. For a denominator from 1 to \<open>2^31 - 2\<close>, the generator returns after any number of iterations under
  both build profiles, request \<open>k\<close> is the pool's entry \<open>k\<close> modulo its size in the variant of its position in
  the offload period, and the number of offloaded requests among the first \<open>n\<close> has the closed form
  \<open>ndp_count\<close>: none for a numerator up to 0, all from the denominator on.
\<close>

theorem schedule_exact:
  assumes "function_plan h read_file opts idx = Ok pl" "ok_den (offload_frac_den opts)" "clones h" "pl_pool pl \<noteq> []"
    and "gen_start p opts pl m = Ok g"
  shows "generate p h (offload_frac_den opts) pl n g = Some (Ok (map (scheduled (offload_frac_den opts) pl) [0..<n])) \<and>
    length (filter fst (map (scheduled (offload_frac_den opts) pl) [0..<n])) =
      ndp_count (nat (sint (offload_frac_den opts))) (per_period (pl_num pl) (offload_frac_den opts)) n"
  using generate_at [OF assms(2-4) gen_start_at [OF assms(2,5)], of p n]
    scheduled_count [OF assms(2) function_plan_force [OF assms(1)]] by simp

theorem schedule_exact_witness:
  "generate Release demo_http 5 demo_plan 7 \<lparr>which_request = 0, ndp_var = 4\<rparr> =
     Some (Ok (map (scheduled 5 demo_plan) [0..<7])) \<and> length (filter fst (map (scheduled 5 demo_plan) [0..<7])) = 3"
proof -
  have "ok_den (offload_frac_den demo_opts)" by (simp add: demo_den ok_den_def)
  moreover have "pl_pool demo_plan \<noteq> []" by (simp add: demo_plan_def)
  moreover have "ndp_count (nat (sint (5 :: i32))) (per_period (pl_num demo_plan) 5) 7 = 3" by code_simp
  ultimately show ?thesis
    using schedule_exact [OF demo_function_plan _ demo_clones _ demo_gen_start [of Release], of 7] demo_den by simp
qed

text \<open>
  The share of offloaded requests is the requested fraction: after every whole number of periods it is
  exact, and at any moment the count is between the exact count of the periods completed and that of the
  next one.
\<close>

theorem offload_share_bounds:
  assumes "function_plan h read_file opts idx = Ok pl" "ok_den (offload_frac_den opts)" "clones h" "pl_pool pl \<noteq> []"
    and "gen_start p opts pl m = Ok g" "generate p h (offload_frac_den opts) pl n g = Some (Ok rqs)"
  shows "n div nat (sint (offload_frac_den opts)) * per_period (pl_num pl) (offload_frac_den opts) \<le> length (filter fst rqs) \<and>
    length (filter fst rqs) \<le> Suc (n div nat (sint (offload_frac_den opts))) * per_period (pl_num pl) (offload_frac_den opts) \<and>
    (nat (sint (offload_frac_den opts)) dvd n \<longrightarrow>
      length (filter fst rqs) * nat (sint (offload_frac_den opts)) = n * per_period (pl_num pl) (offload_frac_den opts))"
proof -
  let ?d = "nat (sint (offload_frac_den opts))"
  let ?c = "per_period (pl_num pl) (offload_frac_den opts)"
  have cnt: "length (filter fst rqs) = ndp_count ?d ?c n"
    using generate_at [OF assms(2-4) gen_start_at [OF assms(2,5)], of p n] assms(6)
      scheduled_count [OF assms(2) function_plan_force [OF assms(1)]] by simp
  have d: "0 < ?d" using assms(2) by (simp add: ok_den_def)
  have "ndp_count ?d ?c n \<le> Suc (n div ?d) * ?c"
    using mod_less_divisor [OF d, of n] by (simp add: ndp_count_def min_def) linarith
  moreover have "ndp_count ?d ?c n * ?d = n * ?c" if dvd: "?d dvd n"
  proof -
    from dvd obtain q where "n = ?d * q" by (auto simp: dvd_def)
    with d show ?thesis by (simp add: ndp_count_def)
  qed
  ultimately show ?thesis using cnt by (simp add: ndp_count_def)
qed

theorem offload_share_bounds_witness:
  "\<exists>rqs. generate Dev demo_http 5 demo_plan 10 \<lparr>which_request = 0, ndp_var = 4\<rparr> = Some (Ok rqs) \<and>
     length (filter fst rqs) * 5 = 10 * 2"
proof -
  have den: "ok_den (offload_frac_den demo_opts)" "pl_pool demo_plan \<noteq> []"
    by (simp_all add: demo_den ok_den_def demo_plan_def)
  obtain rqs where rqs: "generate Dev demo_http (offload_frac_den demo_opts) demo_plan 10 \<lparr>which_request = 0, ndp_var = 4\<rparr> = Some (Ok rqs)"
    using generate_at [OF den(1) demo_clones den(2) gen_start_at [OF den(1) demo_gen_start]] by blast
  have "per_period (pl_num demo_plan) (offload_frac_den demo_opts) = 2" "nat (sint (offload_frac_den demo_opts)) = 5"
    unfolding demo_den by code_simp+
  with offload_share_bounds [OF demo_function_plan den(1) demo_clones den(2) demo_gen_start rqs] rqs
  show ?thesis by (auto simp: demo_den)
qed

lemma ndp_wrap_zero: "ndp_wrap p 0 v = Some y \<Longrightarrow> sint v \<le> 0"
proof -
  have "den = 0 \<longrightarrow> sint v \<le> 0" if "ndp_wrap p den v = Some y" for den
  proof (rule ndp_wrap.raw_induct [where P = "\<lambda>p den v y. den = 0 \<longrightarrow> sint v \<le> 0", OF _ that])
    fix nw p den v y
    assume IH: "\<And>p den v y. nw p den v = Some y \<Longrightarrow> den = 0 \<longrightarrow> sint v \<le> 0"
      and step: "(if sint den < sint v then (case ssub p v den of Ok v' \<Rightarrow> nw p den v'
        | Err e \<Rightarrow> Some (Err e) | Panic q \<Rightarrow> Some (Panic q)) else Some (Ok v)) = Some y"
    have "sint v \<le> 0" if "den = 0"
      using step IH [of p den v y] that by (auto simp: ssub_def arith_res_def split: if_splits)
    then show "den = 0 \<longrightarrow> sint v \<le> 0" by blast
  qed
  then show "ndp_wrap p 0 v = Some y \<Longrightarrow> sint v \<le> 0" by simp
qed


text \<open>
  C27. With the denominator 0, which the option parser accepts, the generator never returns from its second
  iteration under either profile: the reduction loop subtracts 0 for ever.
\<close>

theorem zero_denominator_never_returns:
  assumes "offload_frac_den opts = 0" "gen_start p opts pl m = Ok g" "clones h" "pl_pool pl \<noteq> []" "2 \<le> n"
  shows "generate p h (offload_frac_den opts) pl n g = None"
proof -
  obtain k where n: "n = Suc (Suc k)" using assms(5) by (metis Suc_le_D numeral_2_eq_2 Suc_le_mono)
  have g: "which_request g = 0" "ndp_var g = - 1"
    using assms(1,2) by (auto simp: gen_start_def ssub_def arith_res_def split: if_splits)
  have next1: "ndp_next p 0 (- 1) = Some (Ok 0)"
    by (simp add: ndp_next_def sadd_def arith_res_def ndp_wrap_done)
  have "ndp_next p 0 0 = ndp_wrap p 0 1" by (simp add: ndp_next_def sadd_def arith_res_def)
  moreover have "ndp_wrap p 0 1 = None" using ndp_wrap_zero [of p 1] by (cases "ndp_wrap p 0 1") auto
  ultimately have next2: "ndp_next p 0 0 = None" by simp
  obtain r where r: "pick_request h pl 0 (uses_ndp pl 0) = Ok r"
    using assms(3,4) by (simp add: pick_request_def index_vec_def unwrap_opt_def clones_def)
  show ?thesis unfolding assms(1) n
    by (simp add: gen_step_def g next1 next2 r Let_def)
qed

theorem zero_denominator_never_returns_witness:
  "generate Release demo_http 0 demo_plan 2 \<lparr>which_request = 0, ndp_var = - 1\<rparr> = None"
proof -
  let ?opts = "demo_opts\<lparr>offload_frac_den := 0\<rparr>"
  have "pl_rps demo_plan = f_of_int 10" by (simp add: demo_plan_def)
  then have "gen_start Release ?opts demo_plan 100 = Ok \<lparr>which_request = 0, ndp_var = - 1\<rparr>"
    using demo_period by (simp add: gen_start_def handle_capacity_def)
  from zero_denominator_never_returns [OF _ this demo_clones, of 2] show ?thesis by (simp add: demo_plan_def)
qed

end
