(* ===== verification/Speed_Report.thy ===== *)
theory Speed_Report
  imports Speed_Requests "HOL-Library.List_Lexorder" "HOL-Library.Char_ord"
begin

text \<open>
  The load generator, part three: what \<open>async_main\<close> does with the results when all requests are done. The
  results are split from the errors, the errors are counted by their text, and for each function the
  intervals and latencies are summarised and printed.

  The state of a printing function is the list of the lines printed so far. The formatting of floats is a
  parameter, and so is the unstable sort: any permutation sorted by the key (\<open>sorts\<close>).
\<close>

record RequestResult =
  us_request :: u128
  us_status :: u128
  num_bytes :: usize
  start_time :: u128

section \<open>Results and errors\<close>

text \<open>The loop over the results of one function.\<close>

primrec split_results ::
  "(error + RequestResult) list \<Rightarrow> RequestResult list \<times> error list \<Rightarrow> RequestResult list \<times> error list" where
  "split_results [] acc = acc"
| "split_results (r # rs) acc =
    split_results rs (case r of Inr rr \<Rightarrow> (fst acc @ [rr], snd acc) | Inl e \<Rightarrow> (fst acc, snd acc @ [e]))"

text \<open>\<open>group_by\<close> with its \<open>count\<close>: the runs of equal elements and their lengths.\<close>

fun runs :: "'a list \<Rightarrow> (nat \<times> 'a) list" where
  "runs [] = []"
| "runs (x # xs) = (case runs xs of
     [] \<Rightarrow> [(1, x)]
   | (n, y) # r \<Rightarrow> if x = y then (Suc n, y) # r else (1, x) # (n, y) # r)"

definition error_lines :: "(error \<Rightarrow> string) \<Rightarrow> error list list \<Rightarrow> string list" where
  "error_lines show_error errs =
    (if errs \<noteq> []
     then map (\<lambda>(n, e). show_nat n @ ''x '' @ e) (runs (sort (concat (map (map show_error) errs))))
     else [])"

section \<open>Intervals\<close>

definition sorts :: "((RequestResult \<Rightarrow> u128) \<Rightarrow> RequestResult list \<Rightarrow> RequestResult list) \<Rightarrow> bool" where
  "sorts sort_by \<longleftrightarrow> (\<forall>f xs. mset (sort_by f xs) = mset xs \<and> sorted (map f (sort_by f xs)))"

text \<open>\<open>for i in (1..len).rev()\<close>: each start time becomes the distance to its predecessor's.\<close>

primrec interval_loop :: "profile \<Rightarrow> nat list \<Rightarrow> RequestResult list \<Rightarrow> RequestResult list outcome" where
  "interval_loop p [] rs = Ok rs"
| "interval_loop p (i # is) rs =
    obind (index_vec rs (i - 1)) (\<lambda>a.
    obind (index_vec rs i) (\<lambda>b.
    obind (usub p (start_time b) (start_time a)) (\<lambda>d.
    interval_loop p is (rs[i := b\<lparr>start_time := d\<rparr>]))))"

definition intervals :: "profile \<Rightarrow> RequestResult list \<Rightarrow> RequestResult list outcome" where
  "intervals p rs =
    obind (interval_loop p (rev [1..<length rs]) rs) (\<lambda>rs.
    Ok (if length rs > 2 then rs[0 := (rs ! 0)\<lparr>start_time := start_time (rs ! 1)\<rparr>] else rs))"

section \<open>Summaries\<close>

text \<open>\<open>Iterator::sum\<close>: from zero, from the left, with the overflow rule of the profile.\<close>

primrec sum_from :: "profile \<Rightarrow> u128 \<Rightarrow> u128 list \<Rightarrow> u128 outcome" where
  "sum_from p a [] = Ok a"
| "sum_from p a (x # xs) = obind (uadd p a x) (\<lambda>s. sum_from p s xs)"

definition square_dist :: "profile \<Rightarrow> u128 \<Rightarrow> u128 \<Rightarrow> u128 outcome" where
  "square_dist p avg x =
    obind (usub p x avg) (\<lambda>a.
    obind (usub p x avg) (\<lambda>b.
    umul p a b))"

text \<open>The sum of a mapped iterator, which computes each element when it adds it.\<close>

primrec sum_squares :: "profile \<Rightarrow> u128 \<Rightarrow> u128 \<Rightarrow> u128 list \<Rightarrow> u128 outcome" where
  "sum_squares p avg a [] = Ok a"
| "sum_squares p avg a (x # xs) =
    obind (square_dist p avg x) (\<lambda>d.
    obind (uadd p a d) (\<lambda>s.
    sum_squares p avg s xs))"

definition nth_or_zero :: "u128 list \<Rightarrow> nat \<Rightarrow> u128" where
  "nth_or_zero xs i = (case nth_opt xs i of None \<Rightarrow> 0 | Some x \<Rightarrow> x)"

record summary =
  s_min :: u128
  s_q01 :: u128
  s_q1 :: u128
  s_q2 :: u128
  s_q3 :: u128
  s_q99 :: u128
  s_max :: u128
  s_avg :: u128
  s_variance :: u128

definition summarise :: "profile \<Rightarrow> u128 list \<Rightarrow> summary outcome" where
  "summarise p data =
    obind (sum_from p 0 data) (\<lambda>total.
    let n = length data; cnt = of_nat (max n 1) in
    obind (udiv total cnt) (\<lambda>avg.
    obind (sum_squares p avg 0 data) (\<lambda>sq.
    obind (udiv sq cnt) (\<lambda>variance.
    Ok \<lparr>s_min = nth_or_zero data 0, s_q01 = nth_or_zero data (n div 100), s_q1 = nth_or_zero data (n div 4),
        s_q2 = nth_or_zero data (n div 2), s_q3 = nth_or_zero data (3 * n div 4), s_q99 = nth_or_zero data (99 * n div 100),
        s_max = (if data = [] then 0 else last data), s_avg = avg, s_variance = variance\<rparr>))))"

text \<open>The integer square root, and \<open>f64::sqrt\<close>: the exact root rounded once (the odd last bit stands for the rest).\<close>

function isqrt :: "int \<Rightarrow> int" where
  "isqrt n = (if n \<le> 0 then 0 else let r = 2 * isqrt (n div 4) in if (r + 1) * (r + 1) \<le> n then r + 1 else r)"
  by pat_completeness auto
termination
  by (relation "measure nat") auto

declare isqrt.simps [simp del]

definition sqrt_fin :: "int \<Rightarrow> int \<Rightarrow> f64" where
  "sqrt_fin m e =
    (let s = (if even e then 110 else 111);
         n = m * 2 ^ s; r = isqrt n; k = (e - int s) div 2;
         odd_bit = (if r * r = n then 0 else 1) in
     f_round False ((2 * r + odd_bit) * pow2_int (k - 1)) (pow2_int (1 - k)))"

fun f_sqrt :: "f64 \<Rightarrow> f64" where
  "f_sqrt F_NaN = F_NaN"
| "f_sqrt (F_Inf s) = (if s then F_NaN else F_Inf False)"
| "f_sqrt (F_Fin s m e) = (if m = 0 then F_Fin s m e else if s then F_NaN else sqrt_fin m e)"

text \<open>\<open>variance.try_into().unwrap_or(0usize) as f64\<close>, then the root.\<close>

definition stddev :: "u128 \<Rightarrow> f64" where
  "stddev v = f_sqrt (f_of_int (if uint v < 2 ^ 64 then uint v else 0))"

section \<open>Printing\<close>

text \<open>The formatter of floats: the number of decimals asked for (none for plain display) and the value.\<close>

type_synonym float_fmt = "nat option \<Rightarrow> f64 \<Rightarrow> string"

definition println :: "string \<Rightarrow> (string list, unit) rust" where
  "println l = modify (\<lambda>out. out @ [l])"

definition show_u128 :: "u128 \<Rightarrow> string" where
  "show_u128 x = show_nat (unat x)"

definition summary_fields :: "float_fmt \<Rightarrow> summary \<Rightarrow> (string \<times> string) list" where
  "summary_fields fmt s =
    [(''min'', show_u128 (s_min s)), (''q1pct'', show_u128 (s_q01 s)), (''q1'', show_u128 (s_q1 s)),
     (''med'', show_u128 (s_q2 s)), (''q3'', show_u128 (s_q3 s)), (''q99pct'', show_u128 (s_q99 s)),
     (''max'', show_u128 (s_max s)), (''avg'', show_u128 (s_avg s)), (''stddev'', fmt (Some 1) (stddev (s_variance s)))]"

definition print_stats ::
  "profile \<Rightarrow> float_fmt \<Rightarrow> bool \<Rightarrow> u128 list \<Rightarrow> string \<Rightarrow> string \<Rightarrow> (string list, u128) rust" where
  "print_stats p fmt csv_out data variable_name short_name =
    bind (lift_o (summarise p data)) (\<lambda>s.
    seq (if csv_out
         then for_each (\<lambda>(field, v). println (short_name @ '','' @ field @ '','' @ v)) (summary_fields fmt s)
         else
           seq (println (variable_name @ '' min = '' @ show_u128 (s_min s) @ ''  q1% = '' @ show_u128 (s_q01 s) @
                ''  q1 = '' @ show_u128 (s_q1 s) @ ''  med = '' @ show_u128 (s_q2 s) @ ''  q3 = '' @ show_u128 (s_q3 s) @
                ''  q99% = '' @ show_u128 (s_q99 s) @ ''  max = '' @ show_u128 (s_max s)))
               (println ('' avg = '' @ show_u128 (s_avg s) @ ''  stddev = '' @ fmt (Some 1) (stddev (s_variance s))))) (
    ret (s_avg s)))"

text \<open>What the report knows of the run besides the results: the options, the shared counters, the monitors.\<close>

definition print_header ::
  "float_fmt \<Rightarrow> SpeedOptions \<Rightarrow> i64 \<Rightarrow> usize \<Rightarrow> string list \<Rightarrow> nat \<Rightarrow> RequestResult list \<Rightarrow> error list \<Rightarrow> (string list, unit) rust" where
  "print_header fmt opts ndp requests monitoring fidx results errors =
    bind (lift_o (index_vec (function_names opts) fidx)) (\<lambda>function.
    if csv opts then
      bind (lift_o (index_vec (offload_frac_num opts) fidx)) (\<lambda>num.
      bind (lift_o (index_vec (offload_frac_num opts) 0)) (\<lambda>num0.
      bind (lift_o (index_vec (requests_per_second opts) fidx)) (\<lambda>rps.
      bind (lift_o (index_vec (requests_per_second opts) 0)) (\<lambda>rps0.
      bind (lift_o (index_vec (input_data opts) 0)) (\<lambda>data0.
      let den = f_of_int (sint (offload_frac_den opts)) in
      seq (println (''opts,host,'' @ url opts @ '',user,'' @ user opts @ '',function,'' @ function @
        '',ndp,'' @ fmt (Some 2) (f_div (f_of_int (sint num)) den) @
        '',first-ndp,'' @ fmt (Some 2) (f_div (f_of_int (sint num0)) den) @
        '',actual-ndp,'' @ fmt (Some 6) (f_div (f_of_int (sint ndp)) (f_of_int (uint requests))) @
        '',req-rps,'' @ fmt (Some 1) rps @ '',first-rps,'' @ fmt (Some 1) rps0 @
        '',req-time,'' @ fmt (Some 1) (time opts) @ '',input-data-0,'' @ data0)) (
      seq (println (''errors,count,'' @ show_nat (length errors))) (
      seq (println (''results,count,'' @ show_nat (length results))) (
      for_each (\<lambda>m. println (''monitor,'' @ trim m)) monitoring))))))))
    else
      seq (println (''For function '' @ function @ '':'')) (
      seq (println (show_nat (length errors) @ '' errors encountered, statistics from '' @ show_nat (length results) @ '' results'')) (
      for_each (\<lambda>m. println (''Monitoring result: '' @ trim m)) monitoring)))"

definition micro :: string where
  "micro = [CHR 0xC2, CHR 0xB5]"

definition report_function ::
  "profile \<Rightarrow> ((RequestResult \<Rightarrow> u128) \<Rightarrow> RequestResult list \<Rightarrow> RequestResult list) \<Rightarrow> float_fmt \<Rightarrow> SpeedOptions \<Rightarrow>
   RequestResult list \<Rightarrow> (string list, unit) rust" where
  "report_function p sort_by fmt opts results =
    bind (lift_o (intervals p (sort_by start_time results))) (\<lambda>rs.
    let rs = sort_by start_time rs in
    bind (print_stats p fmt (csv opts) (map start_time rs) (''Inter-request interval ['' @ micro @ ''s]'') ''inter-request-us'') (\<lambda>avg.
    seq (println (''avg-rps,avg-rps,'' @ fmt (Some 4) (f_div (f_of_int 1000000) (f_of_int (uint avg))))) (
    let rs = sort_by us_request rs in
    seq (print_stats p fmt (csv opts) (map us_request rs) (''Request latency ['' @ micro @ ''s]'') ''latency-us'') (
    let rs = sort_by us_status rs in
    seq (print_stats p fmt (csv opts) (map us_status rs) (''Status latency ['' @ micro @ ''s]'') ''status-us'') (
    let rs = sort_by (\<lambda>r. ucast (num_bytes r)) rs in
    seq (print_stats p fmt (csv opts) (map (\<lambda>r. ucast (num_bytes r)) rs) ''Bytes sent [b]'' ''bytes-sent'') (
    ret ()))))))"

text \<open>The loop over the functions; the vectors of results and errors have one entry per function.\<close>

definition print_report ::
  "profile \<Rightarrow> ((RequestResult \<Rightarrow> u128) \<Rightarrow> RequestResult list \<Rightarrow> RequestResult list) \<Rightarrow> float_fmt \<Rightarrow> SpeedOptions \<Rightarrow> i64 \<Rightarrow> usize \<Rightarrow>
   string list \<Rightarrow> (RequestResult list \<times> error list) list \<Rightarrow> (string list, unit) rust" where
  "print_report p sort_by fmt opts ndp requests monitoring res =
    for_each (\<lambda>(fidx, results, errors).
      seq (print_header fmt opts ndp requests monitoring fidx results errors)
        (report_function p sort_by fmt opts results)) (enumerate 0 res)"

end
