(* ===== verification/Speed_Figures.thy ===== *)
theory Speed_Figures
  imports Speed_Report
begin

text \<open>
  Correctness of the load generator's report: the counted errors, the intervals between requests, and the
  summaries of sorted samples.
\<close>

section \<open>Counting errors\<close>

lemma runs_head: "\<exists>n r. runs (x # xs) = (n, x) # r"
  by (auto split: list.splits)

lemma runs_set: "set (map snd (runs xs)) = set xs"
proof (induction xs)
  case (Cons x xs)
  show ?case
  proof (cases "runs xs")
    case Nil
    with Cons.IH show ?thesis by simp
  next
    case (Cons b r)
    with Cons.IH have "set xs = insert (snd b) (snd ` set r)" by simp
    with Cons show ?thesis by (cases b) simp
  qed
qed simp

lemma runs_strict:
  fixes xs :: "'a::linorder list"
  shows "sorted xs \<Longrightarrow> sorted_wrt (<) (map snd (runs xs))"
proof (induction xs)
  case (Cons x xs)
  show ?case
  proof (cases "runs xs")
    case (Cons b r)
    obtain n y where b: "b = (n, y)" by (cases b)
    have le: "\<forall>z \<in> set xs. x \<le> z" and IH: "sorted_wrt (<) (map snd (runs xs))" using Cons.prems Cons.IH by simp_all
    have "y \<in> set xs" using runs_set [of xs] Cons b by (metis list.set_intros(1) list.simps(9) snd_conv)
    then have "x \<le> y" using le by simp
    with IH Cons b show ?thesis by auto
  qed simp
qed simp

lemma runs_count:
  fixes xs :: "'a::linorder list"
  assumes "sorted xs" "(n, x) \<in> set (runs xs)"
  shows "n = count_list xs x"
  using assms
proof (induction xs arbitrary: n x)
  case (Cons a xs)
  have s: "sorted xs" "\<forall>z \<in> set xs. a \<le> z" using Cons.prems by simp_all
  note IH = Cons.IH [OF s(1)]
  have zero: "a \<notin> set xs \<Longrightarrow> count_list xs a = 0" by (simp add: count_notin)
  show ?case
  proof (cases "runs xs")
    case Nil
    then have "xs = []" using runs_set [of xs] by simp
    with Cons.prems show ?thesis by simp
  next
    case (Cons b r)
    obtain m y where b: "b = (m, y)" by (cases b)
    have st: "sorted_wrt (<) (map snd (runs xs))" by (rule runs_strict [OF s(1)])
    show ?thesis
    proof (cases "a = y")
      case True
      then have "y \<notin> snd ` set r" using st Cons b by auto
      then have "x \<noteq> y" if "(n, x) \<in> set r" using that by force
      with Cons.prems(2) Cons b True IH show ?thesis by auto
    next
      case False
      have "a \<notin> set xs"
      proof
        assume "a \<in> set xs"
        then have "a \<in> set (map snd (runs xs))" using runs_set by metis
        then have "y < a" using st Cons b False by auto
        moreover have "y \<in> set xs" using runs_set [of xs] Cons b by (metis list.set_intros(1) list.simps(9) snd_conv)
        ultimately show False using s(2) by auto
      qed
      moreover have "x \<in> set xs" if "(n, x) \<in> set (runs xs)" using that runs_set [of xs] by force
      ultimately show ?thesis using Cons.prems(2) Cons b False IH zero by auto
    qed
  qed
qed simp

lemma runs_sort:
  fixes xs :: "'a::linorder list"
  shows "runs (sort xs) = map (\<lambda>x. (count_list xs x, x)) (sorted_list_of_set (set xs))"
proof -
  let ?r = "runs (sort xs)"
  have ct: "count_list (sort xs) x = count_list xs x" for x by (metis count_mset mset_sort)
  have "map snd ?r = sorted_list_of_set (set xs)"
    using runs_strict [of "sort xs"] runs_set [of "sort xs"]
    by (metis set_sort sorted_list_of_set.idem_if_sorted_distinct sorted_sort strict_sorted_iff)
  moreover have "map (\<lambda>p. (count_list xs (snd p), snd p)) ?r = ?r"
    by (rule map_idI) (use runs_count [of "sort xs"] ct in auto)
  then have "?r = map (\<lambda>x. (count_list xs x, x)) (map snd ?r)" by (simp add: comp_def)
  ultimately show ?thesis by simp
qed

text \<open>
  C32. The errors are reported once per text, in the order of the texts, each with the number of requests of
  all functions that failed with it; without errors nothing is reported.
\<close>

theorem errors_counted_by_text:
  "error_lines show_error errs =
    (let texts = map show_error (concat errs) in
     map (\<lambda>e. show_nat (count_list texts e) @ ''x '' @ e) (sorted_list_of_set (set texts)))"
  by (simp add: error_lines_def runs_sort map_concat Let_def comp_def)

section \<open>Intervals\<close>

text \<open>The list after the first \<open>k\<close> entries have been replaced by their distances.\<close>

definition spaced :: "nat \<Rightarrow> RequestResult list \<Rightarrow> nat \<Rightarrow> RequestResult" where
  "spaced k rs i =
    (if 1 \<le> i \<and> i < k then (rs ! i)\<lparr>start_time := start_time (rs ! i) - start_time (rs ! (i - 1))\<rparr> else rs ! i)"

lemma usub_le: "a \<le> b \<Longrightarrow> usub p b a = Ok (b - a)"
  by (simp add: usub_def arith_res_def word_le_def)

lemma interval_loop_spaced:
  assumes "sorted (map start_time rs)" "k \<le> length rs"
  shows "interval_loop p (rev [1..<k]) (map (\<lambda>i. if i < k then rs ! i else spaced (length rs) rs i) [0..<length rs]) =
    Ok (map (spaced (length rs) rs) [0..<length rs])"
  using assms(2)
proof (induction k)
  case 0
  have "map (\<lambda>i. if i < 0 then rs ! i else spaced (length rs) rs i) [0..<length rs] = map (spaced (length rs) rs) [0..<length rs]"
    by simp
  then show ?case by simp
next
  case (Suc k)
  let ?at = "\<lambda>k. map (\<lambda>i. if i < k then rs ! i else spaced (length rs) rs i) [0..<length rs]"
  show ?case
  proof (cases "k = 0")
    case True
    then have "?at (Suc k) = ?at 0" by (auto simp: spaced_def)
    with Suc True show ?thesis by simp
  next
    case False
    have k: "k < length rs" "0 < k" using Suc.prems False by simp_all
    have "start_time (rs ! (k - 1)) \<le> start_time (rs ! k)"
      using assms(1) k sorted_nth_mono [of "map start_time rs" "k - 1" k] by simp
    note sub = usub_le [OF this]
    have upd: "(?at (Suc k))[k := spaced (length rs) rs k] = ?at k"
      by (rule nth_equalityI) (auto simp: nth_list_update)
    have sp: "spaced (length rs) rs k = (rs ! k)\<lparr>start_time := start_time (rs ! k) - start_time (rs ! (k - 1))\<rparr>"
      using k by (simp add: spaced_def)
    have idx: "index_vec (?at (Suc k)) (k - 1) = Ok (rs ! (k - 1))" "index_vec (?at (Suc k)) k = Ok (rs ! k)"
      using k by (simp_all add: index_vec_def) auto
    have "rev [1..<Suc k] = k # rev [1..<k]" using k by simp
    then have "interval_loop p (rev [1..<Suc k]) (?at (Suc k)) = interval_loop p (rev [1..<k]) (?at k)"
      by (simp only: interval_loop.simps idx obind.simps sub sp [symmetric] upd)
    with Suc show ?thesis by simp
  qed
qed

lemma interval_loop_sorted:
  assumes "sorted (map start_time rs)"
  shows "interval_loop p (rev [1..<length rs]) rs = Ok (map (spaced (length rs) rs) [0..<length rs])"
proof -
  have "map (\<lambda>i. if i < length rs then rs ! i else spaced (length rs) rs i) [0..<length rs] = rs"
    by (rule nth_equalityI) simp_all
  with interval_loop_spaced [OF assms order_refl, of p] show ?thesis by simp
qed

text \<open>
  On results sorted by start time, the differences never underflow, under either profile: each start
  time but the first becomes the distance to its predecessor's, the other fields stay, and the distances add
  up to the time between the first and the last request. With more than two results the first, which has no
  predecessor, takes the distance of the second.
\<close>

theorem intervals_between_requests:
  assumes "sorted (map start_time rs)" "rs \<noteq> []"
  shows "\<exists>rs'. intervals p rs = Ok rs' \<and> length rs' = length rs \<and>
    (\<forall>i. 1 \<le> i \<and> i < length rs \<longrightarrow> rs' ! i = (rs ! i)\<lparr>start_time := start_time (rs ! i) - start_time (rs ! (i - 1))\<rparr>) \<and>
    rs' ! 0 = (if length rs > 2 then (rs ! 0)\<lparr>start_time := start_time (rs' ! 1)\<rparr> else rs ! 0) \<and>
    (\<Sum>i = 1..<length rs. uint (start_time (rs' ! i))) = uint (start_time (last rs)) - uint (start_time (hd rs))"
proof -
  let ?n = "length rs"
  let ?m = "map (spaced ?n rs) [0..<?n]"
  define rs' where "rs' = (if ?n > 2 then ?m[0 := (?m ! 0)\<lparr>start_time := start_time (?m ! 1)\<rparr>] else ?m)"
  have run: "intervals p rs = Ok rs'"
    unfolding intervals_def interval_loop_sorted [OF assms(1)] obind.simps rs'_def by (simp only: length_map length_upt diff_zero)
  have at: "rs' ! i = (rs ! i)\<lparr>start_time := start_time (rs ! i) - start_time (rs ! (i - 1))\<rparr>" if "1 \<le> i" "i < ?n" for i
    using that by (auto simp: rs'_def spaced_def)
  have first: "rs' ! 0 = (if ?n > 2 then (rs ! 0)\<lparr>start_time := start_time (rs' ! 1)\<rparr> else rs ! 0)"
    using assms(2) by (auto simp: rs'_def spaced_def)
  have gap: "uint (start_time (rs' ! i)) = uint (start_time (rs ! i)) - uint (start_time (rs ! (i - 1)))"
    if "1 \<le> i" "i < ?n" for i
  proof -
    have "start_time (rs ! (i - 1)) \<le> start_time (rs ! i)"
      using assms(1) that sorted_nth_mono [of "map start_time rs" "i - 1" i] by simp
    with at [OF that] show ?thesis by (simp add: uint_minus_simple_alt)
  qed
  have tele: "(\<Sum>i = 1..<Suc m. uint (start_time (rs' ! i))) = uint (start_time (rs ! m)) - uint (start_time (rs ! 0))"
    if "m < ?n" for m
    using that
  proof (induction m)
    case (Suc m)
    with gap [of "Suc m"] show ?case by simp
  qed simp
  have "Suc (?n - 1) = ?n" using assms(2) by simp
  then have "(\<Sum>i = 1..<?n. uint (start_time (rs' ! i))) = uint (start_time (last rs)) - uint (start_time (hd rs))"
    using tele [of "?n - 1"] assms(2) by (simp add: last_conv_nth hd_conv_nth)
  moreover have "length rs' = ?n" by (simp add: rs'_def)
  ultimately show ?thesis using run at first by blast
qed

definition result_at :: "u128 \<Rightarrow> RequestResult" where
  "result_at t = \<lparr>us_request = 1000, us_status = 1000, num_bytes = 1024, start_time = t\<rparr>"

theorem intervals_between_requests_witness:
  "\<exists>rs'. intervals Dev (map result_at [100, 350, 400]) = Ok rs' \<and>
     (\<Sum>i = 1..<3. uint (start_time (rs' ! i))) = 300"
proof -
  let ?rs = "map result_at [100, 350, 400]"
  have "sorted (map start_time ?rs)" "?rs \<noteq> []" by (simp_all add: result_at_def)
  from intervals_between_requests [OF this, of Dev] obtain rs' where "intervals Dev ?rs = Ok rs'"
    "(\<Sum>i = 1..<length ?rs. uint (start_time (rs' ! i))) = uint (start_time (last ?rs)) - uint (start_time (hd ?rs))" by blast
  then show ?thesis by (intro exI [of _ rs'] conjI) (simp_all add: result_at_def numeral_3_eq_3)
qed

section \<open>Summaries\<close>

lemma sum_from_word: "sum_from p a xs = Ok s \<Longrightarrow> s = a + sum_list xs"
proof (induction xs arbitrary: a)
  case (Cons x xs)
  then obtain b where "uadd p a x = Ok b" "sum_from p b xs = Ok s" by auto
  with Cons.IH [of b] uadd_Ok show ?case by (metis add.assoc sum_list.Cons)
qed simp

lemma sum_from_exact:
  assumes "uint a + (\<Sum>x\<leftarrow>xs. uint x) < 2 ^ 128"
  shows "sum_from p a xs = Ok (a + sum_list xs) \<and> uint (a + sum_list xs) = uint a + (\<Sum>x\<leftarrow>xs. uint x)"
  using assms
proof (induction xs arbitrary: a)
  case (Cons x xs)
  have nn: "0 \<le> (\<Sum>x\<leftarrow>xs. uint x)" by (rule sum_list_nonneg) auto
  then have fits: "uint a + uint x < 2 ^ 128" using Cons.prems by simp
  then have add: "uint (a + x) = uint a + uint x" by (simp add: uint_word_ariths)
  then have "uadd p a x = Ok (a + x)" by (simp add: uadd_def arith_res_def)
  with Cons.IH [of "a + x"] Cons.prems add show ?case by (simp add: add.assoc)
qed simp

lemma sum_squares_release: "sum_squares Release avg a xs = Ok (a + (\<Sum>x\<leftarrow>xs. (x - avg) * (x - avg)))"
  by (induction xs arbitrary: a) (simp_all add: square_dist_def add.assoc)

lemma word_of_int_uint_sum: "word_of_int (\<Sum>x\<leftarrow>xs. f x) = (\<Sum>x\<leftarrow>xs. word_of_int (f x) :: 'w::len word)"
  by (induction xs) simp_all

text \<open>The wrapped squares of the release profile add up to the exact ones whenever their sum fits.\<close>

lemma wrapped_squares_exact:
  fixes avg :: u128
  assumes "(\<Sum>x\<leftarrow>xs. (uint x - uint avg) ^ 2) < 2 ^ 128"
  shows "uint (\<Sum>x\<leftarrow>xs. (x - avg) * (x - avg)) = (\<Sum>x\<leftarrow>xs. (uint x - uint avg) ^ 2)"
proof -
  have "(x - avg) * (x - avg) = word_of_int ((uint x - uint avg) ^ 2)" for x
    by (simp add: power2_eq_square)
  then have "(\<Sum>x\<leftarrow>xs. (x - avg) * (x - avg)) = word_of_int (\<Sum>x\<leftarrow>xs. (uint x - uint avg) ^ 2)"
    by (simp add: word_of_int_uint_sum)
  moreover have "0 \<le> (\<Sum>x\<leftarrow>xs. (uint x - uint avg) ^ 2)" by (rule sum_list_nonneg) auto
  ultimately show ?thesis using assms by (simp add: uint_word_of_int take_bit_int_eq_self)
qed

definition mean :: "u128 list \<Rightarrow> int" where
  "mean xs = (\<Sum>x\<leftarrow>xs. uint x) div int (length xs)"

definition variance :: "u128 list \<Rightarrow> int" where
  "variance xs = (\<Sum>x\<leftarrow>xs. (uint x - mean xs) ^ 2) div int (length xs)"

lemma uint_length: "length xs < 2 ^ 64 \<Longrightarrow> uint (of_nat (length xs) :: u128) = int (length xs)"
  by (simp add: unsigned_of_nat take_bit_nat_eq_self take_bit_int_eq_self)

lemma length_word: "xs \<noteq> [] \<Longrightarrow> length xs < 2 ^ 64 \<Longrightarrow> (of_nat (length xs) :: u128) \<noteq> 0"
  using uint_length [of xs] by (metis length_0_conv of_nat_eq_0_iff uint_0_eq)

lemma mean_word:
  assumes "xs \<noteq> []" "length xs < 2 ^ 64" "(\<Sum>x\<leftarrow>xs. uint x) < 2 ^ 128"
  shows "udiv (sum_list xs) (of_nat (max (length xs) 1)) = Ok (sum_list xs div of_nat (length xs)) \<and>
    uint (sum_list xs div of_nat (length xs)) = mean xs"
proof -
  have len: "max (length xs) 1 = length xs" using assms(1) by (simp add: Suc_le_eq)
  note length_word [OF assms(1,2)]
  moreover have "uint (sum_list xs) = (\<Sum>x\<leftarrow>xs. uint x)"
    using sum_from_exact [of 0 xs] assms(3) by simp
  ultimately show ?thesis
    using uint_length [OF assms(2)] by (simp only: len) (simp add: udiv_def mean_def uint_div)
qed

lemma nth_or_zero_nth: "i < length xs \<Longrightarrow> nth_or_zero xs i = xs ! i"
  by (simp add: nth_or_zero_def nth_opt_def)

lemma quantiles_sorted:
  assumes "sorted xs" "xs \<noteq> []"
  shows "sorted (map (nth_or_zero xs)
    [0, length xs div 100, length xs div 4, length xs div 2, 3 * length xs div 4, 99 * length xs div 100, length xs - 1])"
proof -
  have n: "0 < length xs" using assms(2) by simp
  have mono: "nth_or_zero xs i \<le> nth_or_zero xs j" if "i \<le> j" "j < length xs" for i j
    using that sorted_nth_mono [OF assms(1)] by (simp add: nth_or_zero_nth)
  have "length xs div 100 \<le> length xs div 4" "length xs div 4 \<le> length xs div 2" "length xs div 2 \<le> 3 * length xs div 4"
      "3 * length xs div 4 \<le> 99 * length xs div 100" "99 * length xs div 100 \<le> length xs - 1" "length xs - 1 < length xs"
    using n by linarith+
  then show ?thesis using mono by simp
qed



text \<open>
  C28. In the default profile the summary panics as soon as the smallest sample lies below the mean: the
  unsigned difference underflows. So a debug build cannot report ordinary measurements.
\<close>

theorem debug_summary_panics:
  assumes "xs \<noteq> []" "length xs < 2 ^ 64" "(\<Sum>x\<leftarrow>xs. uint x) < 2 ^ 128" "uint (hd xs) < mean xs"
  shows "summarise Dev xs = Panic Overflow \<and> print_stats Dev fmt csv_out xs var_name short_name out = (Panic Overflow, out)"
proof -
  obtain y ys where xs: "xs = y # ys" using assms(1) by (cases xs) auto
  let ?avg = "sum_list xs div of_nat (length xs) :: u128"
  have total: "sum_from Dev 0 xs = Ok (sum_list xs)" using sum_from_exact [of 0 xs Dev] assms(3) by simp
  note avg = mean_word [OF assms(1-3)]
  have "usub Dev y ?avg = Panic Overflow" using assms(4) avg xs by (simp add: usub_def arith_res_def)
  then have "sum_squares Dev ?avg 0 xs = Panic Overflow" by (simp add: xs square_dist_def)
  then have "summarise Dev xs = Panic Overflow" using avg by (simp add: summarise_def total Let_def)
  then show ?thesis by (simp add: print_stats_def bind_def lift_o_def)
qed

theorem debug_summary_panics_witness: "summarise Dev [10, 20, 60] = Panic Overflow"
  using debug_summary_panics [of "[10, 20, 60]"] by (simp add: mean_def)

end
