(* ===== verification/Speed_Rates.thy ===== *)
theory Speed_Rates
  imports F64_Laws Speed_Schedule Speed_Figures
begin

text \<open>
  The floating-point figures of the load generator against the exact ones: the number of requests and the
  period of a whole rate, and the standard deviation of the report.
\<close>

section \<open>Requests and period of a rate\<close>

lemma f_ceil_exact:
  assumes "f_finite x" "f_val x = real_of_int i" "\<bar>i\<bar> < 2 ^ 53"
  shows "f_ceil_i64 x = word_of_int i"
proof -
  obtain s m e where x: "x = F_Fin s m e" using assms(1) by (rule f_finite_cases)
  have "ceil_fin s m e = i" unfolding ceil_fin_val using assms(2) by (simp add: x del: f_val.simps)
  moreover have "saturate_i64 i = i" using assms(3) by (simp add: saturate_i64_def)
  ultimately show ?thesis by (simp add: x)
qed

lemma f_mul_int:
  assumes "\<bar>i\<bar> < 2 ^ 53" "\<bar>j\<bar> < 2 ^ 53" "\<bar>i * j\<bar> < 2 ^ 53"
  shows "f_finite (f_mul (f_of_int i) (f_of_int j))" "f_val (f_mul (f_of_int i) (f_of_int j)) = real_of_int (i * j)"
proof -
  note x = f_of_int_exact [OF assms(1)] and y = f_of_int_exact [OF assms(2)]
  have val: "f_val (f_of_int i) * f_val (f_of_int j) = real_of_int (i * j)" by (simp add: x y)
  have "real_of_int \<bar>i * j\<bar> < 2 powi 1023" by (rule two_powi_1023) (use assms(3) in simp)
  then have near: "f_nearest (f_mul (f_of_int i) (f_of_int j)) (real_of_int (i * j))"
    using f_mul_nearest [OF x(1) y(1)] unfolding val by (simp only: of_int_abs)
  then show "f_finite (f_mul (f_of_int i) (f_of_int j))" by (simp add: f_nearest_def)
  obtain z where "f_finite z" "f_val z = real_of_int (i * j)" using representable_int [OF assms(3)] by blast
  then show "f_val (f_mul (f_of_int i) (f_of_int j)) = real_of_int (i * j)" by (rule f_nearest_exact [OF near])
qed

lemma whole_rate_requests:
  assumes "0 \<le> k" "0 \<le> t" "k < 2 ^ 53" "t < 2 ^ 53" "k * t < 2 ^ 53"
  shows "total_requests (f_of_int k) (f_of_int t) = Ok (word_of_int (k * t))"
proof -
  have nonneg: "0 \<le> k * t" using assms(1,2) by simp
  have b: "\<bar>k\<bar> < 2 ^ 53" "\<bar>t\<bar> < 2 ^ 53" "\<bar>k * t\<bar> < 2 ^ 53" using assms nonneg by simp_all
  have "f_ceil_i64 (f_mul (f_of_int k) (f_of_int t)) = word_of_int (k * t)" by (intro f_ceil_exact f_mul_int b)
  moreover have "sint (word_of_int (k * t) :: i64) = k * t"
    using b(3) by (simp only: signed_of_int signed_take_bit_int_eq_self) (simp add: signed_take_bit_int_eq_self)
  ultimately show ?thesis using nonneg by (simp add: total_requests_def)
qed

text \<open>The nanoseconds of a positive number of seconds: the nearest whole number of them.\<close>

lemma duration_nearest:
  assumes "f_finite x" "0 < f_val x" "f_val x \<le> 2"
  shows "\<exists>n. duration_from_secs x = Ok n \<and> \<bar>real_of_int n - f_val x * 10 ^ 9\<bar> \<le> 1 / 2"
proof -
  obtain s m e where x: "x = F_Fin s m e" "0 \<le> m" using assms(1) by (rule f_finite_cases)
  have s: "\<not> (s \<and> 0 < m)"
  proof
    assume "s \<and> 0 < m"
    then have "f_val x \<le> 0" by (simp add: x signed_val_def)
    with assms(2) show False by simp
  qed
  let ?n = "round_half_even (m * 10 ^ 9 * pow2_int e) (pow2_int (- e))"
  have "real_of_int (m * 10 ^ 9 * pow2_int e) / real_of_int (pow2_int (- e)) = real_of_int m * 10 ^ 9 * 2 powi e"
    unfolding pow2_int_quotient [of e, symmetric] by simp
  also have "\<dots> = f_val x * 10 ^ 9" using s x(2) by (auto simp: x(1) signed_val_def)
  finally have err: "\<bar>real_of_int ?n - f_val x * 10 ^ 9\<bar> \<le> 1 / 2"
    using round_half_even_error [of "pow2_int (- e)" "m * 10 ^ 9 * pow2_int e"] by (simp add: abs_minus_commute)
  then have "real_of_int ?n \<le> f_val x * 10 ^ 9 + 1 / 2" by linarith
  also have "\<dots> \<le> real_of_int (3 * 10 ^ 9)" using assms(3) by simp
  finally have "?n \<le> 3 * 10 ^ 9" by (simp only: of_int_le_iff)
  then have "duration_from_secs x = Ok ?n" using s by (simp add: x(1) Let_def)
  with err show ?thesis by blast
qed

lemma close_positive:
  fixes y q :: real
  assumes "\<bar>y - q\<bar> \<le> 1 / 100 / 10 ^ 9" "1 / 10 ^ 9 \<le> q" "q \<le> 1"
  shows "0 < y \<and> y \<le> 2" "\<bar>v - y * 10 ^ 9\<bar> \<le> 1 / 2 \<Longrightarrow> \<bar>v - q * 10 ^ 9\<bar> \<le> 51 / 100 \<and> 0 < v"
  using assms by (auto simp: abs_if split: if_splits)

lemma whole_rate_period:
  assumes "1 \<le> k" "k \<le> 10 ^ 9"
  shows "\<exists>n. tick_period (f_of_int k) = Ok n \<and> 0 < n \<and> \<bar>real_of_int n - 10 ^ 9 / real_of_int k\<bar> \<le> 51 / 100"
proof -
  have k: "\<bar>k\<bar> < 2 ^ 53" "1 \<le> real_of_int k" "real_of_int k \<le> 10 ^ 9" using assms by simp_all
  note rate = f_of_int_exact [OF k(1)]
  have one: "f_finite (f_of_int 1)" "f_val (f_of_int 1) = 1" using f_of_int_exact [of 1] by simp_all
  let ?q = "1 / real_of_int k" and ?y = "f_div (f_of_int 1) (f_of_int k)"
  have q: "0 < ?q" "?q \<le> 1" "1 / 10 ^ 9 \<le> ?q" using k by (simp_all add: frac_le)
  have val: "f_val (f_of_int 1) / f_val (f_of_int k) = ?q" by (simp add: one rate)
  have hi: "\<bar>?q\<bar> < 2 powi 1023"
    using two_powi_1023 [of 1] q by (intro le_less_trans [of "\<bar>?q\<bar>" "real_of_int 1"]) simp_all
  have "(2 :: real) powi (- 1022) \<le> 2 powi (- 30)" by (subst powi_le_iff) simp
  also have "(2 :: real) powi (- 30) \<le> \<bar>?q\<bar>" using q by (simp add: power_int_minus)
  finally have lo: "2 powi (- 1022) \<le> \<bar>?q\<bar>" .
  have nz: "f_val (f_of_int k) \<noteq> 0" using k by (simp add: rate)
  have fin: "f_finite ?y" using f_div_nearest [OF one(1) rate(1) nz] hi unfolding val by (simp add: f_nearest_def)
  have rel: "\<bar>f_val ?y - ?q\<bar> \<le> \<bar>?q\<bar> * 2 powi (- 53)"
    using f_div_relative [OF one(1) rate(1) nz] hi lo unfolding val by blast
  moreover have "\<bar>?q\<bar> * 2 powi (- 53) \<le> 1 / 100 / 10 ^ 9" using q by (simp add: power_int_minus)
  ultimately have err: "\<bar>f_val ?y - ?q\<bar> \<le> 1 / 100 / 10 ^ 9" by linarith
  have "0 < f_val ?y" "f_val ?y \<le> 2" using close_positive(1) [OF err q(3,2)] by simp_all
  from duration_nearest [OF fin this] obtain n where
    n: "duration_from_secs ?y = Ok n" "\<bar>real_of_int n - f_val ?y * 10 ^ 9\<bar> \<le> 1 / 2" by blast
  from close_positive(2) [OF err q(3,2) n(2)] n(1) show ?thesis by (simp add: tick_period_def)
qed

text \<open>
  C29. A whole rate of \<open>k\<close> requests per second over \<open>t\<close> whole seconds is planned without rounding errors: the
  number of requests is exactly \<open>k * t\<close> (below \<open>2^53\<close>), although it is the ceiling of a floating-point
  product, and the ticks are a period apart that is within about half a nanosecond of a \<open>k\<close>-th of a second
  and never zero (up to a thousand million requests per second).
\<close>

theorem whole_rate_planned_exactly:
  assumes "1 \<le> k" "k \<le> 10 ^ 9" "0 \<le> t" "t < 2 ^ 53" "k * t < 2 ^ 53"
  shows "total_requests (f_of_int k) (f_of_int t) = Ok (word_of_int (k * t)) \<and>
    (\<exists>n. tick_period (f_of_int k) = Ok n \<and> 0 < n \<and> \<bar>real_of_int n - 10 ^ 9 / real_of_int k\<bar> \<le> 51 / 100)"
  using whole_rate_requests [of k t] whole_rate_period [OF assms(1,2)] assms by simp

theorem whole_rate_planned_exactly_witness:
  "total_requests (f_of_int 3) (f_of_int 30) = Ok 90 \<and>
   (\<exists>n. tick_period (f_of_int 3) = Ok n \<and> \<bar>real_of_int n - 10 ^ 9 / 3\<bar> \<le> 51 / 100)"
  using whole_rate_planned_exactly [of 3 30] by auto

text \<open>A rate that is no binary fraction can round up to one request more: 7 in 100 seconds become 8.\<close>

lemma fractional_rate_rounds_up:
  "(case parse_f64 ''0.07'' of Ok r \<Rightarrow> total_requests r (f_of_int 100) | _ \<Rightarrow> Ok 0) = Ok 8"
  by code_simp

section \<open>The standard deviation\<close>

lemma isqrt_bounds: "0 \<le> n \<Longrightarrow> 0 \<le> isqrt n \<and> isqrt n * isqrt n \<le> n \<and> n < (isqrt n + 1) * (isqrt n + 1)"
proof (induction n rule: isqrt.induct)
  case (1 n)
  show ?case
  proof (cases "n = 0")
    case True
    then show ?thesis by (simp add: isqrt.simps)
  next
    case False
    define q where "q = isqrt (n div 4)"
    have IH: "0 \<le> q" "q * q \<le> n div 4" "n div 4 < (q + 1) * (q + 1)" using 1 False by (auto simp: q_def)
    have lo: "4 * (q * q) \<le> n" using IH(2) by linarith
    have hi: "n < 4 * ((q + 1) * (q + 1))" using IH(3) by linarith
    have r: "isqrt n = (if (2 * q + 1) * (2 * q + 1) \<le> n then 2 * q + 1 else 2 * q)"
      using 1 False by (subst isqrt.simps) (simp add: q_def Let_def)
    show ?thesis using IH(1) lo hi unfolding r by (auto simp: algebra_simps)
  qed
qed

text \<open>The number that is rounded, and how far it is from the root.\<close>

definition sticky_root :: "int \<Rightarrow> real" where
  "sticky_root n = real_of_int (2 * isqrt n + (if isqrt n * isqrt n = n then 0 else 1)) / 2"

lemma sticky_root_error:
  assumes "0 \<le> n"
  shows "\<bar>sticky_root n - sqrt (real_of_int n)\<bar> \<le> 1 / 2"
proof -
  let ?r = "isqrt n"
  note r = isqrt_bounds [OF assms]
  have sq: "sqrt (real_of_int (i * i)) = real_of_int i" if "0 \<le> i" for i using that by simp
  have lo: "real_of_int ?r \<le> sqrt (real_of_int n)"
    using real_sqrt_le_mono [of "real_of_int (?r * ?r)" "real_of_int n"] sq [of ?r] r by (simp only: of_int_le_iff)
  have hi: "sqrt (real_of_int n) \<le> real_of_int (?r + 1)"
    using real_sqrt_le_mono [of "real_of_int n" "real_of_int ((?r + 1) * (?r + 1))"] sq [of "?r + 1"] r
    by (simp only: of_int_le_iff) linarith
  show ?thesis
  proof (cases "?r * ?r = n")
    case True
    then have "sqrt (real_of_int n) = real_of_int ?r" using sq [of ?r] r by simp
    with True show ?thesis by (simp add: sticky_root_def)
  next
    case False
    have "sticky_root n = real_of_int ?r + 1 / 2" using False by (simp add: sticky_root_def field_simps)
    with lo hi show ?thesis by (auto simp: abs_if)
  qed
qed

lemma sqrt_powi: "sqrt (2 powi (2 * k)) = 2 powi k"
proof -
  have "(2 :: real) powi (2 * k) = (2 powi k)\<^sup>2" by (simp add: power_int_mult power2_eq_square flip: power_int_add)
  then show ?thesis by simp
qed

lemma root_rounding:
  fixes x y s :: real
  assumes "\<bar>x - s\<bar> \<le> s / 2 ^ 56" "\<bar>y - x\<bar> \<le> x * 2 powi (- 53)" "0 \<le> s"
  shows "\<bar>y - s\<bar> \<le> s * 2 powi (- 52)"
  using assms by (auto simp: abs_if power_int_minus split: if_splits)

lemma root_range:
  fixes x s :: real
  assumes "\<bar>x - s\<bar> \<le> s / 2 ^ 56" "1 \<le> s" "s < 2 ^ 53"
  shows "1 / 2 \<le> x \<and> x < 2 ^ 54"
  using assms by (auto simp: abs_if split: if_splits)

lemma sqrt_fin_accurate:
  assumes "0 < m" "1 \<le> real_of_int m * 2 powi e" "real_of_int m * 2 powi e < 2 ^ 53"
  shows "f_finite (sqrt_fin m e)"
    "\<bar>f_val (sqrt_fin m e) - sqrt (real_of_int m * 2 powi e)\<bar> \<le> sqrt (real_of_int m * 2 powi e) * 2 powi (- 52)"
proof -
  define d :: nat where "d = (if even e then 110 else 111)"
  define n where "n = m * 2 ^ d"
  define k where "k = (e - int d) div 2"
  define c where "c = 2 * isqrt n + (if isqrt n * isqrt n = n then 0 else 1)"
  let ?v = "real_of_int m * 2 powi e" and ?p = "2 powi k :: real" and ?s = "sqrt (real_of_int n)" and ?x = "sticky_root n * 2 powi k"
  have "even (e - int d)" by (simp add: d_def)
  then have k: "2 * k = e - int d" by (simp add: k_def)
  have "?v = real_of_int n * 2 powi (2 * k)" unfolding k n_def by (simp add: power_int_diff)
  then have root: "sqrt ?v = ?s * ?p" by (simp only: real_sqrt_mult sqrt_powi)
  have "1 * 2 ^ 110 \<le> m * (2 :: int) ^ d" using assms(1) by (intro mult_mono) (simp_all add: d_def)
  then have n: "2 ^ 110 \<le> n" by (simp add: n_def)
  then have "real_of_int (2 ^ 110) \<le> real_of_int n" by (simp only: of_int_le_iff)
  then have s: "2 ^ 55 \<le> ?s" by (intro real_le_rsqrt) simp
  have z: "\<bar>sticky_root n - ?s\<bar> \<le> 1 / 2" using sticky_root_error [of n] n by simp
  have "\<bar>?x - sqrt ?v\<bar> = \<bar>sticky_root n - ?s\<bar> * ?p" unfolding root by (simp add: abs_mult flip: left_diff_distrib)
  also have "\<dots> \<le> ?s / 2 ^ 56 * ?p" using z s by (intro mult_right_mono) simp_all
  finally have near: "\<bar>?x - sqrt ?v\<bar> \<le> sqrt ?v / 2 ^ 56" unfolding root by simp
  have bounds: "1 \<le> sqrt ?v" "sqrt ?v < 2 ^ 53"
    using assms(2,3) real_sqrt_le_mono [of ?v "?v * ?v"] by (simp_all add: mult_le_cancel_left1)
  let ?num = "c * pow2_int (k - 1)" and ?den = "pow2_int (1 - k)"
  have fin: "sqrt_fin m e = f_round False ?num ?den"
    by (simp add: sqrt_fin_def Let_def c_def n_def k_def d_def)
  have "real_of_int ?num / real_of_int ?den = real_of_int c * 2 powi (k - 1)"
    unfolding pow2_int_quotient [of "k - 1", symmetric] by simp
  then have quot: "real_of_int ?num / real_of_int ?den = ?x" by (simp add: sticky_root_def c_def power_int_diff)
  have lo: "1 / 2 \<le> ?x" and hi: "?x < 2 ^ 54" using root_range [OF near bounds] by simp_all
  have "0 < real_of_int ?num / real_of_int ?den" using lo unfolding quot by linarith
  then have num: "0 < ?num" using pow2_int_pos [of "1 - k"] by (simp only: zero_less_divide_iff of_int_0_less_iff) linarith
  have up: "real_of_int ?num / real_of_int ?den < 2 powi 1023"
    using less_trans [OF hi] two_powi_1023 [of "2 ^ 54"] unfolding quot by simp
  have dn: "2 powi (- 1022) \<le> real_of_int ?num / real_of_int ?den"
  proof -
    have "(2 :: real) powi (- 1022) \<le> 2 powi (- 1)" by (subst powi_le_iff) simp
    with lo show ?thesis unfolding quot by (simp add: power_int_minus)
  qed
  have "f_finite (sqrt_fin m e)" unfolding fin by (rule f_round_fin(1) [OF num pow2_int_pos up])
  moreover have "\<bar>f_val (sqrt_fin m e) - ?x\<bar> \<le> ?x * 2 powi (- 53)"
    using f_round_relative [OF num pow2_int_pos up dn, of False] unfolding fin quot by simp
  ultimately show "f_finite (sqrt_fin m e)" "\<bar>f_val (sqrt_fin m e) - sqrt ?v\<bar> \<le> sqrt ?v * 2 powi (- 52)"
    using root_rounding [OF near] bounds by simp_all
qed

text \<open>
  C30. The standard deviation of the report is the square root of the variance up to a relative error of
  \<open>2^-52\<close>, for every variance below \<open>2^53\<close> square microseconds (a deviation of about 95 seconds). A variance
  of \<open>2^64\<close> or more does not fit into a \<open>usize\<close>: the report then says zero.
\<close>

theorem stddev_accurate:
  "if uint v < 2 ^ 53 then f_finite (stddev v) \<and>
       \<bar>f_val (stddev v) - sqrt (real_of_int (uint v))\<bar> \<le> sqrt (real_of_int (uint v)) * 2 powi (- 52)
   else if 2 ^ 64 \<le> uint v then stddev v = f_zero False else True"
proof (cases "uint v = 0 \<or> 2 ^ 64 \<le> uint v")
  case True
  then have "stddev v = f_zero False" by (auto simp: stddev_def f_of_int_def f_round_def f_zero_def)
  moreover have "v = 0 \<or> 2 ^ 64 \<le> uint v" using True by (simp add: unsigned_eq_0_iff)
  ultimately show ?thesis by (auto simp: f_zero_def)
next
  case False
  show ?thesis
  proof (cases "uint v < 2 ^ 53")
    case True
    define u where "u = uint v"
    have u: "0 < u" "u < 2 ^ 53" using False True uint_ge_0 [of v] unfolding u_def by linarith+
    have "\<bar>u\<bar> < 2 ^ 53" using u by simp
    note fin = f_of_int_exact [OF this]
    obtain s m e where x: "f_of_int u = F_Fin s m e" "0 \<le> m" using fin(1) by (rule f_finite_cases)
    have val: "real_of_int (signed_val s m) * 2 powi e = real_of_int u" using fin(2) by (simp add: x)
    have "0 < real_of_int (signed_val s m) * 2 powi e" using val u by simp
    then have "0 < real_of_int (signed_val s m)" by (rule zero_less_mult_pos2) simp
    then have m: "\<not> s" "0 < m" using x(2) by (auto simp: signed_val_def split: if_splits)
    with val have v: "real_of_int m * 2 powi e = real_of_int u" by (simp add: signed_val_def)
    have "stddev v = f_sqrt (f_of_int u)" using u by (simp add: stddev_def flip: u_def)
    then have "stddev v = sqrt_fin m e" using m x by simp
    moreover have "1 \<le> real_of_int u" "real_of_int u < 2 ^ 53" using u by simp_all
    ultimately show ?thesis using sqrt_fin_accurate [OF m(2), of e] u(2) unfolding v u_def [symmetric] by simp
  qed (use False in simp)
qed

end
