(* ===== verification/Packet.thy ===== *)
theory Packet
  imports Readers
begin

text \<open>
  The packet of \<open>Stats::stat_packet\<close> read back: a consumer that splits the line at its commas and takes
  the fields in pairs finds every statistic under its name.
\<close>

definition stat_keys :: "string \<Rightarrow> string list" where
  "stat_keys n = [n, n @ ''_min'', n @ ''_max'', n @ ''_avg'', n @ ''_sum'', n @ ''_cnt'']"

definition stat_texts :: "(f64 \<Rightarrow> string) \<Rightarrow> Stat \<Rightarrow> string list" where
  "stat_texts fmt s =
    [show_stat_value fmt (value_now s), show_stat_value fmt (value_min s), show_stat_value fmt (value_max s),
     fmt (stat_avg s), show_stat_value fmt (value_sum s), show_i64 (value_cnt s)]"

definition key_suffixes :: "string list" where
  "key_suffixes = [''_min'', ''_max'', ''_avg'', ''_sum'', ''_cnt'']"

definition base_name :: "string \<Rightarrow> bool" where
  "base_name n \<longleftrightarrow> list_all (\<lambda>s. strip_suffix s n = None) key_suffixes"

lemma stat_keys_iff: "k \<in> set (stat_keys n) \<longleftrightarrow> k = n \<or> (\<exists>s \<in> set key_suffixes. k = n @ s)"
  by (auto simp: stat_keys_def key_suffixes_def)

lemma base_name_append: "base_name n \<Longrightarrow> s \<in> set key_suffixes \<Longrightarrow> n \<noteq> m @ s"
  by (auto simp: base_name_def list_all_iff strip_suffix_None)

lemma key_suffix_length: "s \<in> set key_suffixes \<Longrightarrow> length s = 4"
  by (auto simp: key_suffixes_def)

lemma stat_keys_disjoint:
  assumes "base_name n" "base_name m" "n \<noteq> m"
  shows "set (stat_keys n) \<inter> set (stat_keys m) = {}"
proof -
  have "n @ s \<noteq> m @ t" if "s \<in> set key_suffixes" "t \<in> set key_suffixes" for s t
    using that assms(3) key_suffix_length by auto
  then show ?thesis
    using assms base_name_append [OF assms(1)] base_name_append [OF assms(2)]
    by (fastforce simp: stat_keys_iff)
qed

lemma keys_distinct: "distinct ns \<Longrightarrow> list_all base_name ns \<Longrightarrow> distinct (concat (map stat_keys ns))"
proof (induction ns)
  case (Cons n ns)
  have "distinct (stat_keys n)" by (simp add: stat_keys_def)
  moreover have "set (stat_keys n) \<inter> set (stat_keys m) = {}" if "m \<in> set ns" for m
    using Cons.prems that by (intro stat_keys_disjoint) (auto simp: list_all_iff)
  ultimately show ?case using Cons by auto
qed simp

definition stat_names :: "string list" where
  "stat_names = map stat_name STATS_INIT"

lemma stat_names_ok: "distinct stat_names" "list_all base_name stat_names"
  "list_all (\<lambda>n. CHR '','' \<notin> set n \<and> CHR 0x0A \<notin> set n) stat_names" "length stat_names = 54"
  by code_simp+


lemma stat_row_length: "length (stat_keys n) = 6" "length (stat_texts fmt s) = 6"
  by (simp_all add: stat_keys_def stat_texts_def)

section \<open>Reading a packet\<close>

definition read_packet :: "string \<Rightarrow> (string \<times> string) list" where
  "read_packet packet = tuples (split_on (CHR '','') (butlast packet))"

definition stat_entries :: "(f64 \<Rightarrow> string) \<Rightarrow> string \<Rightarrow> Stat \<Rightarrow> (string \<times> string) list" where
  "stat_entries fmt hp s = zip (map (\<lambda>k. hp @ k) (stat_keys (stat_name s))) (stat_texts fmt s)"

definition float_chars :: "char set" where
  "float_chars = set ''-.0123456789infNa''"

definition clean :: "string \<Rightarrow> bool" where
  "clean t \<longleftrightarrow> CHR '','' \<notin> set t \<and> CHR 0x0A \<notin> set t"

definition flat :: "(string \<times> string) list \<Rightarrow> string list" where
  "flat es = concat (map (\<lambda>(k, t). [k, t]) es)"

lemma stat_fields_flat: "stat_fields fmt hp s = flat (stat_entries fmt hp s)"
  by (simp add: stat_fields_def stat_entries_def flat_def stat_keys_def stat_texts_def Let_def)

lemma tuples_flat: "tuples (flat es) = es"
  by (induction es) (auto simp: flat_def)

lemma flat_concat: "flat (concat ess) = concat (map flat ess)"
  by (induction ess) (simp_all add: flat_def)

lemma butlast_terminated: "fs \<noteq> [] \<Longrightarrow> butlast (concat (map (\<lambda>f. f @ [c]) fs)) = join_with c fs"
proof (induction fs)
  case (Cons f fs)
  then show ?case by (cases fs) (auto simp: butlast_append)
qed simp

definition packet_entries :: "(f64 \<Rightarrow> string) \<Rightarrow> Stats \<Rightarrow> (string \<times> string) list" where
  "packet_entries fmt s = concat (map (stat_entries fmt (host_prefix s)) (st_table s))"

lemma stat_packet_join:
  assumes "st_table s \<noteq> []"
  shows "stat_packet fmt s = join_with (CHR '','') (flat (packet_entries fmt s)) @ [CHR 0x0A]"
proof -
  have eq: "concat (map (\<lambda>st. concat (map (\<lambda>f. f @ [CHR '','']) (stat_fields fmt (host_prefix s) st))) (st_table s)) =
      concat (map (\<lambda>f. f @ [CHR '','']) (flat (packet_entries fmt s)))"
  proof -
    have "concat (map (\<lambda>st. concat (map (\<lambda>f. f @ [CHR '','']) (stat_fields fmt hp st))) t) =
        concat (map (\<lambda>f. f @ [CHR '','']) (concat (map flat (map (stat_entries fmt hp) t))))" for hp t
      by (induction t) (simp_all add: stat_fields_flat)
    then show ?thesis by (simp only: packet_entries_def flat_concat)
  qed
  have "flat (packet_entries fmt s) \<noteq> []"
    using assms by (cases "st_table s") (auto simp: packet_entries_def flat_def stat_entries_def stat_keys_def stat_texts_def)
  then show ?thesis unfolding stat_packet_def Let_def eq by (simp add: butlast_terminated)
qed

lemma show_value_clean:
  assumes "\<And>x. set (fmt x) \<subseteq> float_chars"
  shows "clean (show_stat_value fmt v)" "clean (fmt f)" "clean (show_i64 w)"
proof -
  have n: "clean (show_i64 w)" for w
    using i64_text.show_chars [of w] by (auto simp: clean_def number_chars_def)
  have f: "clean (fmt f)" for f
    using assms [of f] by (auto simp: clean_def float_chars_def)
  show "clean (show_stat_value fmt v)" "clean (fmt f)" "clean (show_i64 w)"
    using n f by (cases v; simp)+
qed

lemma stat_entries_clean:
  assumes "\<And>x. set (fmt x) \<subseteq> float_chars" "clean hp" "clean (stat_name s)" "t \<in> set (flat (stat_entries fmt hp s))"
  shows "clean t"
proof -
  have "clean (hp @ k)" if "k \<in> set (stat_keys (stat_name s))" for k
    using that assms(2,3) by (auto simp: stat_keys_def clean_def)
  moreover have "clean u" if "u \<in> set (stat_texts fmt s)" for u
    using that show_value_clean [of fmt, OF assms(1)] by (auto simp: stat_texts_def)
  moreover have "t \<in> (\<lambda>k. hp @ k) ` set (stat_keys (stat_name s)) \<union> set (stat_texts fmt s)"
    using assms(4) by (auto simp: flat_def stat_entries_def dest: set_zip_leftD set_zip_rightD)
  ultimately show ?thesis by blast
qed

lemma packet_clean:
  assumes "\<And>x. set (fmt x) \<subseteq> float_chars" "clean (host_prefix s)" "map stat_name (st_table s) = stat_names"
  shows "t \<in> set (flat (packet_entries fmt s)) \<Longrightarrow> clean t"
proof -
  assume "t \<in> set (flat (packet_entries fmt s))"
  then obtain st where st: "st \<in> set (st_table s)" "t \<in> set (flat (stat_entries fmt (host_prefix s) st))"
    by (auto simp: packet_entries_def flat_concat)
  have "stat_name st \<in> set stat_names" using st(1) assms(3) by (metis image_eqI set_map)
  then have "clean (stat_name st)" using stat_names_ok(3) by (auto simp: list_all_iff clean_def)
  with st(2) assms(1,2) stat_entries_clean show ?thesis by blast
qed

lemma read_packet_entries:
  assumes "\<And>x. set (fmt x) \<subseteq> float_chars" "clean (host_prefix s)" "map stat_name (st_table s) = stat_names"
  shows "read_packet (stat_packet fmt s) = packet_entries fmt s"
proof -
  have "length (st_table s) = 54" using assms(3) stat_names_ok(4) by (metis length_map)
  then have ne: "st_table s \<noteq> []" by auto
  have "flat (packet_entries fmt s) \<noteq> []"
    using ne by (cases "st_table s") (auto simp: packet_entries_def flat_def stat_entries_def stat_keys_def stat_texts_def)
  then have "split_on (CHR '','') (join_with (CHR '','') (flat (packet_entries fmt s))) = flat (packet_entries fmt s)"
    by (rule split_on_join) (use packet_clean [OF assms] in \<open>auto simp: clean_def\<close>)
  then show ?thesis by (simp add: read_packet_def stat_packet_join [OF ne] tuples_flat)
qed

lemma packet_keys:
  assumes "map stat_name (st_table s) = stat_names"
  shows "map fst (packet_entries fmt s) = map (\<lambda>k. host_prefix s @ k) (concat (map stat_keys stat_names))"
proof -
  have "map fst (stat_entries fmt hp st) = map (\<lambda>k. hp @ k) (stat_keys (stat_name st))" for hp st
    by (simp add: stat_entries_def stat_keys_def stat_texts_def)
  then have "map fst (packet_entries fmt s) =
      concat (map (\<lambda>st. map (\<lambda>k. host_prefix s @ k) (stat_keys (stat_name st))) (st_table s))"
    by (simp add: packet_entries_def map_concat comp_def)
  also have "\<dots> = map (\<lambda>k. host_prefix s @ k) (concat (map stat_keys (map stat_name (st_table s))))"
    by (simp add: map_concat comp_def)
  finally show ?thesis using assms by simp
qed

lemma packet_keys_distinct:
  "map stat_name (st_table s) = stat_names \<Longrightarrow> distinct (map fst (packet_entries fmt s))"
  unfolding packet_keys by (simp add: distinct_map keys_distinct stat_names_ok inj_on_def)


definition one_line :: "string \<Rightarrow> bool" where
  "one_line t \<longleftrightarrow> t \<noteq> [] \<and> last t = CHR 0x0A \<and> CHR 0x0A \<notin> set (butlast t)"

lemma packet_one_line:
  assumes "\<And>x. set (fmt x) \<subseteq> float_chars" "clean (host_prefix s)" "map stat_name (st_table s) = stat_names"
  shows "one_line (stat_packet fmt s)"
proof -
  have "length (st_table s) = 54" using assms(3) stat_names_ok(4) by (metis length_map)
  then have ne: "st_table s \<noteq> []" by auto
  have "CHR 0x0A \<notin> set (join_with (CHR '','') (flat (packet_entries fmt s)))"
    using packet_clean [of fmt s, OF assms] join_with_chars by (fastforce simp: clean_def)
  then show ?thesis by (simp add: one_line_def stat_packet_join [OF ne])
qed




end
