(* ===== verification/Runs.thy ===== *)
theory Runs
  imports Main
begin

text \<open>
  Runs of a program as sequences of steps with a log of what each step did: the contract that the step
  relations of the monitoring server, of the load generator and of whole experiments share, and what follows
  from it for all of them: runs compose, and what every step keeps holds along every run.
\<close>

locale logged_run =
  fixes step :: "'s \<Rightarrow> 'e \<Rightarrow> 's \<Rightarrow> bool" and run :: "'s \<Rightarrow> 'e list \<Rightarrow> 's \<Rightarrow> bool"
  assumes run_nil: "run s [] s' \<longleftrightarrow> s' = s"
    and run_snoc: "run s (es @ [e]) s' \<longleftrightarrow> (\<exists>s1. run s es s1 \<and> step s1 e s')"
begin

lemma run_refl: "run s [] s"
  by (simp add: run_nil)

lemma run_one: "step s e s' \<Longrightarrow> run s [e] s'"
  using run_snoc [of s "[]" e s'] by (simp add: run_nil)

lemma run_append: "run s es s1 \<Longrightarrow> run s1 es' s2 \<Longrightarrow> run s (es @ es') s2"
proof (induction es' arbitrary: s2 rule: rev_induct)
  case Nil
  then show ?case by (simp add: run_nil)
next
  case (snoc e es')
  then obtain s3 where "run s (es @ es') s3" "step s3 e s2" by (auto simp: run_snoc)
  then have "run s ((es @ es') @ [e]) s2" by (auto simp only: run_snoc)
  then show ?case by simp
qed

text \<open>What is true of the log and the state at the start and is kept by every step of a run is true at its end.\<close>

lemma run_log_invariant:
  assumes "run s es s'" "I [] s"
    and "\<And>es e s1 s2. run s es s1 \<Longrightarrow> I es s1 \<Longrightarrow> step s1 e s2 \<Longrightarrow> I (es @ [e]) s2"
  shows "I es s'"
  using assms(1)
proof (induction es arbitrary: s' rule: rev_induct)
  case Nil
  with assms(2) show ?case by (simp add: run_nil)
next
  case (snoc e es)
  then show ?case using assms(3) by (auto simp: run_snoc)
qed

lemma run_invariant:
  assumes "run s es s'" "I s" "\<And>e s1 s2. I s1 \<Longrightarrow> step s1 e s2 \<Longrightarrow> I s2"
  shows "I s'"
  using assms(1,2) run_log_invariant [of s es s' "\<lambda>_. I"] assms(3) by blast

end

end
