(* ===== verification/Server.thy ===== *)
theory Server
  imports Ranges Packet Runs
begin

text \<open>
  The monitoring server, \<^verbatim>\<open>statmon/src/main.rs\<close>: the one-byte protocol of a connection, the start-up,
  and the server as a whole, where the ticker and the connections take turns on the shared statistics.

  The runtime has one thread and a task gives up the thread only where it awaits, so each turn (a tick, or
  one byte of a connection) is one step. The socket, the listener and the option parser are parameters:
  what a read, a write or an accept answers is part of the connection or of the event.
\<close>

record Options =
  port :: "16 word"
  opt_host_prefix :: string
  netdev :: string

definition Options_default :: "string \<Rightarrow> Options" where
  "Options_default dev = \<lparr>port = 8125, opt_host_prefix = ''local_'', netdev = dev\<rparr>"

section \<open>The protocol of a connection\<close>

datatype control = Continue | Break

text \<open>One iteration of the loop: what the byte does, whether the loop goes on, and the packet to send.\<close>

definition handle_byte ::
  "profile \<Rightarrow> os \<Rightarrow> event_order \<Rightarrow> (f64 \<Rightarrow> string) \<Rightarrow> u8 \<Rightarrow> (Stats, control \<times> string option) sys" where
  "handle_byte p env order fmt b =
    (if b = 0x0A \<or> b = 0x0D \<or> b = 0 then ret (Continue, None)
     else if b = 0x71 then ret (Break, None)
     else if b = 0x5B then
       seq (stats_update p env order) (
       seq (begin_range env order) (
       ret (Continue, None)))
     else if b = 0x5D then
       seq (stats_update p env order) (
       seq (end_range env order) (
       bind (get_state (stat_packet fmt)) (\<lambda>pkt.
       ret (Continue, Some pkt))))
     else if b = 0x3F then
       bind (get_state (stat_packet fmt)) (\<lambda>pkt.
       ret (Continue, Some pkt))
     else ret (Continue, None))"

text \<open>
  A connection: the answers of its reads (a byte or an error; the end of the list is the end of the
  stream), of its writes in order, of setting \<open>nodelay\<close> and of the shutdown, and what has been sent.
\<close>

record conn =
  c_nodelay :: "io_error option"
  c_reads :: "(io_error + u8) list"
  c_writes :: "io_error option list"
  c_shutdown :: "io_error option"
  c_sent :: "string list"

definition io_unit :: "io_error option \<Rightarrow> unit outcome" where
  "io_unit r = (case r of None \<Rightarrow> Ok () | Some e \<Rightarrow> Err (IoError e))"

text \<open>\<open>wc.write_all(packet)\<close>; with no answer left the write succeeds.\<close>

definition write_all :: "string \<Rightarrow> (Stats \<times> conn, unit) sys" where
  "write_all pkt =
    bind (get_state (\<lambda>s. c_writes (snd s))) (\<lambda>ws.
    case ws of
      [] \<Rightarrow> on_state (apsnd (\<lambda>c. c\<lparr>c_sent := c_sent c @ [pkt]\<rparr>))
    | r # rs \<Rightarrow>
        seq (on_state (apsnd (\<lambda>c. c\<lparr>c_writes := rs\<rparr>))) (
        seq (lift_o (io_unit r)) (
        on_state (apsnd (\<lambda>c. c\<lparr>c_sent := c_sent c @ [pkt]\<rparr>)))))"

text \<open>\<open>rc.read_exact(&mut rdbuf)\<close> on a buffer of one byte.\<close>

definition read_byte :: "(Stats \<times> conn, u8) sys" where
  "read_byte =
    bind (get_state (\<lambda>s. c_reads (snd s))) (\<lambda>rs.
    case rs of
      [] \<Rightarrow> lift_o (Err UnexpectedEof)
    | r # rs' \<Rightarrow>
        seq (on_state (apsnd (\<lambda>c. c\<lparr>c_reads := rs'\<rparr>))) (
        lift_o (case r of Inl e \<Rightarrow> Err (IoError e) | Inr b \<Rightarrow> Ok b)))"

definition conn_iteration ::
  "profile \<Rightarrow> os \<Rightarrow> event_order \<Rightarrow> (f64 \<Rightarrow> string) \<Rightarrow> (Stats \<times> conn, control) sys" where
  "conn_iteration p env order fmt =
    bind read_byte (\<lambda>b.
    bind (within fst (\<lambda>t s. (t, snd s)) (handle_byte p env order fmt b)) (\<lambda>(k, out).
    seq (case out of None \<Rightarrow> ret () | Some pkt \<Rightarrow> write_all pkt) (
    ret k)))"

text \<open>The loop ends at the latest when the reads do, so it is a recursion over as many turns.\<close>

primrec conn_loop ::
  "profile \<Rightarrow> os \<Rightarrow> event_order \<Rightarrow> (f64 \<Rightarrow> string) \<Rightarrow> nat \<Rightarrow> (Stats \<times> conn, unit) sys" where
  "conn_loop p env order fmt 0 = bind (conn_iteration p env order fmt) (\<lambda>_. ret ())"
| "conn_loop p env order fmt (Suc n) =
    bind (conn_iteration p env order fmt) (\<lambda>k.
    case k of Break \<Rightarrow> ret () | Continue \<Rightarrow> conn_loop p env order fmt n)"

definition conn_handler ::
  "profile \<Rightarrow> os \<Rightarrow> event_order \<Rightarrow> (f64 \<Rightarrow> string) \<Rightarrow> (Stats \<times> conn, unit) sys" where
  "conn_handler p env order fmt =
    bind (get_state (\<lambda>s. io_unit (c_nodelay (snd s)))) (\<lambda>r.
    seq (lift_o r) (
    bind (get_state (\<lambda>s. length (c_reads (snd s)))) (\<lambda>n.
    seq (conn_loop p env order fmt n) (
    bind (get_state (\<lambda>s. io_unit (c_shutdown (snd s)))) lift_o))))"

section \<open>Start-up\<close>

text \<open>The statistics before the first connection: two updates, so that differences are meaningful.\<close>

definition server_setup :: "profile \<Rightarrow> os \<Rightarrow> event_order \<Rightarrow> Options \<Rightarrow> (Stats, unit) sys" where
  "server_setup p env order opts =
    seq (on_state (\<lambda>s. s\<lparr>host_prefix := opt_host_prefix opts\<rparr>)) (
    seq (on_state (\<lambda>s. s\<lparr>net_iface := netdev opts\<rparr>)) (
    seq (stats_update p env order) (
    stats_update p env order)))"


section \<open>The server\<close>

text \<open>A task that panics does so by itself, or on purpose with the text of an error.\<close>

datatype task = Running | Finished | FailedWith error | Panicked panic | PanickedWith error

record server =
  srv_stats :: Stats
  srv_world :: world
  srv_ticker :: task
  srv_conns :: "(conn \<times> task) list"
  srv_aborted :: bool

text \<open>What a step did to the statistics: one update, one handled byte, or nothing that succeeded.\<close>

datatype action = Updated | Handled u8 | Silent

text \<open>A panic ends its task in the default profile and the process in the release profile.\<close>

definition panic_effect :: "profile \<Rightarrow> server \<Rightarrow> server" where
  "panic_effect p srv = (case p of Dev \<Rightarrow> srv | Release \<Rightarrow> srv\<lparr>srv_aborted := True\<rparr>)"

text \<open>The ticker panics when its update returns an error.\<close>

definition after_tick :: "profile \<Rightarrow> unit outcome \<Rightarrow> server \<Rightarrow> server" where
  "after_tick p r srv =
    (case r of
       Ok _ \<Rightarrow> srv
     | Err e \<Rightarrow> panic_effect p (srv\<lparr>srv_ticker := PanickedWith e\<rparr>)
     | Panic q \<Rightarrow> panic_effect p (srv\<lparr>srv_ticker := Panicked q\<rparr>))"

definition accepted :: "conn \<Rightarrow> conn \<times> task" where
  "accepted c = (c, case c_nodelay c of None \<Rightarrow> Running | Some e \<Rightarrow> FailedWith (IoError e))"

definition after_turn :: "profile \<Rightarrow> nat \<Rightarrow> conn \<Rightarrow> control outcome \<Rightarrow> server \<Rightarrow> server" where
  "after_turn p i c r srv =
    (let put = (\<lambda>t. srv\<lparr>srv_conns := (srv_conns srv)[i := (c, t)]\<rparr>) in
     case r of
       Ok Continue \<Rightarrow> put Running
     | Ok Break \<Rightarrow> put (case c_shutdown c of None \<Rightarrow> Finished | Some e \<Rightarrow> FailedWith (IoError e))
     | Err e \<Rightarrow> put (FailedWith e)
     | Panic q \<Rightarrow> panic_effect p (put (Panicked q)))"

definition turn_action ::
  "profile \<Rightarrow> os \<Rightarrow> event_order \<Rightarrow> (f64 \<Rightarrow> string) \<Rightarrow> conn \<Rightarrow> Stats \<times> world \<Rightarrow> action" where
  "turn_action p env order fmt c sw =
    (case c_reads c of
       Inr b # _ \<Rightarrow> (case fst (handle_byte p env order fmt b sw) of Ok _ \<Rightarrow> Handled b | _ \<Rightarrow> Silent)
     | _ \<Rightarrow> Silent)"

inductive server_step ::
  "profile \<Rightarrow> os \<Rightarrow> event_order \<Rightarrow> (f64 \<Rightarrow> string) \<Rightarrow> server \<Rightarrow> action \<Rightarrow> server \<Rightarrow> bool"
  for p env order fmt where
  tick:
    "\<not> srv_aborted srv \<Longrightarrow> srv_ticker srv = Running \<Longrightarrow>
     stats_update p env order (srv_stats srv, srv_world srv) = (r, (s, w)) \<Longrightarrow>
     server_step p env order fmt srv (case r of Ok _ \<Rightarrow> Updated | _ \<Rightarrow> Silent)
       (after_tick p r (srv\<lparr>srv_stats := s, srv_world := w\<rparr>))"
| accept_ok:
    "\<not> srv_aborted srv \<Longrightarrow> c_sent c = [] \<Longrightarrow>
     server_step p env order fmt srv Silent (srv\<lparr>srv_conns := srv_conns srv @ [accepted c]\<rparr>)"
| accept_err: "\<not> srv_aborted srv \<Longrightarrow> server_step p env order fmt srv Silent srv"
| turn:
    "\<not> srv_aborted srv \<Longrightarrow> i < length (srv_conns srv) \<Longrightarrow> srv_conns srv ! i = (c, Running) \<Longrightarrow>
     conn_iteration p env order fmt ((srv_stats srv, c), srv_world srv) = (r, ((s, c'), w)) \<Longrightarrow>
     server_step p env order fmt srv (turn_action p env order fmt c (srv_stats srv, srv_world srv))
       (after_turn p i c' r (srv\<lparr>srv_stats := s, srv_world := w\<rparr>))"

inductive server_run ::
  "profile \<Rightarrow> os \<Rightarrow> event_order \<Rightarrow> (f64 \<Rightarrow> string) \<Rightarrow> server \<Rightarrow> action list \<Rightarrow> server \<Rightarrow> bool"
  for p env order fmt where
  run_start: "server_run p env order fmt srv [] srv"
| run_step:
    "server_run p env order fmt srv as srv1 \<Longrightarrow> server_step p env order fmt srv1 a srv2 \<Longrightarrow>
     server_run p env order fmt srv (as @ [a]) srv2"

inductive_cases server_stepE: "server_step p env order fmt srv a srv'"

interpretation srv_runs: logged_run "server_step p env order fmt" "server_run p env order fmt" for p env order fmt
proof unfold_locales
  show "server_run p env order fmt srv [] srv' \<longleftrightarrow> srv' = srv" for srv srv'
    by (auto elim: server_run.cases intro: run_start)
  show "server_run p env order fmt srv (as @ [a]) srv' \<longleftrightarrow>
      (\<exists>srv1. server_run p env order fmt srv as srv1 \<and> server_step p env order fmt srv1 a srv')" for srv as a srv'
    by (auto elim: server_run.cases intro: run_step)
qed

text \<open>The server when \<open>async_main\<close> enters its accept loop: set up, the ticker spawned, nobody connected.\<close>

definition server_start :: "profile \<Rightarrow> os \<Rightarrow> event_order \<Rightarrow> Options \<Rightarrow> world \<Rightarrow> server outcome option" where
  "server_start p env order opts w0 =
    (case Stats_new env w0 of
       None \<Rightarrow> None
     | Some (s, w) \<Rightarrow> Some (case server_setup p env order opts (s, w) of
         (Ok _, (s', w')) \<Rightarrow> Ok \<lparr>srv_stats = s', srv_world = w', srv_ticker = Running, srv_conns = [], srv_aborted = False\<rparr>
       | (Err e, _) \<Rightarrow> Err e
       | (Panic q, _) \<Rightarrow> Panic q))"

section \<open>The server invariant\<close>

text \<open>What every operation on the statistics keeps, whether it succeeds or not.\<close>

definition stats_inv :: "string \<Rightarrow> Stats \<Rightarrow> bool" where
  "stats_inv hp s \<longleftrightarrow> wf_stats s \<and> map stat_name (st_table s) = stat_names \<and> host_prefix s = hp"

lemma stat_name_frame: "map stat_name t = map stat_name (map stat_frame t)"
  by (simp add: stat_frame_def)

lemma framed_names: "framed F r h s \<Longrightarrow> framed F r h s' \<Longrightarrow> map stat_name (st_table s') = map stat_name (st_table s)"
  unfolding framed_def using stat_name_frame by metis


lemma update_aggregate_name: "stat_name (snd (update_aggregate p s)) = stat_name s"
  by (simp add: update_aggregate_def bind_def seq_def modify_def gets_def lift_o_def split: outcome.splits prod.splits)

lemma each_aggregate_names: "map stat_name (snd (each_stat (update_aggregate p) t)) = map stat_name t"
proof (induction t)
  case (Cons s t)
  then show ?case
    using update_aggregate_name [of p s] by (auto split: prod.splits outcome.splits)
qed simp


lemma upd_aggregates_keeps_inv: "keeps (stats_inv hp) (upd_aggregates p)"
proof -
  have "pres (\<lambda>t. wf_table t \<and> map stat_name t = stat_names) (each_stat (update_aggregate p))"
    using presD [OF each_stat_wf [OF update_aggregate_pres, of p]] each_aggregate_names
    by (intro presI) metis
  then have "keeps (stats_inv hp) (pure_within st_table (\<lambda>t s. s\<lparr>st_table := t\<rparr>) (each_stat (update_aggregate p)))"
    by (rule keeps_pure_within) (auto simp: stats_inv_def wf_stats_def)
  then show ?thesis unfolding upd_aggregates_def by (intro keeps_rules)
qed

lemma sample_keeps_inv:
  assumes "iterates order"
  shows "keeps (stats_inv hp) (sample p env order)"
proof (rule keepsI)
  fix s w
  assume inv: "stats_inv hp s"
  obtain r s' w' where run: "sample p env order (s, w) = (r, (s', w'))" by (metis prod.exhaust)
  have fr: "framed (map stat_frame (st_table s)) (in_range s) hp s" using inv by (simp add: framed_def stats_inv_def)
  have fr': "framed (map stat_frame (st_table s)) (in_range s) hp s'" by (rule keepsE [OF sample_frame run fr])
  have "wf_stats s'" using safe_Ok [OF sample_safe [OF assms] _ run] inv by (simp add: stats_inv_def)
  with inv framed_names [OF fr fr'] fr' have "stats_inv hp s'" unfolding stats_inv_def framed_def by metis
  with run show "stats_inv hp (fst (snd (sample p env order (s, w))))" by simp
qed

lemma stats_update_keeps_inv: "iterates order \<Longrightarrow> keeps (stats_inv hp) (stats_update p env order)"
  unfolding stats_update_def by (intro keeps_rules sample_keeps_inv upd_aggregates_keeps_inv)

lemma range_keeps_inv:
  assumes "iterates order"
  shows "keeps (stats_inv hp) (begin_range env order)" "keeps (stats_inv hp) (end_range env order)"
proof -
  have ev: "keeps (stats_inv hp) (within (\<lambda>s. (st_events s, ())) (\<lambda>t s. s\<lparr>st_events := fst t\<rparr>) m)"
    if "safe (beside (\<lambda>s. wf_events (fst s))) (\<lambda>_. True) m" for m :: "(EventStat \<times> unit, unit) sys"
    using safe_pres [OF that]
    by (intro keeps_within [where J = "\<lambda>s. wf_events (fst s)"]) (auto simp: keeps_def beside_def split_def stats_inv_def wf_stats_def)
  have rs: "stats_inv hp (s\<lparr>st_table := map stat_reset (st_table s)\<rparr>)" if "stats_inv hp s" for s
    using that wf_stats_reset by (auto simp: stats_inv_def stat_reset_def comp_def)
  have ir: "stats_inv hp (s\<lparr>in_range := b\<rparr>) = stats_inv hp s" for s b by (simp add: stats_inv_def)
  show "keeps (stats_inv hp) (begin_range env order)"
    unfolding begin_range_def
    by (intro keeps_rules keeps_on_state ev range_events_safe(1) [OF assms]) (simp_all add: rs ir)
  show "keeps (stats_inv hp) (end_range env order)"
    unfolding end_range_def
    by (intro keeps_rules keeps_on_state ev range_events_safe(2) [OF assms]) (simp_all add: ir)
qed

lemma handle_byte_keeps_inv:
  assumes "iterates order"
  shows "keeps (stats_inv hp) (handle_byte p env order fmt b)"
  unfolding handle_byte_def
  by (intro keeps_rules stats_update_keeps_inv range_keeps_inv assms)

lemma unlocked_samplers:
  "pres unlocked (cpu_update p env)" "pres unlocked (io_update env)" "pres unlocked (update_events p env order)"
  "pres unlocked (start_events env order)" "pres unlocked (stop_events env order)"
proof -
  have "pres unlocked (cpu_pass p env)" unfolding cpu_pass_def by (intro unlocked_rules)
  then show "pres unlocked (cpu_update p env)" unfolding cpu_update_def by (intro unlocked_rules)
  have "pres unlocked (io_pass env)" unfolding io_pass_def by (intro unlocked_rules)
  then show "pres unlocked (io_update env)" unfolding io_update_def by (intro unlocked_rules)
  have "pres unlocked (sum_counters p env stat cs v)" for stat cs v
    by (induction cs arbitrary: v) (auto intro!: unlocked_rules simp: in_context_def)
  then show "pres unlocked (update_events p env order)"
    unfolding update_events_def event_loop_def read_event_def by (intro unlocked_rules)
  show "pres unlocked (start_events env order)" "pres unlocked (stop_events env order)"
    unfolding start_events_def stop_events_def event_loop_def in_context_def by (intro unlocked_rules)+
qed

lemma unlocked_stats_update: "pres unlocked (stats_update p env order)"
proof -
  have "pres unlocked (upd_loadavg env)" unfolding upd_loadavg_def
    by (intro unlocked_rules unlocked_put_now unlocked_ensure_open)
  moreover have "pres unlocked (upd_meminfo p env)" unfolding upd_meminfo_def meminfo_line_def
    by (auto intro!: unlocked_rules unlocked_put_now unlocked_ensure_open split: option.splits)
  moreover have "pres unlocked (upd_net p env)" unfolding upd_net_def open_net_def net_counter_def Let_def
    by (auto intro!: unlocked_rules unlocked_put_now split: option.splits)
  moreover have "pres unlocked (upd_cpu p env)" "pres unlocked (upd_io p env)"
    unfolding upd_cpu_def upd_io_def put_index_def by (intro unlocked_rules unlocked_put_now unlocked_samplers)+
  moreover have "pres unlocked (upd_events p env order)" unfolding upd_events_def
    by (intro unlocked_rules unlocked_samplers)
  moreover have "pres unlocked (upd_aggregates p)" unfolding upd_aggregates_def by (intro unlocked_rules)
  ultimately show ?thesis
    unfolding stats_update_def sample_def by (intro pres_seq unlocked_upd_faasm)
qed

lemma unlocked_handle_byte: "pres unlocked (handle_byte p env order fmt b)"
  unfolding handle_byte_def begin_range_def end_range_def
  by (intro unlocked_rules unlocked_stats_update unlocked_samplers)


lemma handle_byte_packet:
  "handle_byte p env order fmt b (s, w) = (Ok (k, Some pkt), (s', w')) \<Longrightarrow> pkt = stat_packet fmt s'"
  by (auto simp: handle_byte_def seq_eq_Ok bind_eq_Ok split: if_splits)

definition conn_inv :: "string \<Rightarrow> (Stats \<times> conn) \<times> world \<Rightarrow> bool" where
  "conn_inv hp c \<longleftrightarrow> stats_inv hp (fst (fst c)) \<and> \<not> flocked (snd c) \<and> list_all one_line (c_sent (snd (fst c)))"

lemma read_byte_safe: "safe (conn_inv hp) (\<lambda>_. True) read_byte"
  unfolding read_byte_def
  by (rule safeI) (auto intro!: presI simp: conn_inv_def bind_def seq_def get_state_def gets_def on_state_def modify_def
      lift_o_def allowed_def split: list.splits sum.splits)

lemma write_all_safe: "one_line pkt \<Longrightarrow> safe (conn_inv hp) (\<lambda>_. True) (write_all pkt)"
  unfolding write_all_def
  by (rule safeI) (auto intro!: presI simp: conn_inv_def bind_def seq_def get_state_def gets_def on_state_def modify_def
      lift_o_def allowed_def io_unit_def split: list.splits option.splits)

lemma conn_iteration_inv:
  assumes "iterates order" "\<And>x. set (fmt x) \<subseteq> float_chars" "clean hp"
  shows "safe (conn_inv hp) (\<lambda>_. True) (conn_iteration p env order fmt)"
proof -
  let ?h = "\<lambda>b. within fst (\<lambda>t s. (t, snd s)) (handle_byte p env order fmt b) :: (Stats \<times> conn, control \<times> string option) sys"
  have handle: "safe (conn_inv hp) (\<lambda>_. True) (?h b)" for b
  proof (rule safeI, rule presI)
    fix c :: "(Stats \<times> conn) \<times> world"
    assume inv: "conn_inv hp c"
    obtain s d w where c: "c = ((s, d), w)" by (metis prod.exhaust)
    obtain r s' w' where run: "handle_byte p env order fmt b (s, w) = (r, (s', w'))" by (metis prod.exhaust)
    have "stats_inv hp s'" using keepsE [OF handle_byte_keeps_inv [OF assms(1)] run] inv c by (simp add: conn_inv_def)
    moreover have "\<not> flocked w'" using presE [OF unlocked_handle_byte run] inv c by (simp add: conn_inv_def unlocked_def)
    ultimately show "conn_inv hp (snd (?h b c))" using inv c run by (simp add: within_def zoom_def conn_inv_def)
  qed (simp add: allowed_def)
  have packet: "one_line pkt" if "returns (conn_inv hp) (?h b) (k, Some pkt)" for b k pkt
  proof -
    from that obtain s d w s' w' where inv: "conn_inv hp ((s, d), w)"
      and run: "handle_byte p env order fmt b (s, w) = (Ok (k, Some pkt), (s', w'))"
      by (auto simp: returns_def within_Ok)
    have "stats_inv hp s'" using keepsE [OF handle_byte_keeps_inv [OF assms(1)] run] inv by (simp add: conn_inv_def)
    then show ?thesis
      using packet_one_line [of fmt s', OF assms(2)] assms(3) handle_byte_packet [OF run] by (simp add: stats_inv_def)
  qed
  show ?thesis
    unfolding conn_iteration_def
    by (intro safe_rules read_byte_safe handle)
      (auto intro!: safe_rules write_all_safe dest: packet split: option.splits)
qed

definition server_inv :: "string \<Rightarrow> server \<Rightarrow> bool" where
  "server_inv hp srv \<longleftrightarrow> stats_inv hp (srv_stats srv) \<and> \<not> flocked (srv_world srv) \<and>
     list_all (\<lambda>ct. list_all one_line (c_sent (fst ct))) (srv_conns srv)"

lemma server_inv_panic [simp]: "server_inv hp (panic_effect p srv) = server_inv hp srv"
  by (simp add: server_inv_def panic_effect_def split: profile.splits)

lemma server_step_inv:
  assumes "server_step p env order fmt srv a srv'" "server_inv hp srv"
    and "iterates order" "\<And>x. set (fmt x) \<subseteq> float_chars" "clean hp"
  shows "server_inv hp srv'"
  using assms(1)
proof cases
  case (tick r s w)
  have "stats_inv hp s" using keepsE [OF stats_update_keeps_inv [OF assms(3)] tick(5)] assms(2) by (simp add: server_inv_def)
  moreover have "\<not> flocked w"
    using presE [OF unlocked_stats_update tick(5)] assms(2) by (simp add: server_inv_def unlocked_def)
  ultimately have "server_inv hp (srv\<lparr>srv_stats := s, srv_world := w\<rparr>)" using assms(2) by (simp add: server_inv_def)
  then show ?thesis unfolding tick(2) after_tick_def
    by (cases r) (simp_all, simp_all add: server_inv_def)
next
  case (accept_ok c)
  then show ?thesis using assms(2) by (simp add: server_inv_def accepted_def)
next
  case accept_err
  then show ?thesis using assms(2) by simp
next
  case (turn i c r s c' w)
  have "list_all one_line (c_sent c)"
    using assms(2) turn(4,5) unfolding server_inv_def list_all_length by (metis fst_conv)
  then have inv: "conn_inv hp ((srv_stats srv, c), srv_world srv)" using assms(2) by (simp add: conn_inv_def server_inv_def)
  from safeD [OF conn_iteration_inv [of order fmt hp p env, OF assms(3-5)] inv] turn(6)
  have "conn_inv hp ((s, c'), w)" by simp
  then have "server_inv hp (srv\<lparr>srv_stats := s, srv_world := w, srv_conns := (srv_conns srv)[i := (c', t)]\<rparr>)" for t
    using assms(2) turn(4) by (simp add: server_inv_def conn_inv_def list_all_length nth_list_update)
  then show ?thesis unfolding turn(2) after_turn_def Let_def
    by (cases r) (auto split: control.splits)
qed

lemma server_run_inv:
  assumes "server_run p env order fmt srv as srv'" "server_inv hp srv"
    and "iterates order" "\<And>x. set (fmt x) \<subseteq> float_chars" "clean hp"
  shows "server_inv hp srv'"
  by (rule srv_runs.run_invariant [where I = "server_inv hp", OF assms(1,2)]) (rule server_step_inv [OF _ _ assms(3-5)])


lemma Stats_new_fields:
  assumes "Stats_new env w = Some (s, w')"
  shows "wf_stats s \<and> st_table s = STATS_INIT \<and> in_range s = False"
  using assms Stats_new_wf [OF assms] by (auto simp: Stats_new_def split: option.splits)

lemma open_counters_unlocked:
  assumes "open_counters env ev k pcs w = Some rw"
  shows "flocked (snd rw) = flocked w"
proof (rule open_counters.raw_induct [where P = "\<lambda>env ev k pcs w rw. flocked (snd rw) = flocked w", OF _ assms])
  fix oc env ev k pcs w rw
  assume IH: "\<And>env ev k pcs w rw. oc env ev k pcs w = Some rw \<Longrightarrow> flocked (snd rw) = flocked w"
    and step: "(case pc_build env (clock w) ev k of Inl e \<Rightarrow> Some (pcs, tick w)
      | Inr pc \<Rightarrow> oc env ev (Suc k) (pcs @ [pc]) (tick w)) = Some rw"
  show "flocked (snd rw) = flocked w"
  proof (cases "pc_build env (clock w) ev k")
    case (Inl e)
    with step show ?thesis by auto
  next
    case (Inr pc)
    with step IH [of env ev "Suc k" "pcs @ [pc]" "tick w" rw] show ?thesis by simp
  qed
qed

lemma with_events_unlocked: "with_events env ses c = Some d \<Longrightarrow> flocked (snd d) = flocked (snd c)"
proof (induction ses arbitrary: c)
  case (Cons se ses)
  from Cons.prems obtain e where e: "with_event env se c = Some e" "with_events env ses e = Some d"
    by (cases "with_event env se c") auto
  have "flocked (snd e) = flocked (snd c)"
    using e(1) open_counters_unlocked [of env "snd se" 0 "[]" "snd c"] by (auto simp: with_event_def split: option.splits)
  with Cons.IH [OF e(2)] show ?case by simp
qed simp

lemma Stats_new_unlocked: "Stats_new env w = Some (s, w') \<Longrightarrow> flocked w' = flocked w"
  using with_events_unlocked [of env event_table "(\<lparr>events = hm_empty\<rparr>, w)"]
  by (auto simp: Stats_new_def EventStat_new_def split: option.splits)

lemma server_start_inv:
  assumes "server_start p env order opts w0 = Some (Ok srv)" "iterates order" "\<not> flocked w0"
  shows "server_inv (opt_host_prefix opts) srv \<and> \<not> in_range (srv_stats srv)"
proof -
  from assms(1) obtain s w s1 w1 where new: "Stats_new env w0 = Some (s, w)"
    and su: "server_setup p env order opts (s, w) = (Ok (), (s1, w1))"
    and srv: "srv = \<lparr>srv_stats = s1, srv_world = w1, srv_ticker = Running, srv_conns = [], srv_aborted = False\<rparr>"
    by (auto simp: server_start_def split: option.splits prod.splits outcome.splits)
  let ?s = "s\<lparr>host_prefix := opt_host_prefix opts, net_iface := netdev opts\<rparr>"
  from su obtain s2 w2 where u: "stats_update p env order (?s, w) = (Ok (), (s2, w2))"
      "stats_update p env order (s2, w2) = (Ok (), (s1, w1))"
    by (auto simp: server_setup_def seq_eq_Ok)
  have inv: "stats_inv (opt_host_prefix opts) ?s"
    using Stats_new_fields [OF new] by (simp add: stats_inv_def stat_names_def)
  have "stats_inv (opt_host_prefix opts) s1"
    using keepsE [OF stats_update_keeps_inv [OF assms(2)] u(1) inv] keepsE [OF stats_update_keeps_inv [OF assms(2)] u(2)]
    by blast
  moreover have "\<not> flocked w1"
    using presE [OF unlocked_stats_update u(1)] presE [OF unlocked_stats_update u(2)] Stats_new_unlocked [OF new] assms(3)
    by (simp add: unlocked_def)
  moreover have "\<not> in_range s1"
    using update_keeps_range [OF u(1)] update_keeps_range [OF u(2)] Stats_new_fields [OF new] by simp
  ultimately show ?thesis by (simp add: server_inv_def srv)
qed


section \<open>The server refines a counter of updates\<close>

text \<open>
  The abstract machine of a range: whether it is open, and how many updates it has seen. Opening and
  closing a range make an update of their own first; the one of the opening is not counted.
\<close>

definition abs_update :: "bool \<times> nat \<Rightarrow> bool \<times> nat" where
  "abs_update a = (fst a, if fst a then Suc (snd a) else snd a)"

fun abs_action :: "action \<Rightarrow> bool \<times> nat \<Rightarrow> bool \<times> nat" where
  "abs_action Updated a = abs_update a"
| "abs_action (Handled b) a =
    (if b = 0x5B then (True, 0)
     else if b = 0x5D then (False, snd (abs_update a))
     else a)"
| "abs_action Silent a = a"

definition range_rel :: "bool \<times> nat \<Rightarrow> Stats \<Rightarrow> bool" where
  "range_rel a s \<longleftrightarrow> in_range s = fst a \<and> (\<forall>i < 54. value_cnt (st_table s ! i) = of_nat (snd a))"

lemma range_rel_frame:
  assumes "framed F r h s" "framed F r h s'" "length (st_table s) = 54"
  shows "range_rel a s' = range_rel a s"
proof -
  have len: "length (st_table s') = 54" using assms unfolding framed_def by (metis length_map)
  have "stat_frame (st_table s' ! i) = stat_frame (st_table s ! i)" if "i < 54" for i
    using assms len that unfolding framed_def by (metis nth_map)
  moreover have "value_cnt (stat_frame st) = value_cnt st" for st by (simp add: stat_frame_def)
  ultimately have "value_cnt (st_table s' ! i) = value_cnt (st_table s ! i)" if "i < 54" for i using that by metis
  with assms(1,2) show ?thesis by (auto simp: range_rel_def framed_def)
qed

lemma update_aggregate_cnt:
  "update_aggregate Release s = (Ok (), s') \<Longrightarrow> value_cnt s' = value_cnt s + 1"
  by (auto simp: update_aggregate_def bind_eq_Ok seq_eq_Ok)

lemma upd_aggregates_range:
  assumes "upd_aggregates Release (s, w) = (Ok (), (s', w'))" "wf_stats s" "range_rel a s"
  shows "range_rel (abs_update a) s'"
proof (cases "in_range s")
  case False
  with upd_aggregates_Ok [OF assms(1)] assms(3) show ?thesis by (simp add: range_rel_def abs_update_def)
next
  case True
  then have s': "s' = s\<lparr>st_table := st_table s'\<rparr>"
      and ag: "each_stat (update_aggregate Release) (st_table s) = (Ok (), st_table s')"
    using upd_aggregates_Ok [OF assms(1)] by auto
  have "length (st_table s) = 54" using assms(2) by (simp add: wf_stats_def wf_table_def)
  then have "value_cnt (st_table s' ! i) = value_cnt (st_table s ! i) + 1" if "i < 54" for i
    using ag that update_aggregate_cnt [of "st_table s ! i" "st_table s' ! i"] by (simp add: each_stat_Ok)
  moreover have "in_range s'" using True by (subst s') simp
  ultimately show ?thesis using assms(3) True by (simp add: range_rel_def abs_update_def)
qed

lemma update_refines:
  assumes "iterates order" "wf_stats s" "range_rel a s"
    and "stats_update Release env order (s, w) = (r, (s', w'))"
  shows "range_rel (case r of Ok _ \<Rightarrow> abs_update a | _ \<Rightarrow> a) s'"
proof -
  let ?F = "map stat_frame (st_table s)"
  have fr: "framed ?F (in_range s) (host_prefix s) s" by (simp add: framed_def)
  have len: "length (st_table s) = 54" using assms(2) by (simp add: wf_stats_def wf_table_def)
  obtain r1 s1 w1 where sm: "sample Release env order (s, w) = (r1, (s1, w1))" by (metis prod.exhaust)
  have fr1: "framed ?F (in_range s) (host_prefix s) s1" by (rule keepsE [OF sample_frame sm fr])
  have rel1: "range_rel a s1" using range_rel_frame [OF fr fr1 len] assms(3) by simp
  have wf1: "wf_stats s1" by (rule safe_Ok [OF sample_safe [OF assms(1)] assms(2) sm])
  show ?thesis
  proof (cases r1)
    case (Ok x)
    with assms(4) sm have ag: "upd_aggregates Release (s1, w1) = (r, (s', w'))"
      by (simp add: stats_update_def seq_def bind_def)
    obtain y where y: "r = Ok y"
    proof -
      have "succeeds wf_table (each_stat (update_aggregate Release))" by (rule aggregate_succ)
      then have "succeeds (beside wf_stats) (pure_within st_table (\<lambda>t s. s\<lparr>st_table := t\<rparr>)
          (each_stat (update_aggregate Release)))"
        by (rule succ_pure_within) (simp_all add: wf_stats_def)
      then have "succeeds (beside wf_stats) (upd_aggregates Release)"
        unfolding upd_aggregates_def by (auto intro!: succ_rules)
      from succeedsD [OF this, of "(s1, w1)"] wf1 ag that show thesis by (auto simp: beside_def)
    qed
    with upd_aggregates_range [of s1 w1 s' w' a] ag wf1 rel1 show ?thesis by simp
  next
    case (Err e)
    with assms(4) sm have "r = Err e \<and> s' = s1" by (simp add: stats_update_def seq_def bind_def)
    with rel1 show ?thesis by simp
  next
    case (Panic q)
    with assms(4) sm have "r = Panic q \<and> s' = s1" by (simp add: stats_update_def seq_def bind_def)
    with rel1 show ?thesis by simp
  qed
qed

lemma begin_range_refines:
  assumes "begin_range env order (s, w) = (Ok (), (s', w'))" "wf_stats s"
  shows "range_rel (True, 0) s'"
  using begin_range_Ok [OF assms(1)] assms(2)
  by (simp add: range_rel_def stat_reset_def wf_stats_def wf_table_def)

lemma end_range_refines:
  assumes "end_range env order (s, w) = (Ok (), (s', w'))" "range_rel a s"
  shows "range_rel (False, snd a) s'"
  using assms by (auto simp: end_range_def seq_eq_Ok adapt_def within_Ok range_rel_def split: prod.splits)


lemma range_never_Err: "begin_range env order c \<noteq> (Err e, d)" "end_range env order c \<noteq> (Err e, d)"
proof -
  have u: "unwrap_res r \<noteq> Err e" for r :: "unit outcome" by (cases r) simp_all
  show "begin_range env order c \<noteq> (Err e, d)" "end_range env order c \<noteq> (Err e, d)"
    using u by (auto simp: begin_range_def end_range_def seq_def bind_def on_state_def modify_def adapt_def
        split: prod.splits)
qed

lemma handle_byte_refines:
  assumes "iterates order" "wf_stats s" "range_rel a s"
    and "handle_byte Release env order fmt b (s, w) = (r, (s', w'))" "\<not> is_panic r"
  shows "range_rel (case r of Ok _ \<Rightarrow> abs_action (Handled b) a | _ \<Rightarrow> a) s'"
proof -
  obtain r1 s1 w1 where u: "stats_update Release env order (s, w) = (r1, (s1, w1))" by (metis prod.exhaust)
  have rel1: "range_rel (case r1 of Ok _ \<Rightarrow> abs_update a | _ \<Rightarrow> a) s1" by (rule update_refines [OF assms(1-3) u])
  have wf1: "wf_stats s1" by (rule update_keeps_wf [OF assms(1,2) u])
  consider "b = 0x5B" | "b = 0x5D" | "b \<noteq> 0x5B" "b \<noteq> 0x5D" by blast
  then show ?thesis
  proof cases
    case 1
    show ?thesis
    proof (cases r1)
      case (Ok x)
      obtain r2 s2 w2 where bg: "begin_range env order (s1, w1) = (r2, (s2, w2))" by (metis prod.exhaust)
      have "r2 \<noteq> Panic q" for q using assms(4,5) u Ok bg 1 by (auto simp: handle_byte_def seq_def bind_def)
      then have "r2 = Ok ()" using range_never_Err(1) bg by (cases r2) auto
      with assms(4) u Ok bg 1 begin_range_refines [of env order s1 w1 s2 w2] wf1 show ?thesis
        by (auto simp: handle_byte_def seq_def bind_def)
    qed (use assms(4,5) u rel1 1 in \<open>auto simp: handle_byte_def seq_def bind_def\<close>)
  next
    case 2
    show ?thesis
    proof (cases r1)
      case (Ok x)
      obtain r2 s2 w2 where en: "end_range env order (s1, w1) = (r2, (s2, w2))" by (metis prod.exhaust)
      have "r2 \<noteq> Panic q" for q using assms(4,5) u Ok en 2 by (auto simp: handle_byte_def seq_def bind_def)
      then have "r2 = Ok ()" using range_never_Err(2) en by (cases r2) auto
      with assms(4) u Ok en 2 end_range_refines [of env order s1 w1 s2 w2 "abs_update a"] rel1 show ?thesis
        by (auto simp: handle_byte_def seq_def bind_def get_state_def gets_def)
    qed (use assms(4,5) u rel1 2 in \<open>auto simp: handle_byte_def seq_def bind_def\<close>)
  next
    case 3
    then have "s' = s \<and> (\<exists>x. r = Ok x)"
      using assms(4) by (auto simp: handle_byte_def bind_def get_state_def gets_def split: if_splits)
    with 3 assms(3) show ?thesis by auto
  qed
qed

lemma write_all_stats: "write_all pkt ((s, c), w) = (r, ((s', c'), w')) \<Longrightarrow> s' = s \<and> \<not> is_panic r"
  by (auto simp: write_all_def bind_def seq_def get_state_def gets_def on_state_def modify_def lift_o_def io_unit_def
      split: list.splits option.splits)

lemma conn_iteration_byte:
  assumes "conn_iteration p env order fmt ((s, c), w) = (r, ((s', c'), w'))" "c_reads c = Inr b # rs"
    and "handle_byte p env order fmt b (s, w) = (r1, (s1, w1))"
  shows "s' = s1 \<and> is_panic r = is_panic r1"
proof (cases r1)
  case (Ok x)
  obtain k out where x: "x = (k, out)" by (cases x)
  show ?thesis
  proof (cases out)
    case None
    with assms Ok x show ?thesis
      by (auto simp: conn_iteration_def read_byte_def bind_def seq_def get_state_def gets_def on_state_def modify_def
          lift_o_def within_def zoom_def)
  next
    case (Some pkt)
    let ?c = "c\<lparr>c_reads := rs\<rparr>"
    obtain r2 s2 c2 w2 where wr: "write_all pkt ((s1, ?c), w1) = (r2, ((s2, c2), w2))" by (metis prod.exhaust)
    from write_all_stats [OF wr] have "s2 = s1" "\<not> is_panic r2" by auto
    with assms Ok x Some wr show ?thesis
      by (cases r2) (auto simp: conn_iteration_def read_byte_def bind_def seq_def get_state_def gets_def on_state_def
          modify_def lift_o_def within_def zoom_def)
  qed
qed (use assms in \<open>auto simp: conn_iteration_def read_byte_def bind_def seq_def get_state_def gets_def on_state_def
      modify_def lift_o_def within_def zoom_def\<close>)

lemma conn_iteration_no_byte:
  assumes "conn_iteration p env order fmt ((s, c), w) = (r, ((s', c'), w'))" "\<And>b rs. c_reads c \<noteq> Inr b # rs"
  shows "s' = s"
proof (cases "c_reads c")
  case Nil
  with assms(1) show ?thesis
    by (auto simp: conn_iteration_def read_byte_def bind_def get_state_def gets_def lift_o_def)
next
  case (Cons x xs)
  then obtain e where "x = Inl e" using assms(2) by (cases x) auto
  with assms(1) Cons show ?thesis
    by (auto simp: conn_iteration_def read_byte_def bind_def seq_def get_state_def gets_def on_state_def modify_def lift_o_def)
qed

lemma turn_refines:
  assumes "iterates order" "wf_stats s" "range_rel a s"
    and "conn_iteration Release env order fmt ((s, c), w) = (r, ((s', c'), w'))" "\<not> is_panic r"
  shows "range_rel (abs_action (turn_action Release env order fmt c (s, w)) a) s'"
proof (cases "\<exists>b rs. c_reads c = Inr b # rs")
  case True
  then obtain b rs where rd: "c_reads c = Inr b # rs" by blast
  obtain r1 s1 w1 where h: "handle_byte Release env order fmt b (s, w) = (r1, (s1, w1))" by (metis prod.exhaust)
  from conn_iteration_byte [OF assms(4) rd h] assms(5) have "s' = s1" "\<not> is_panic r1" by auto
  with handle_byte_refines [OF assms(1-3) h] rd h show ?thesis
    by (cases r1) (auto simp: turn_action_def)
next
  case False
  then have "s' = s" using conn_iteration_no_byte [OF assms(4)] by blast
  moreover have "turn_action Release env order fmt c (s, w) = Silent"
    using False by (auto simp: turn_action_def split: list.splits sum.splits)
  ultimately show ?thesis using assms(3) by simp
qed

end
