(* ===== verification/Server_Runs.thy ===== *)
theory Server_Runs
  imports Server
begin

text \<open>
  What the monitoring server does over whole runs: every run refines a counter of updates, every packet of
  a run is one line, and a client that opens and closes a range on a healthy host gets its one packet.
\<close>

section \<open>Refinement of whole runs\<close>

lemma server_step_refines:
  assumes "server_step Release env order fmt srv x srv'" "server_inv hp srv" "iterates order"
    and "\<not> srv_aborted srv'" "range_rel a (srv_stats srv)"
  shows "range_rel (abs_action x a) (srv_stats srv')"
  using assms(1)
proof cases
  case (tick r s w)
  then have "range_rel (case r of Ok _ \<Rightarrow> abs_update a | _ \<Rightarrow> a) s"
    using update_refines [OF assms(3) _ assms(5)] assms(2) by (simp add: server_inv_def stats_inv_def)
  with tick assms(4) show ?thesis by (cases r) (auto simp: after_tick_def panic_effect_def)
next
  case (turn i c r s c' w)
  have "\<not> is_panic r" using turn assms(4) by (cases r) (auto simp: after_turn_def panic_effect_def)
  then have "range_rel (abs_action x a) s"
    using turn turn_refines [OF assms(3) _ assms(5)] assms(2) by (simp add: server_inv_def stats_inv_def)
  with turn \<open>\<not> is_panic r\<close> show ?thesis
    by (cases r) (auto simp: after_turn_def Let_def split: control.splits)
qed (use assms(5) in simp_all)

lemma step_not_aborted: "server_step p env order fmt srv x srv' \<Longrightarrow> \<not> srv_aborted srv"
  by (erule server_stepE) simp_all

lemma server_run_refines:
  assumes "server_run Release env order fmt srv xs srv'" "server_inv hp srv" "iterates order"
    and "\<And>x. set (fmt x) \<subseteq> float_chars" "clean hp"
    and "\<not> srv_aborted srv'" "range_rel a (srv_stats srv)"
  shows "range_rel (fold abs_action xs a) (srv_stats srv')"
proof -
  have "\<not> srv_aborted srv' \<longrightarrow> range_rel (fold abs_action xs a) (srv_stats srv')"
  proof (rule srv_runs.run_log_invariant [OF assms(1), where I = "\<lambda>xs s. \<not> srv_aborted s \<longrightarrow> range_rel (fold abs_action xs a) (srv_stats s)"])
    fix xs x srv1 srv2
    assume run: "server_run Release env order fmt srv xs srv1" and step: "server_step Release env order fmt srv1 x srv2"
      and "\<not> srv_aborted srv1 \<longrightarrow> range_rel (fold abs_action xs a) (srv_stats srv1)"
    then have "range_rel (fold abs_action xs a) (srv_stats srv1)" using step_not_aborted by blast
    with server_step_refines [OF step server_run_inv [OF run assms(2-5)] assms(3)]
    show "\<not> srv_aborted srv2 \<longrightarrow> range_rel (fold abs_action (xs @ [x]) a) (srv_stats srv2)" by simp
  qed (use assms(7) in simp)
  with assms(6) show ?thesis by simp
qed

text \<open>Between the bytes that open and close a range the abstract machine counts the updates.\<close>

lemma fold_open_range:
  assumes "Handled 0x5B \<notin> set ys" "Handled 0x5D \<notin> set ys"
  shows "fold abs_action ys (True, n) = (True, n + count_list ys Updated)"
  using assms
proof (induction ys arbitrary: n)
  case (Cons y ys)
  then show ?case by (cases y) (auto simp: abs_update_def)
qed simp

lemma fold_range:
  assumes "Handled 0x5B \<notin> set ys" "Handled 0x5D \<notin> set ys"
  shows "fold abs_action (xs @ Handled 0x5B # ys @ [Handled 0x5D]) a = (False, Suc (count_list ys Updated))"
  using fold_open_range [OF assms, of 0] by (simp add: abs_update_def)

section \<open>A healthy host serves its clients\<close>

definition counters_work :: "os \<Rightarrow> bool" where
  "counters_work env \<longleftrightarrow> (\<forall>t c. pc_reset env t c = None \<and> pc_start env t c = None \<and> pc_stop env t c = None)"

lemma range_events_succ:
  assumes "counters_work env"
  shows "succeeds (beside (\<lambda>_. True)) (start_events env order)" "succeeds (beside (\<lambda>_. True)) (stop_events env order)"
  using assms unfolding start_events_def stop_events_def event_loop_def in_context_def counters_work_def
  by (auto intro!: succ_rules succ_unit_call)

lemma succ_unwrap: "succeeds I m \<Longrightarrow> succeeds I (adapt unwrap_res m)"
  by (fastforce simp: succeeds_def adapt_def)

lemma range_succ:
  assumes "counters_work env" "iterates order"
  shows "succeeds (beside (healthy_stats i)) (begin_range env order)"
    "succeeds (beside (healthy_stats i)) (end_range env order)"
proof -
  have ev: "succeeds (beside (healthy_stats i)) (within (\<lambda>s. (st_events s, ())) (\<lambda>t s. s\<lparr>st_events := fst t\<rparr>) m)"
    if m: "succeeds (beside (\<lambda>_. True)) m" "safe (beside (\<lambda>s. wf_events (fst s))) (\<lambda>_. True) m"
    for m :: "(EventStat \<times> unit, unit) sys"
  proof (rule succ_within [where A = "\<lambda>s. wf_events (fst s)"])
    show "succeeds (beside (\<lambda>s. wf_events (fst s))) m"
    proof (rule succeedsI)
      fix c :: "(EventStat \<times> unit) \<times> world"
      assume J: "beside (\<lambda>s. wf_events (fst s)) c"
      obtain x d where d: "m c = (Ok x, d)" using succeedsD [OF m(1), of c] by (auto simp: beside_def)
      with safeD [OF m(2) J] show "\<exists>x d. m c = (Ok x, d) \<and> beside (\<lambda>s. wf_events (fst s)) d" by simp
    qed
  qed (auto simp: healthy_stats_def wf_stats_def)
  have rs: "healthy_stats i (s\<lparr>st_table := map stat_reset (st_table s)\<rparr>)" if "healthy_stats i s" for s
    using that wf_stats_reset [of s] by (simp add: healthy_stats_def)
  show "succeeds (beside (healthy_stats i)) (begin_range env order)"
    unfolding begin_range_def
    by (intro succ_seq succ_on_state succ_unwrap ev range_events_succ range_events_safe assms) (simp_all add: rs)
  show "succeeds (beside (healthy_stats i)) (end_range env order)"
    unfolding end_range_def
    by (intro succ_seq succ_on_state succ_unwrap ev range_events_succ range_events_safe assms) simp_all
qed

text \<open>The bytes that are answered with a packet.\<close>

definition wants_packet :: "u8 \<Rightarrow> bool" where
  "wants_packet b \<longleftrightarrow> b = 0x5D \<or> b = 0x3F"

lemma handle_byte_succ:
  assumes "healthy_host env files i" "counters_work env" "iterates order" "healthy_stats i s"
  shows "\<exists>out s' w'. handle_byte Release env order fmt b (s, w) = (Ok (if b = 0x71 then Break else Continue, out), (s', w')) \<and>
    healthy_stats i s' \<and> (out \<noteq> None) = wants_packet b"
proof -
  note succ = stats_update_succ [OF assms(1,3)] range_succ [OF assms(2,3), of i]
  have "succeeds (beside (healthy_stats i)) (handle_byte Release env order fmt b)"
    unfolding handle_byte_def using succ by (auto intro!: succ_rules)
  from succeedsD [OF this, of "(s, w)"] assms(4) obtain k out s' w' where
    run: "handle_byte Release env order fmt b (s, w) = (Ok (k, out), (s', w'))" and h: "healthy_stats i s'"
    by (auto simp: beside_def)
  from run have "k = (if b = 0x71 then Break else Continue)" "(out \<noteq> None) = wants_packet b"
    by (auto simp: handle_byte_def seq_eq_Ok bind_eq_Ok wants_packet_def split: if_splits)
  with run h show ?thesis by blast
qed

text \<open>A connection whose socket never fails.\<close>

definition sound_conn :: "conn \<Rightarrow> bool" where
  "sound_conn c \<longleftrightarrow> c_nodelay c = None \<and> list_all (\<lambda>r. r = None) (c_writes c) \<and> c_shutdown c = None"

lemma write_all_sound:
  assumes "sound_conn c"
  shows "\<exists>ws. write_all pkt ((s, c), w) = (Ok (), ((s, c\<lparr>c_writes := ws, c_sent := c_sent c @ [pkt]\<rparr>), w)) \<and>
    list_all (\<lambda>r. r = None) ws"
proof (cases "c_writes c")
  case Nil
  then have "c\<lparr>c_writes := [], c_sent := c_sent c @ [pkt]\<rparr> = c\<lparr>c_sent := c_sent c @ [pkt]\<rparr>" by simp
  with Nil show ?thesis
    by (intro exI [of _ "[]"]) (simp add: write_all_def bind_def get_state_def gets_def on_state_def modify_def)
next
  case (Cons r rs)
  with assms show ?thesis
    by (intro exI [of _ rs])
      (simp add: sound_conn_def write_all_def bind_def seq_def get_state_def gets_def on_state_def modify_def lift_o_def io_unit_def)
qed

lemma conn_iteration_sound:
  assumes "healthy_host env files i" "counters_work env" "iterates order" "healthy_stats i s"
    and "sound_conn c" "c_reads c = Inr b # rs"
  shows "\<exists>s' c' w'. conn_iteration Release env order fmt ((s, c), w) =
      (Ok (if b = 0x71 then Break else Continue), ((s', c'), w')) \<and>
    healthy_stats i s' \<and> sound_conn c' \<and> c_reads c' = rs \<and>
    length (c_sent c') = length (c_sent c) + (if wants_packet b then 1 else 0)"
proof -
  obtain out s' w' where h: "handle_byte Release env order fmt b (s, w) =
      (Ok (if b = 0x71 then Break else Continue, out), (s', w'))" "healthy_stats i s'" "(out \<noteq> None) = wants_packet b"
    using handle_byte_succ [OF assms(1-4)] by blast
  note run_defs = conn_iteration_def read_byte_def bind_def seq_def get_state_def gets_def on_state_def modify_def
    lift_o_def within_def zoom_def
  show ?thesis
  proof (cases out)
    case None
    with h assms(5,6) show ?thesis by (simp add: run_defs sound_conn_def)
  next
    case (Some pkt)
    have "sound_conn (c\<lparr>c_reads := rs\<rparr>)" using assms(5) by (simp add: sound_conn_def)
    from write_all_sound [OF this, of pkt s' w'] obtain ws where
      "write_all pkt ((s', c\<lparr>c_reads := rs\<rparr>), w') =
        (Ok (), ((s', c\<lparr>c_reads := rs, c_writes := ws, c_sent := c_sent c @ [pkt]\<rparr>), w'))"
      "list_all (\<lambda>r. r = None) ws" by auto
    with h Some assms(5,6) show ?thesis by (simp add: run_defs sound_conn_def)
  qed
qed

lemma conn_iteration_eof:
  "c_reads c = [] \<Longrightarrow> conn_iteration p env order fmt ((s, c), w) = (Err UnexpectedEof, ((s, c), w))"
  by (simp add: conn_iteration_def read_byte_def bind_def get_state_def gets_def lift_o_def)

text \<open>More turns than bytes to read change nothing: the bound of the loop is never what ends it.\<close>

lemma conn_iteration_reads:
  assumes "conn_iteration p env order fmt ((s, c), w) = (Ok k, ((s', c'), w'))"
  shows "length (c_reads c) = Suc (length (c_reads c'))"
proof -
  have wr: "c_reads c2 = c_reads c1" if "write_all pkt ((s1, c1), w1) = (r, ((s2, c2), w2))" for pkt s1 c1 w1 r s2 c2 w2
    using that by (auto simp: write_all_def bind_def seq_def get_state_def gets_def on_state_def modify_def lift_o_def io_unit_def
        split: list.splits option.splits)
  from assms obtain b c1 w1 s2 c2 w2 out where rd: "read_byte ((s, c), w) = (Ok b, ((s, c1), w1))"
    and c2: "c2 = c1" "(case out of None \<Rightarrow> ret () | Some pkt \<Rightarrow> write_all pkt) ((s2, c2), w2) = (Ok (), ((s', c'), w'))"
    by (cases "c_reads c") (auto simp: conn_iteration_def bind_eq_Ok seq_eq_Ok within_Ok read_byte_def lift_o_def split: sum.splits)
  have "c_reads c' = c_reads c1" using c2 wr by (cases out) auto
  moreover have "length (c_reads c) = Suc (length (c_reads c1))"
    using rd by (auto simp: read_byte_def bind_eq_Ok seq_eq_Ok split: list.splits)
  ultimately show ?thesis by simp
qed

lemma conn_loop_enough:
  assumes "length (c_reads c) \<le> n"
  shows "conn_loop p env order fmt n ((s, c), w) = conn_loop p env order fmt (length (c_reads c)) ((s, c), w)"
  using assms
proof (induction n arbitrary: s c w)
  case (Suc n)
  obtain r s1 c1 w1 where it: "conn_iteration p env order fmt ((s, c), w) = (r, ((s1, c1), w1))" by (metis prod.exhaust)
  show ?case
  proof (cases "\<exists>k. r = Ok k")
    case True
    then obtain k where k: "r = Ok k" by blast
    have len: "length (c_reads c) = Suc (length (c_reads c1))" using conn_iteration_reads it k by metis
    with Suc.prems Suc.IH [of c1 s1 w1] it k show ?thesis by (auto simp: bind_def split: control.splits)
  next
    case False
    then show ?thesis using it by (cases "length (c_reads c)"; cases r) (auto simp: bind_def)
  qed
qed simp

lemma conn_loop_sound:
  assumes "healthy_host env files i" "counters_work env" "iterates order" "healthy_stats i s" "sound_conn c"
    and "0x71 \<notin> set bs" "c_reads c = map Inr (bs @ rest)"
  shows "\<exists>s' c' w'. conn_loop Release env order fmt (length (c_reads c)) ((s, c), w) =
      conn_loop Release env order fmt (length rest) ((s', c'), w') \<and>
    healthy_stats i s' \<and> sound_conn c' \<and> c_reads c' = map Inr rest \<and>
    length (c_sent c') = length (c_sent c) + length (filter wants_packet bs)"
  using assms(4-)
proof (induction bs arbitrary: s c w)
  case Nil
  then show ?case by auto
next
  case (Cons b bs)
  have rd: "c_reads c = Inr b # map Inr (bs @ rest)" and b: "b \<noteq> 0x71" using Cons.prems by simp_all
  from conn_iteration_sound [OF assms(1-3) Cons.prems(1,2) rd, of fmt w] b obtain s1 c1 w1 where
    it: "conn_iteration Release env order fmt ((s, c), w) = (Ok Continue, ((s1, c1), w1))"
      "healthy_stats i s1" "sound_conn c1" "c_reads c1 = map Inr (bs @ rest)"
      "length (c_sent c1) = length (c_sent c) + (if wants_packet b then 1 else 0)" by auto
  have "conn_loop Release env order fmt (length (c_reads c)) ((s, c), w) =
      conn_loop Release env order fmt (length (c_reads c1)) ((s1, c1), w1)"
    using it(1,4) rd by (simp add: bind_def)
  moreover obtain s2 c2 w2 where "conn_loop Release env order fmt (length (c_reads c1)) ((s1, c1), w1) =
      conn_loop Release env order fmt (length rest) ((s2, c2), w2)" "healthy_stats i s2" "sound_conn c2"
      "c_reads c2 = map Inr rest" "length (c_sent c2) = length (c_sent c1) + length (filter wants_packet bs)"
    using Cons.IH [OF it(2,3) _ it(4), of w1] Cons.prems(3) by auto
  ultimately show ?case using it(5) by (intro exI [of _ s2] exI [of _ c2] exI [of _ w2]) simp
qed

lemma conn_handler_run:
  "sound_conn c \<Longrightarrow> conn_handler p env order fmt ((s, c), w) =
    (case conn_loop p env order fmt (length (c_reads c)) ((s, c), w) of
       (Ok _, d) \<Rightarrow> (io_unit (c_shutdown (snd (fst d))), d)
     | (Err e, d) \<Rightarrow> (Err e, d) | (Panic q, d) \<Rightarrow> (Panic q, d))"
  by (auto simp: conn_handler_def sound_conn_def bind_def seq_def get_state_def gets_def lift_o_def io_unit_def
      split: prod.splits outcome.splits)

lemma conn_session:
  assumes "healthy_host env files i" "counters_work env" "iterates order" "healthy_stats i s" "sound_conn c"
    and "0x71 \<notin> set bs" "c_reads c = map Inr (bs @ rest)" "rest = [] \<or> hd rest = 0x71"
  shows "\<exists>s' c' w'. conn_handler Release env order fmt ((s, c), w) =
      (if rest = [] then Err UnexpectedEof else Ok (), ((s', c'), w')) \<and>
    healthy_stats i s' \<and> length (c_sent c') = length (c_sent c) + length (filter wants_packet bs)"
proof -
  obtain s1 c1 w1 where loop: "conn_loop Release env order fmt (length (c_reads c)) ((s, c), w) =
      conn_loop Release env order fmt (length rest) ((s1, c1), w1)" "healthy_stats i s1" "sound_conn c1"
      "c_reads c1 = map Inr rest" "length (c_sent c1) = length (c_sent c) + length (filter wants_packet bs)"
    using conn_loop_sound [OF assms(1-7)] by blast
  show ?thesis
  proof (cases rest)
    case Nil
    then have "conn_loop Release env order fmt (length rest) ((s1, c1), w1) = (Err UnexpectedEof, ((s1, c1), w1))"
      using loop(4) conn_iteration_eof [of c1] by (simp add: bind_def)
    with loop Nil show ?thesis by (simp add: conn_handler_run [OF assms(5)])
  next
    case (Cons q rest')
    with assms(8) have "c_reads c1 = Inr 0x71 # map Inr rest'" using loop(4) by simp
    from conn_iteration_sound [OF assms(1-3) loop(2,3) this, of fmt w1] obtain s2 c2 w2 where
      it: "conn_iteration Release env order fmt ((s1, c1), w1) = (Ok Break, ((s2, c2), w2))" "healthy_stats i s2"
        "sound_conn c2" "length (c_sent c2) = length (c_sent c1)" by (auto simp: wants_packet_def)
    then have "conn_loop Release env order fmt (length rest) ((s1, c1), w1) = (Ok (), ((s2, c2), w2))"
      using Cons by (simp add: bind_def)
    with loop it Cons show ?thesis by (simp add: conn_handler_run [OF assms(5)] sound_conn_def io_unit_def)
  qed
qed


definition demo_conn :: "u8 list \<Rightarrow> conn" where
  "demo_conn bs = \<lparr>c_nodelay = None, c_reads = map Inr bs, c_writes = [], c_shutdown = None, c_sent = []\<rparr>"

lemma sound_demo_conn: "sound_conn (demo_conn bs)"
  by (simp add: sound_conn_def demo_conn_def)

lemma demo_counters: "counters_work demo_env"
  by (simp add: counters_work_def demo_env_def static_os_def)


section \<open>Whole runs of the server\<close>

lemma server_start_range:
  assumes "server_start Release env order opts w0 = Some (Ok srv)" "iterates order"
  shows "range_rel (False, 0) (srv_stats srv)"
proof -
  from assms(1) obtain s w s1 w1 where new: "Stats_new env w0 = Some (s, w)"
    and su: "server_setup Release env order opts (s, w) = (Ok (), (s1, w1))" and srv: "srv_stats srv = s1"
    by (auto simp: server_start_def split: option.splits prod.splits outcome.splits)
  let ?s = "s\<lparr>host_prefix := opt_host_prefix opts, net_iface := netdev opts\<rparr>"
  from su obtain s2 w2 where u: "stats_update Release env order (?s, w) = (Ok (), (s2, w2))"
      "stats_update Release env order (s2, w2) = (Ok (), (s1, w1))"
    by (auto simp: server_setup_def seq_eq_Ok)
  have "list_all (\<lambda>st. value_cnt st = 0) STATS_INIT" by code_simp
  moreover have wf: "wf_stats ?s" using Stats_new_fields [OF new] unfolding wf_stats_def by auto
  moreover have "length STATS_INIT = 54" using wf Stats_new_fields [OF new] by (simp add: wf_stats_def wf_table_def)
  ultimately have "range_rel (False, 0) ?s"
    using Stats_new_fields [OF new] by (simp add: range_rel_def list_all_length)
  from update_refines [OF assms(2) wf this u(1)] have "range_rel (False, 0) s2" by (simp add: abs_update_def)
  from update_refines [OF assms(2) update_keeps_wf [OF assms(2) wf u(1)] this u(2)] srv show ?thesis
    by (simp add: abs_update_def)
qed

definition healthy_server :: "string \<Rightarrow> server \<Rightarrow> bool" where
  "healthy_server i srv \<longleftrightarrow> healthy_stats i (srv_stats srv) \<and> srv_ticker srv = Running \<and> \<not> srv_aborted srv"

lemma server_start_healthy:
  assumes "healthy_host env files (netdev opts)" "iterates order" "netdev opts \<noteq> []" "Stats_new env w0 = Some (s, w)"
  shows "\<exists>srv. server_start Release env order opts w0 = Some (Ok srv) \<and> healthy_server (netdev opts) srv \<and> srv_conns srv = []"
proof -
  let ?s = "s\<lparr>host_prefix := opt_host_prefix opts, net_iface := netdev opts\<rparr>"
  have h: "healthy_stats (netdev opts) ?s" by (rule healthy_new [OF assms(4,3)])
  note upd = stats_update_succ [OF assms(1,2)]
  obtain s1 w1 where u1: "stats_update Release env order (?s, w) = (Ok (), (s1, w1))" "healthy_stats (netdev opts) s1"
    using succeedsD [OF upd, of "(?s, w)"] h by (auto simp: beside_def)
  obtain s2 w2 where u2: "stats_update Release env order (s1, w1) = (Ok (), (s2, w2))" "healthy_stats (netdev opts) s2"
    using succeedsD [OF upd, of "(s1, w1)"] u1(2) by (auto simp: beside_def)
  have "server_setup Release env order opts (s, w) = (Ok (), (s2, w2))"
    using u1(1) u2(1) by (simp add: server_setup_def seq_def bind_def on_state_def modify_def)
  with u2(2) assms(4) show ?thesis by (simp add: server_start_def healthy_server_def)
qed

lemma healthy_tick:
  assumes "healthy_host env files i" "iterates order" "healthy_server i srv"
  shows "\<exists>srv'. server_step Release env order fmt srv Updated srv' \<and> healthy_server i srv' \<and> srv_conns srv' = srv_conns srv"
proof -
  obtain s w where u: "stats_update Release env order (srv_stats srv, srv_world srv) = (Ok (), (s, w))" "healthy_stats i s"
    using succeedsD [OF stats_update_succ [OF assms(1,2)], of "(srv_stats srv, srv_world srv)"] assms(3)
    by (auto simp: beside_def healthy_server_def)
  have "server_step Release env order fmt srv (case Ok () of Ok _ \<Rightarrow> Updated | _ \<Rightarrow> Silent)
      (after_tick Release (Ok ()) (srv\<lparr>srv_stats := s, srv_world := w\<rparr>))"
    by (rule server_step.tick [OF _ _ u(1)]) (use assms(3) in \<open>simp_all add: healthy_server_def\<close>)
  with u(2) assms(3) show ?thesis by (auto simp: after_tick_def healthy_server_def)
qed

lemma healthy_turn:
  assumes "healthy_host env files i" "counters_work env" "iterates order" "healthy_server i srv"
    and "srv_conns srv = [(c, Running)]" "sound_conn c" "c_reads c = Inr b # rs" "b \<noteq> 0x71"
  shows "\<exists>srv' c'. server_step Release env order fmt srv (Handled b) srv' \<and> healthy_server i srv' \<and>
    srv_conns srv' = [(c', Running)] \<and> sound_conn c' \<and> c_reads c' = rs"
proof -
  have h: "healthy_stats i (srv_stats srv)" using assms(4) by (simp add: healthy_server_def)
  from conn_iteration_sound [OF assms(1-3) h assms(6,7), of fmt "srv_world srv"] assms(8) obtain s c' w where
    it: "conn_iteration Release env order fmt ((srv_stats srv, c), srv_world srv) = (Ok Continue, ((s, c'), w))"
      "healthy_stats i s" "sound_conn c'" "c_reads c' = rs" by auto
  have step: "server_step Release env order fmt srv (turn_action Release env order fmt c (srv_stats srv, srv_world srv))
      (after_turn Release 0 c' (Ok Continue) (srv\<lparr>srv_stats := s, srv_world := w\<rparr>))"
    by (rule server_step.turn [OF _ _ _ it(1)]) (use assms(4,5) in \<open>simp_all add: healthy_server_def\<close>)
  have "turn_action Release env order fmt c (srv_stats srv, srv_world srv) = Handled b"
    using handle_byte_succ [OF assms(1-3) h, of fmt b "srv_world srv"] assms(7) by (auto simp: turn_action_def)
  with step it assms(4,5) show ?thesis by (auto simp: after_turn_def healthy_server_def)
qed

text \<open>A client opens a range, the ticker fires, the client closes the range.\<close>

lemma demo_run:
  "\<exists>srv srv'. server_start Release demo_env rev (Options_default ''eth0'') start_world = Some (Ok srv) \<and>
     server_run Release demo_env rev fmt srv [Silent, Handled 0x5B, Updated, Handled 0x5D] srv' \<and> \<not> srv_aborted srv'"
proof -
  obtain s w where new: "Stats_new demo_env start_world = Some (s, w)"
    using Stats_new_total [of demo_env 1 start_world] by (auto simp: demo_env_def static_os_def)
  have hd: "healthy_host demo_env demo_files (netdev (Options_default ''eth0''))"
    using healthy_demo by (simp add: Options_default_def)
  from server_start_healthy [OF hd iterates_rev _ new] obtain srv where
    srv: "server_start Release demo_env rev (Options_default ''eth0'') start_world = Some (Ok srv)"
      "healthy_server ''eth0'' srv" "srv_conns srv = []" by (auto simp: Options_default_def)
  let ?step = "server_step Release demo_env rev fmt"
  let ?c = "demo_conn [0x5B, 0x5D]"
  let ?srv1 = "srv\<lparr>srv_conns := srv_conns srv @ [accepted ?c]\<rparr>"
  have "?step srv Silent ?srv1"
    by (rule server_step.accept_ok) (use srv(2) in \<open>simp_all add: healthy_server_def demo_conn_def\<close>)
  moreover have h1: "healthy_server ''eth0'' ?srv1" "srv_conns ?srv1 = [(?c, Running)]" "c_reads ?c = [Inr 0x5B, Inr 0x5D]"
    using srv by (simp_all add: healthy_server_def accepted_def demo_conn_def)
  moreover obtain srv2 c2 where s2: "?step ?srv1 (Handled 0x5B) srv2" "healthy_server ''eth0'' srv2"
      "srv_conns srv2 = [(c2, Running)]" "sound_conn c2" "c_reads c2 = [Inr 0x5D]"
    using healthy_turn [OF healthy_demo demo_counters iterates_rev h1(1,2) sound_demo_conn h1(3), of fmt] by auto
  moreover obtain srv3 where s3: "?step srv2 Updated srv3" "healthy_server ''eth0'' srv3" "srv_conns srv3 = [(c2, Running)]"
    using healthy_tick [OF healthy_demo iterates_rev s2(2), of fmt] s2(3) by auto
  moreover obtain srv4 where "?step srv3 (Handled 0x5D) srv4" "healthy_server ''eth0'' srv4"
    using healthy_turn [OF healthy_demo demo_counters iterates_rev s3(2,3) s2(4,5), of fmt] by auto
  ultimately have "server_run Release demo_env rev fmt srv ([] @ [Silent] @ [Handled 0x5B] @ [Updated] @ [Handled 0x5D]) srv4"
      and "\<not> srv_aborted srv4"
    unfolding append_assoc [symmetric] by ((blast intro: server_run.intros), simp add: healthy_server_def)
  with srv(1) show ?thesis by auto
qed


lemma demo_assumptions: "\<not> flocked start_world" "set ''0.5'' \<subseteq> float_chars" "clean (opt_host_prefix (Options_default i))"
  by (simp_all add: start_world_def float_chars_def clean_def Options_default_def)


text \<open>
  C4. The release server refines the counter of updates: along every run that has not aborted, whether a
  range is open and how many samples every statistic has aggregated is what the abstract machine computes
  from the sequence of ticks and handled bytes alone, modulo \<open>2^64\<close>.
\<close>

theorem server_refines_update_counter:
  assumes "server_start Release env order opts w0 = Some (Ok srv)" "\<not> flocked w0" "iterates order"
    and "\<And>x. set (fmt x) \<subseteq> float_chars" "clean (opt_host_prefix opts)"
    and "server_run Release env order fmt srv xs srv'" "\<not> srv_aborted srv'"
  shows "range_rel (fold abs_action xs (False, 0)) (srv_stats srv')"
  by (rule server_run_refines [OF assms(6) _ assms(3-5,7) server_start_range [OF assms(1,3)]])
    (use server_start_inv [OF assms(1,3,2)] in blast)

theorem server_refines_update_counter_witness:
  "\<exists>srv srv'. server_run Release demo_env rev (\<lambda>_. ''0.5'') srv [Silent, Handled 0x5B, Updated, Handled 0x5D] srv' \<and>
     range_rel (False, 2) (srv_stats srv')"
proof -
  obtain srv srv' where run: "server_start Release demo_env rev (Options_default ''eth0'') start_world = Some (Ok srv)"
      "server_run Release demo_env rev (\<lambda>_. ''0.5'') srv [Silent, Handled 0x5B, Updated, Handled 0x5D] srv'"
      "\<not> srv_aborted srv'" using demo_run by blast
  have "range_rel (fold abs_action [Silent, Handled 0x5B, Updated, Handled 0x5D] (False, 0)) (srv_stats srv')"
    by (rule server_refines_update_counter [OF run(1) demo_assumptions(1) iterates_rev demo_assumptions(2,3) run(2,3)])
  then have "range_rel (False, 2) (srv_stats srv')" by (simp add: abs_update_def numeral_2_eq_2)
  with run(2) show ?thesis by blast
qed

text \<open>
  A range that one client opens and closes counts every update in between: if no other connection
  sends a range byte meanwhile, then when the closing byte has been handled the range is closed and every
  statistic has aggregated one sample per tick of the range and one for the closing byte itself.
\<close>

theorem range_counts_its_ticks:
  assumes "server_start Release env order opts w0 = Some (Ok srv)" "\<not> flocked w0" "iterates order"
    and "\<And>x. set (fmt x) \<subseteq> float_chars" "clean (opt_host_prefix opts)"
    and "server_run Release env order fmt srv (xs @ Handled 0x5B # ys @ [Handled 0x5D]) srv'" "\<not> srv_aborted srv'"
    and "Handled 0x5B \<notin> set ys" "Handled 0x5D \<notin> set ys"
  shows "\<not> in_range (srv_stats srv') \<and>
    (\<forall>st \<in> set (st_table (srv_stats srv')). value_cnt st = of_nat (Suc (count_list ys Updated)))"
proof -
  have inv: "server_inv (opt_host_prefix opts) srv" using server_start_inv [OF assms(1,3,2)] by blast
  have "range_rel (False, Suc (count_list ys Updated)) (srv_stats srv')"
    using server_run_refines [OF assms(6) inv assms(3-5,7) server_start_range [OF assms(1,3)]]
    by (simp only: fold_range [OF assms(8,9)])
  moreover have "length (st_table (srv_stats srv')) = 54"
    using server_run_inv [OF assms(6) inv assms(3-5)]
    by (simp add: server_inv_def stats_inv_def wf_stats_def wf_table_def)
  ultimately show ?thesis by (auto simp: range_rel_def in_set_conv_nth)
qed

theorem range_counts_its_ticks_witness:
  "\<exists>srv srv'. server_run Release demo_env rev (\<lambda>_. ''0.5'') srv ([Silent] @ Handled 0x5B # [Updated] @ [Handled 0x5D]) srv' \<and>
     \<not> in_range (srv_stats srv') \<and> value_cnt (hd (st_table (srv_stats srv'))) = 2"
proof -
  obtain srv srv' where run: "server_start Release demo_env rev (Options_default ''eth0'') start_world = Some (Ok srv)"
      "server_run Release demo_env rev (\<lambda>_. ''0.5'') srv [Silent, Handled 0x5B, Updated, Handled 0x5D] srv'"
      "\<not> srv_aborted srv'" using demo_run by blast
  have run2: "server_run Release demo_env rev (\<lambda>_. ''0.5'') srv ([Silent] @ Handled 0x5B # [Updated] @ [Handled 0x5D]) srv'"
    using run(2) by simp
  note res = range_counts_its_ticks [OF run(1) demo_assumptions(1) iterates_rev demo_assumptions(2,3) run2 run(3)]
  have inv: "server_inv ''local_'' srv'"
    using server_run_inv [OF run(2) _ iterates_rev demo_assumptions(2)] server_start_inv [OF run(1) iterates_rev demo_assumptions(1)]
    by (simp add: Options_default_def clean_def)
  then have "st_table (srv_stats srv') \<noteq> []" by (auto simp: server_inv_def stats_inv_def wf_stats_def wf_table_def)
  with res have "\<not> in_range (srv_stats srv')" "value_cnt (hd (st_table (srv_stats srv'))) = 2" by auto
  with run2 show ?thesis by blast
qed

end
