(* ===== verification/Speed_Run.thy ===== *)
theory Speed_Run
  imports Speed_Schedule Speed_Report Runs "HOL-Library.Signed_Division"
begin

text \<open>
  The load generator, part two: the tasks of a run and how they interact. One task per function prepares its
  requests, meets the others at a barrier four times and spawns one task per request; the main task connects
  the monitors, opens and closes their ranges between the same barriers, and reports; a progress task reads
  the shared counters.

  Every task is a program counter with its local variables, and a step of the run is one step of one task:
  a piece of code between two points where other threads can interfere. Answers of the network, the clock
  and the monitors are chosen freely at each step. A barrier releases everyone when everyone waits.
\<close>

section \<open>Shared state\<close>

record shared =
  sh_total :: i64
  sh_sent :: i64
  sh_recv :: i64
  sh_ndp :: i64
  sh_done :: bool

section \<open>Request tasks\<close>

datatype rstate = R_Spawned | R_Sent u128 | R_Received RequestResult | R_Finished "error + RequestResult"

record rtask =
  rt_fn :: nat
  rt_ndp :: bool
  rt_request :: request
  rt_state :: rstate

text \<open>The answer of the network to a request, and the two times measured on it.\<close>

record net_answer =
  na_reply :: "error + response"
  na_status_us :: u128
  na_request_us :: u128

fun request_next :: "SpeedOptions \<Rightarrow> u128 \<Rightarrow> net_answer \<Rightarrow> rstate \<Rightarrow> shared \<Rightarrow> (rstate \<times> shared) option" where
  "request_next opts now a R_Spawned sh = Some (R_Sent now, sh\<lparr>sh_sent := sh_sent sh + 1\<rparr>)"
| "request_next opts now a (R_Sent t) sh =
    (if dry_run opts
     then Some (R_Received \<lparr>us_request = 1000, us_status = 1000, num_bytes = 1024, start_time = t\<rparr>, sh\<lparr>sh_recv := sh_recv sh + 1\<rparr>)
     else (case exchange (na_reply a) of
         Ok n \<Rightarrow> Some (R_Received \<lparr>us_request = na_request_us a, us_status = na_status_us a, num_bytes = n, start_time = t\<rparr>,
           sh\<lparr>sh_recv := sh_recv sh + 1\<rparr>)
       | Err e \<Rightarrow> Some (R_Finished (Inl e), sh)
       | Panic q \<Rightarrow> None))"
| "request_next opts now a (R_Received rr) sh = Some (R_Finished (Inr rr), sh)"
| "request_next opts now a (R_Finished r) sh = None"

section \<open>Function tasks\<close>

text \<open>
  Where \<open>run_function\<close> stands: before its test request, at one of its four barriers, counting its requests,
  starting and running the generator (the requests left, the generator, the handles), joining the handles.
\<close>

datatype fn_pc =
    F_Prepare
  | F_Wait1 fn_plan
  | F_Wait2 fn_plan
  | F_Count fn_plan
  | F_Wait3 fn_plan nat
  | F_Start fn_plan nat
  | F_Gen fn_plan nat nat gen_state "nat list"
  | F_Join fn_plan nat "(error + RequestResult) list" "nat list"
  | F_Wait4 fn_plan nat "(error + RequestResult) list"
  | F_Done fn_plan nat "(error + RequestResult) list"
  | F_Panicked panic
  | F_Stuck

fun fn_panics :: "'a outcome \<Rightarrow> ('a \<Rightarrow> fn_pc) \<Rightarrow> fn_pc" where
  "fn_panics (Ok x) f = f x"
| "fn_panics (Panic q) f = F_Panicked q"
| "fn_panics (Err e) f = F_Panicked (UnwrapErr e)"

definition fn_prepare ::
  "http \<Rightarrow> (string \<Rightarrow> io_error + string) \<Rightarrow> (request \<Rightarrow> error + response) \<Rightarrow> SpeedOptions \<Rightarrow> nat \<Rightarrow> fn_pc" where
  "fn_prepare h read_file execute opts idx =
    fn_panics (function_plan h read_file opts idx) (\<lambda>pl.
    fn_panics (test_request h execute opts pl) (\<lambda>_. F_Wait1 pl))"

text \<open>One iteration of the generator: raise the offload counter, spawn the task, keep its handle.\<close>

definition fn_generate ::
  "profile \<Rightarrow> http \<Rightarrow> SpeedOptions \<Rightarrow> nat \<Rightarrow> fn_plan \<Rightarrow> nat \<Rightarrow> nat \<Rightarrow> gen_state \<Rightarrow> nat list \<Rightarrow> shared \<times> rtask list \<Rightarrow>
   fn_pc \<times> shared \<times> rtask list" where
  "fn_generate p h opts idx pl n k g hs st =
    (case gen_step p h (offload_frac_den opts) pl g of
       None \<Rightarrow> (F_Stuck, st)
     | Some (Err e) \<Rightarrow> (F_Panicked (UnwrapErr e), st)
     | Some (Panic q) \<Rightarrow> (F_Panicked q, st)
     | Some (Ok (ndp, r, g')) \<Rightarrow>
         (let sh = (if ndp then (fst st)\<lparr>sh_ndp := sh_ndp (fst st) + 1\<rparr> else fst st) in
          case r of
            Ok rq \<Rightarrow> (F_Gen pl n k g' (hs @ [length (snd st)]), sh,
              snd st @ [\<lparr>rt_fn = idx, rt_ndp = ndp, rt_request = rq, rt_state = R_Spawned\<rparr>])
          | Err e \<Rightarrow> (F_Panicked (UnwrapErr e), sh, snd st)
          | Panic q \<Rightarrow> (F_Panicked q, sh, snd st)))"

fun fn_next ::
  "profile \<Rightarrow> http \<Rightarrow> (string \<Rightarrow> io_error + string) \<Rightarrow> (request \<Rightarrow> error + response) \<Rightarrow> SpeedOptions \<Rightarrow> nat \<Rightarrow>
   fn_pc \<Rightarrow> shared \<times> rtask list \<Rightarrow> (fn_pc \<times> shared \<times> rtask list) option" where
  "fn_next p h read_file execute opts idx F_Prepare st = Some (fn_prepare h read_file execute opts idx, st)"
| "fn_next p h read_file execute opts idx (F_Count pl) st =
    (case total_requests (pl_rps pl) (time opts) of
       Ok n \<Rightarrow> Some (F_Wait3 pl (nat (sint n)), (fst st)\<lparr>sh_total := sh_total (fst st) + n\<rparr>, snd st)
     | Err e \<Rightarrow> None
     | Panic q \<Rightarrow> Some (F_Panicked q, st))"
| "fn_next p h read_file execute opts idx (F_Start pl n) st =
    Some (fn_panics (gen_start p opts pl (of_nat n)) (\<lambda>g. F_Gen pl n n g []), st)"
| "fn_next p h read_file execute opts idx (F_Gen pl n 0 g hs) st = Some (F_Join pl n [] hs, st)"
| "fn_next p h read_file execute opts idx (F_Gen pl n (Suc k) g hs) st = Some (fn_generate p h opts idx pl n k g hs st)"
| "fn_next p h read_file execute opts idx (F_Join pl n rs []) st = Some (F_Wait4 pl n rs, st)"
| "fn_next p h read_file execute opts idx (F_Join pl n rs (j # hs)) st =
    (case nth_opt (snd st) j of
       Some t \<Rightarrow> (case rt_state t of R_Finished r \<Rightarrow> Some (F_Join pl n (rs @ [r]) hs, st) | _ \<Rightarrow> None)
     | None \<Rightarrow> None)"
| "fn_next p h read_file execute opts idx pc st = None"

text \<open>What follows a barrier; it is only used for a task that waits.\<close>

fun fn_release :: "SpeedOptions \<Rightarrow> fn_pc \<Rightarrow> fn_pc" where
  "fn_release opts (F_Wait1 pl) = (if oneshot opts then F_Done pl 0 [] else F_Wait2 pl)"
| "fn_release opts (F_Wait2 pl) = F_Count pl"
| "fn_release opts (F_Wait3 pl n) = F_Start pl n"
| "fn_release opts (F_Wait4 pl n rs) = F_Done pl n rs"
| "fn_release opts pc = pc"

fun fn_waits :: "fn_pc \<Rightarrow> bool" where
  "fn_waits (F_Wait1 pl) = True"
| "fn_waits (F_Wait2 pl) = True"
| "fn_waits (F_Wait3 pl n) = True"
| "fn_waits (F_Wait4 pl n rs) = True"
| "fn_waits pc = False"

section \<open>The progress task\<close>

definition sdiv_res :: "i64 \<Rightarrow> i64 \<Rightarrow> i64 outcome" where
  "sdiv_res a b =
    (if b = 0 then Panic DivByZero
     else if sint a = - (2 ^ 63) \<and> sint b = - 1 then Panic Overflow
     else Ok (word_of_int (sint a sdiv sint b)))"

definition progress_percent :: "profile \<Rightarrow> i64 \<Rightarrow> i64 \<Rightarrow> i64 outcome" where
  "progress_percent p recv n = obind (smul p recv 100) (\<lambda>x. sdiv_res x n)"

datatype prog_pc = P_None | P_Check | P_Tick | P_Total i64 | P_Sent i64 i64 | P_End | P_Panicked panic

text \<open>The counters are loaded one after the other, so other tasks may run in between.\<close>

fun progress_next :: "profile \<Rightarrow> shared \<Rightarrow> prog_pc \<Rightarrow> prog_pc option" where
  "progress_next p sh P_Check = Some (if sh_done sh then P_End else P_Tick)"
| "progress_next p sh P_Tick = Some (P_Total (sh_total sh))"
| "progress_next p sh (P_Total t) = Some (P_Sent t (sh_sent sh))"
| "progress_next p sh (P_Sent t s) =
    (case progress_percent p (sh_recv sh) t of
       Ok x \<Rightarrow> Some P_Check | Err e \<Rightarrow> None | Panic q \<Rightarrow> Some (P_Panicked q))"
| "progress_next p sh pc = None"

section \<open>The main task\<close>

definition monitor_names :: "SpeedOptions \<Rightarrow> string list" where
  "monitor_names opts =
    (if dry_run opts then [] else filter (\<lambda>h. h \<noteq> []) (map trim (split_on (CHR '';'') (monitoring_hosts opts))))"

text \<open>A connected monitor: the bytes written to it and the line it answered.\<close>

record monitor =
  mo_sent :: "u8 list"
  mo_line :: string

datatype main_pc =
    M_Connect "string list"
  | M_Wait1
  | M_Open nat
  | M_Wait2
  | M_Wait3
  | M_Wait4
  | M_Finish
  | M_Close nat
  | M_Read nat
  | M_Quit nat
  | M_JoinProgress
  | M_Gather "(RequestResult list \<times> error list) list"
  | M_Returned
  | M_Failed error
  | M_Panicked panic

record speed =
  sp_main :: main_pc
  sp_fns :: "fn_pc list"
  sp_shared :: shared
  sp_tasks :: "rtask list"
  sp_progress :: prog_pc
  sp_monitors :: "monitor list"
  sp_out :: "string list"
  sp_err :: "string list"

definition send_byte :: "nat \<Rightarrow> u8 \<Rightarrow> speed \<Rightarrow> speed" where
  "send_byte k b sp = sp\<lparr>sp_monitors := (sp_monitors sp)[k := (sp_monitors sp ! k)\<lparr>mo_sent := mo_sent (sp_monitors sp ! k) @ [b]\<rparr>]\<rparr>"

definition read_line :: "nat \<Rightarrow> string \<Rightarrow> speed \<Rightarrow> speed" where
  "read_line k l sp = sp\<lparr>sp_monitors := (sp_monitors sp)[k := (sp_monitors sp ! k)\<lparr>mo_line := l\<rparr>]\<rparr>"

text \<open>The parameters of the report: the unstable sort, the formatters of floats and of errors.\<close>

record report_env =
  re_sort :: "(RequestResult \<Rightarrow> u128) \<Rightarrow> RequestResult list \<Rightarrow> RequestResult list"
  re_fmt :: float_fmt
  re_show_error :: "error \<Rightarrow> string"

text \<open>After the last function is joined: the errors by text on standard error, then the report.\<close>

definition main_report ::
  "profile \<Rightarrow> report_env \<Rightarrow> SpeedOptions \<Rightarrow> (RequestResult list \<times> error list) list \<Rightarrow> speed \<Rightarrow> speed" where
  "main_report p re opts acc sp =
    (let sp = sp\<lparr>sp_err := sp_err sp @ error_lines (re_show_error re) (map snd acc)\<rparr> in
     case print_report p (re_sort re) (re_fmt re) opts (sh_ndp (sp_shared sp)) (sh_total (sp_shared sp))
        (map mo_line (sp_monitors sp)) acc (sp_out sp) of
       (Ok _, out) \<Rightarrow> sp\<lparr>sp_main := M_Returned, sp_out := out\<rparr>
     | (Err e, out) \<Rightarrow> sp\<lparr>sp_main := M_Failed e, sp_out := out\<rparr>
     | (Panic q, out) \<Rightarrow> sp\<lparr>sp_main := M_Panicked q, sp_out := out\<rparr>)"

text \<open>\<open>None\<close> as the answer of an operation on a monitor is success; the operation of a step is the one its counter names.\<close>

fun main_next :: "profile \<Rightarrow> report_env \<Rightarrow> SpeedOptions \<Rightarrow> io_error option \<Rightarrow> string \<Rightarrow> main_pc \<Rightarrow> speed \<Rightarrow> speed option" where
  "main_next p re opts a l (M_Connect []) sp = Some (sp\<lparr>sp_main := M_Wait1\<rparr>)"
| "main_next p re opts None l (M_Connect (h # hs)) sp =
    Some (sp\<lparr>sp_main := M_Connect hs, sp_monitors := sp_monitors sp @ [\<lparr>mo_sent = [], mo_line = []\<rparr>]\<rparr>)"
| "main_next p re opts (Some e) l (M_Connect (h # hs)) sp = Some (sp\<lparr>sp_main := M_Failed (IoError e)\<rparr>)"
| "main_next p re opts a l (M_Open k) sp =
    (if k < length (sp_monitors sp)
     then (case a of None \<Rightarrow> Some ((send_byte k 0x5B sp)\<lparr>sp_main := M_Open (Suc k)\<rparr>)
           | Some e \<Rightarrow> Some (sp\<lparr>sp_main := M_Failed (IoError e)\<rparr>))
     else Some (sp\<lparr>sp_main := M_Wait2\<rparr>))"
| "main_next p re opts a l M_Finish sp = Some (sp\<lparr>sp_shared := (sp_shared sp)\<lparr>sh_done := True\<rparr>, sp_main := M_Close 0\<rparr>)"
| "main_next p re opts a l (M_Close k) sp =
    (if k < length (sp_monitors sp)
     then (case a of None \<Rightarrow> Some ((send_byte k 0x5D sp)\<lparr>sp_main := M_Read k\<rparr>)
           | Some e \<Rightarrow> Some (sp\<lparr>sp_main := M_Failed (IoError e)\<rparr>))
     else Some (sp\<lparr>sp_main := M_JoinProgress\<rparr>))"
| "main_next p re opts a l (M_Read k) sp =
    (case a of None \<Rightarrow> Some ((read_line k l sp)\<lparr>sp_main := M_Quit k\<rparr>)
     | Some e \<Rightarrow> Some (sp\<lparr>sp_main := M_Failed (IoError e)\<rparr>))"
| "main_next p re opts a l (M_Quit k) sp =
    (case a of None \<Rightarrow> Some ((send_byte k 0x71 sp)\<lparr>sp_main := M_Close (Suc k)\<rparr>)
     | Some e \<Rightarrow> Some (sp\<lparr>sp_main := M_Failed (IoError e)\<rparr>))"
| "main_next p re opts a l M_JoinProgress sp =
    (case sp_progress sp of
       P_End \<Rightarrow> Some (sp\<lparr>sp_main := M_Gather []\<rparr>)
     | P_Panicked q \<Rightarrow> Some (sp\<lparr>sp_main := M_Panicked q\<rparr>)
     | _ \<Rightarrow> None)"
| "main_next p re opts a l (M_Gather acc) sp =
    (if length acc < length (sp_fns sp)
     then (case sp_fns sp ! length acc of
         F_Done pl n rs \<Rightarrow> Some (sp\<lparr>sp_main := M_Gather (acc @ [split_results rs ([], [])])\<rparr>)
       | F_Panicked q \<Rightarrow> Some (sp\<lparr>sp_main := M_Panicked (Explicit ''Join error'')\<rparr>)
       | _ \<Rightarrow> None)
     else Some (main_report p re opts acc sp))"
| "main_next p re opts a l pc sp = None"

fun main_waits :: "main_pc \<Rightarrow> bool" where
  "main_waits pc = (pc = M_Wait1 \<or> pc = M_Wait2 \<or> pc = M_Wait3 \<or> pc = M_Wait4)"

definition main_release :: "SpeedOptions \<Rightarrow> main_pc \<Rightarrow> main_pc" where
  "main_release opts pc =
    (if pc = M_Wait1 then (if oneshot opts then M_Returned else M_Open 0)
     else if pc = M_Wait2 then M_Wait3
     else if pc = M_Wait3 then M_Wait4
     else if pc = M_Wait4 then M_Finish else pc)"

text \<open>Everyone is released at once; the main task spawns the progress task after the third barrier.\<close>

definition release_all :: "SpeedOptions \<Rightarrow> speed \<Rightarrow> speed" where
  "release_all opts sp =
    sp\<lparr>sp_main := main_release opts (sp_main sp), sp_fns := map (fn_release opts) (sp_fns sp),
       sp_progress := (if sp_main sp = M_Wait3 then P_Check else sp_progress sp)\<rparr>"

section \<open>The run\<close>

text \<open>A panic of any task ends the process of a release build.\<close>

definition is_panicked :: "speed \<Rightarrow> bool" where
  "is_panicked sp \<longleftrightarrow>
     list_ex (\<lambda>pc. case pc of F_Panicked q \<Rightarrow> True | _ \<Rightarrow> False) (sp_fns sp) \<or>
     (case sp_progress sp of P_Panicked q \<Rightarrow> True | _ \<Rightarrow> False) \<or>
     (case sp_main sp of M_Panicked q \<Rightarrow> True | _ \<Rightarrow> False)"

definition halted :: "profile \<Rightarrow> speed \<Rightarrow> bool" where
  "halted p sp \<longleftrightarrow> p = Release \<and> is_panicked sp"

inductive speed_step ::
  "profile \<Rightarrow> http \<Rightarrow> (string \<Rightarrow> io_error + string) \<Rightarrow> (request \<Rightarrow> error + response) \<Rightarrow> report_env \<Rightarrow> SpeedOptions \<Rightarrow>
   speed \<Rightarrow> speed \<Rightarrow> bool"
  for p h read_file execute re opts where
  fn_moves:
    "\<not> halted p sp \<Longrightarrow> i < length (sp_fns sp) \<Longrightarrow>
     fn_next p h read_file execute opts i (sp_fns sp ! i) (sp_shared sp, sp_tasks sp) = Some (pc, sh, ts) \<Longrightarrow>
     speed_step p h read_file execute re opts sp (sp\<lparr>sp_fns := (sp_fns sp)[i := pc], sp_shared := sh, sp_tasks := ts\<rparr>)"
| request_moves:
    "\<not> halted p sp \<Longrightarrow> j < length (sp_tasks sp) \<Longrightarrow>
     request_next opts now a (rt_state (sp_tasks sp ! j)) (sp_shared sp) = Some (rs, sh) \<Longrightarrow>
     speed_step p h read_file execute re opts sp
       (sp\<lparr>sp_tasks := (sp_tasks sp)[j := (sp_tasks sp ! j)\<lparr>rt_state := rs\<rparr>], sp_shared := sh\<rparr>)"
| main_moves:
    "\<not> halted p sp \<Longrightarrow> main_next p re opts ans l (sp_main sp) sp = Some sp' \<Longrightarrow>
     speed_step p h read_file execute re opts sp sp'"
| progress_moves:
    "\<not> halted p sp \<Longrightarrow> progress_next p (sp_shared sp) (sp_progress sp) = Some pc \<Longrightarrow>
     speed_step p h read_file execute re opts sp (sp\<lparr>sp_progress := pc\<rparr>)"
| barrier:
    "\<not> halted p sp \<Longrightarrow> main_waits (sp_main sp) \<Longrightarrow> list_all fn_waits (sp_fns sp) \<Longrightarrow>
     speed_step p h read_file execute re opts sp (release_all opts sp)"

definition speed_start :: "SpeedOptions \<Rightarrow> speed" where
  "speed_start opts =
    \<lparr>sp_main = M_Connect (monitor_names opts), sp_fns = map (\<lambda>_. F_Prepare) (function_names opts),
     sp_shared = \<lparr>sh_total = 0, sh_sent = 0, sh_recv = 0, sh_ndp = 0, sh_done = False\<rparr>, sp_tasks = [],
     sp_progress = P_None, sp_monitors = [], sp_out = [], sp_err = []\<rparr>"

inductive speed_run ::
  "profile \<Rightarrow> http \<Rightarrow> (string \<Rightarrow> io_error + string) \<Rightarrow> (request \<Rightarrow> error + response) \<Rightarrow> report_env \<Rightarrow> SpeedOptions \<Rightarrow>
   speed \<Rightarrow> speed \<Rightarrow> bool"
  for p h read_file execute re opts where
  speed_refl: "speed_run p h read_file execute re opts sp sp"
| speed_trans:
    "speed_run p h read_file execute re opts sp sp1 \<Longrightarrow> speed_step p h read_file execute re opts sp1 sp2 \<Longrightarrow>
     speed_run p h read_file execute re opts sp sp2"

inductive_cases speed_stepE: "speed_step p h read_file execute re opts sp sp'"

lemma speed_run_invariant:
  assumes "speed_run p h read_file execute re opts sp0 sp" "I sp0"
    and "\<And>sp1 sp2. speed_run p h read_file execute re opts sp0 sp1 \<Longrightarrow> I sp1 \<Longrightarrow> speed_step p h read_file execute re opts sp1 sp2 \<Longrightarrow> I sp2"
  shows "I sp"
  using assms by (induction rule: speed_run.induct) blast+

section \<open>Executing a schedule\<close>

text \<open>The choices of the environment, one per step, and the run they give.\<close>

datatype choice =
    C_Fn nat
  | C_Request nat u128 net_answer
  | C_Main "io_error option" string
  | C_Progress
  | C_Barrier

fun take_choice ::
  "profile \<Rightarrow> http \<Rightarrow> (string \<Rightarrow> io_error + string) \<Rightarrow> (request \<Rightarrow> error + response) \<Rightarrow> report_env \<Rightarrow> SpeedOptions \<Rightarrow>
   choice \<Rightarrow> speed \<Rightarrow> speed option" where
  "take_choice p h read_file execute re opts (C_Fn i) sp =
    (if halted p sp \<or> length (sp_fns sp) \<le> i then None
     else map_option (\<lambda>(pc, sh, ts). sp\<lparr>sp_fns := (sp_fns sp)[i := pc], sp_shared := sh, sp_tasks := ts\<rparr>)
       (fn_next p h read_file execute opts i (sp_fns sp ! i) (sp_shared sp, sp_tasks sp)))"
| "take_choice p h read_file execute re opts (C_Request j now a) sp =
    (if halted p sp \<or> length (sp_tasks sp) \<le> j then None
     else map_option (\<lambda>(rs, sh). sp\<lparr>sp_tasks := (sp_tasks sp)[j := (sp_tasks sp ! j)\<lparr>rt_state := rs\<rparr>], sp_shared := sh\<rparr>)
       (request_next opts now a (rt_state (sp_tasks sp ! j)) (sp_shared sp)))"
| "take_choice p h read_file execute re opts (C_Main a l) sp =
    (if halted p sp then None else main_next p re opts a l (sp_main sp) sp)"
| "take_choice p h read_file execute re opts C_Progress sp =
    (if halted p sp then None
     else map_option (\<lambda>pc. sp\<lparr>sp_progress := pc\<rparr>) (progress_next p (sp_shared sp) (sp_progress sp)))"
| "take_choice p h read_file execute re opts C_Barrier sp =
    (if halted p sp \<or> \<not> main_waits (sp_main sp) \<or> \<not> list_all fn_waits (sp_fns sp) then None
     else Some (release_all opts sp))"

primrec schedule ::
  "profile \<Rightarrow> http \<Rightarrow> (string \<Rightarrow> io_error + string) \<Rightarrow> (request \<Rightarrow> error + response) \<Rightarrow> report_env \<Rightarrow> SpeedOptions \<Rightarrow>
   choice list \<Rightarrow> speed \<Rightarrow> speed option" where
  "schedule p h read_file execute re opts [] sp = Some sp"
| "schedule p h read_file execute re opts (c # cs) sp =
    (case take_choice p h read_file execute re opts c sp of
       None \<Rightarrow> None | Some sp' \<Rightarrow> schedule p h read_file execute re opts cs sp')"

text \<open>The steps of a run are exactly the choices.\<close>

lemma step_iff_choice:
  "speed_step p h read_file execute re opts sp sp' \<longleftrightarrow> (\<exists>c. take_choice p h read_file execute re opts c sp = Some sp')"
proof
  assume "speed_step p h read_file execute re opts sp sp'"
  then show "\<exists>c. take_choice p h read_file execute re opts c sp = Some sp'"
  proof cases
    case (fn_moves i pc sh ts)
    then show ?thesis by (intro exI [of _ "C_Fn i"]) simp
  next
    case (request_moves j now a rs sh)
    then show ?thesis by (intro exI [of _ "C_Request j now a"]) simp
  next
    case (main_moves ans l)
    then show ?thesis by (intro exI [of _ "C_Main ans l"]) simp
  next
    case (progress_moves pc)
    then show ?thesis by (intro exI [of _ C_Progress]) simp
  next
    case barrier
    then show ?thesis by (intro exI [of _ C_Barrier]) (simp del: main_waits.simps)
  qed
next
  assume "\<exists>c. take_choice p h read_file execute re opts c sp = Some sp'"
  then obtain c where "take_choice p h read_file execute re opts c sp = Some sp'" ..
  then show "speed_step p h read_file execute re opts sp sp'"
    by (cases c) (auto intro: speed_step.intros simp del: main_waits.simps split: if_splits)
qed

lemma schedule_append:
  "schedule p h read_file execute re opts (cs @ ds) sp =
    (case schedule p h read_file execute re opts cs sp of None \<Rightarrow> None | Some sp' \<Rightarrow> schedule p h read_file execute re opts ds sp')"
  by (induction cs arbitrary: sp) (simp_all split: option.splits)

interpretation schedules: logged_run "\<lambda>sp c sp'. take_choice p h read_file execute re opts c sp = Some sp'"
  "\<lambda>sp cs sp'. schedule p h read_file execute re opts cs sp = Some sp'" for p h read_file execute re opts
  by unfold_locales (auto simp: schedule_append split: option.splits)

lemma schedule_run_from:
  assumes "speed_run p h read_file execute re opts sp0 sp" "schedule p h read_file execute re opts cs sp = Some sp'"
  shows "speed_run p h read_file execute re opts sp0 sp'"
proof (rule schedules.run_invariant [where I = "speed_run p h read_file execute re opts sp0", OF assms(2,1)])
  fix c sp1 sp2
  assume "speed_run p h read_file execute re opts sp0 sp1" "take_choice p h read_file execute re opts c sp1 = Some sp2"
  then show "speed_run p h read_file execute re opts sp0 sp2" using step_iff_choice by (blast intro: speed_trans)
qed

lemmas schedule_run = schedule_run_from [OF speed_refl]

end
