(* ===== verification/Speed_Safety.thy ===== *)
theory Speed_Safety
  imports Speed_Run
begin

text \<open>
  Invariants of the runs of the load generator: the tasks move through the barriers in step, the requests lie
  inside the monitored range, every request is accounted for, and the counters count what they say.
\<close>

section \<open>Phases\<close>

fun fn_phase :: "fn_pc \<Rightarrow> nat option" where
  "fn_phase F_Prepare = Some 0"
| "fn_phase (F_Wait1 pl) = Some 0"
| "fn_phase (F_Wait2 pl) = Some 1"
| "fn_phase (F_Count pl) = Some 2"
| "fn_phase (F_Wait3 pl n) = Some 2"
| "fn_phase (F_Start pl n) = Some 3"
| "fn_phase (F_Gen pl n k g hs) = Some 3"
| "fn_phase (F_Join pl n rs hs) = Some 3"
| "fn_phase (F_Wait4 pl n rs) = Some 3"
| "fn_phase (F_Done pl n rs) = Some 4"
| "fn_phase (F_Panicked q) = None"
| "fn_phase F_Stuck = None"

fun main_phase :: "main_pc \<Rightarrow> nat option" where
  "main_phase (M_Connect hs) = Some 0"
| "main_phase M_Wait1 = Some 0"
| "main_phase (M_Open k) = Some 1"
| "main_phase M_Wait2 = Some 1"
| "main_phase M_Wait3 = Some 2"
| "main_phase M_Wait4 = Some 3"
| "main_phase M_Finish = Some 4"
| "main_phase (M_Close k) = Some 4"
| "main_phase (M_Read k) = Some 4"
| "main_phase (M_Quit k) = Some 4"
| "main_phase M_JoinProgress = Some 4"
| "main_phase (M_Gather acc) = Some 4"
| "main_phase M_Returned = None"
| "main_phase (M_Failed e) = None"
| "main_phase (M_Panicked q) = None"

definition in_phase :: "nat \<Rightarrow> speed \<Rightarrow> bool" where
  "in_phase k sp \<longleftrightarrow> list_all (\<lambda>pc. fn_phase pc \<in> {None, Some k}) (sp_fns sp) \<and> main_phase (sp_main sp) \<in> {None, Some k}"

lemma list_all_update: "list_all P xs \<Longrightarrow> P x \<Longrightarrow> list_all P (xs[i := x])"
  using set_update_subset_insert [of xs i x] by (auto simp: list_all_iff)

lemma fn_panics_phase: "(\<And>x. fn_phase (f x) \<in> {None, Some k}) \<Longrightarrow> fn_phase (fn_panics r f) \<in> {None, Some k}"
  by (cases r) auto

lemma fn_next_phase:
  assumes "fn_next p h read_file execute opts i pc st = Some (pc', st')"
  shows "fn_phase pc' = None \<or> fn_phase pc' = fn_phase pc"
proof -
  have prep: "fn_phase (fn_prepare h read_file execute opts i) \<in> {None, Some 0}"
    unfolding fn_prepare_def by (intro fn_panics_phase) simp
  have gen: "fn_phase (fst (fn_generate p h opts i pl n k g hs st)) \<in> {None, Some 3}" for pl n k g hs
    by (auto simp: fn_generate_def Let_def split: option.splits outcome.splits)
  have start: "fn_phase (fn_panics r (\<lambda>g. F_Gen pl n n g [])) \<in> {None, Some 3}" for r pl n
    by (intro fn_panics_phase) simp
  have gen': "fn_phase pc' \<in> {None, Some 3}" if "fn_generate p h opts i pl n k g hs st = (pc', st')" for pl n k g hs
    using gen [of pl n k g hs] that by simp
  show ?thesis
    using assms prep start gen'
    by (cases "(p, h, read_file, execute, opts, i, pc, st)" rule: fn_next.cases)
      (auto split: outcome.splits option.splits rstate.splits)
qed

lemma main_next_phase:
  assumes "main_next p re opts a l pc sp = Some sp'" "sp_main sp = pc"
  shows "main_phase (sp_main sp') = None \<or> main_phase (sp_main sp') = main_phase pc"
  using assms
  by (cases "(p, re, opts, a, l, pc, sp)" rule: main_next.cases)
    (auto simp: main_report_def send_byte_def read_line_def Let_def split: if_splits option.splits prog_pc.splits fn_pc.splits outcome.splits prod.splits)

lemma main_next_frame:
  assumes "main_next p re opts a l pc sp = Some sp'"
  shows "sp_fns sp' = sp_fns sp \<and> sp_tasks sp' = sp_tasks sp \<and> sp_progress sp' = sp_progress sp \<and>
    sh_total (sp_shared sp') = sh_total (sp_shared sp) \<and> sh_sent (sp_shared sp') = sh_sent (sp_shared sp) \<and>
    sh_recv (sp_shared sp') = sh_recv (sp_shared sp) \<and> sh_ndp (sp_shared sp') = sh_ndp (sp_shared sp)"
  using assms
  by (cases "(p, re, opts, a, l, pc, sp)" rule: main_next.cases)
    (auto simp: main_report_def send_byte_def read_line_def Let_def
      split: if_splits option.splits prog_pc.splits fn_pc.splits outcome.splits prod.splits)

lemma release_phase:
  assumes "in_phase k sp" "main_waits (sp_main sp)" "list_all fn_waits (sp_fns sp)"
  shows "in_phase (if k = 0 \<and> oneshot opts then 4 else Suc k) (release_all opts sp)"
proof -
  have m: "main_phase (sp_main sp) = Some k" using assms(1,2) by (auto simp: in_phase_def)
  have f: "fn_phase (fn_release opts pc) = Some (if k = 0 \<and> oneshot opts then 4 else Suc k)"
    if "fn_waits pc" "fn_phase pc \<in> {None, Some k}" for pc
    using that by (cases pc) auto
  have "list_all (\<lambda>pc. fn_phase pc \<in> {None, Some (if k = 0 \<and> oneshot opts then 4 else Suc k)}) (map (fn_release opts) (sp_fns sp))"
    using assms(1,3) f by (auto simp: in_phase_def list_all_iff)
  moreover have "main_phase (main_release opts (sp_main sp)) \<in> {None, Some (if k = 0 \<and> oneshot opts then 4 else Suc k)}"
    using m assms(2) by (auto simp: main_release_def)
  ultimately show ?thesis by (simp add: in_phase_def release_all_def)
qed

lemma step_phase:
  assumes "speed_step p h read_file execute re opts sp sp'" "in_phase k sp"
  shows "\<exists>k'. in_phase k' sp'"
  using assms(1)
proof cases
  case (fn_moves i pc sh ts)
  have "fn_phase (sp_fns sp ! i) \<in> {None, Some k}"
    using assms(2) fn_moves by (auto simp: in_phase_def list_all_length)
  with fn_next_phase [OF fn_moves(4)] have "fn_phase pc \<in> {None, Some k}" by auto
  with assms(2) fn_moves show ?thesis by (auto simp: in_phase_def intro!: exI [of _ k] list_all_update)
next
  case (main_moves ans l)
  with main_next_frame [OF main_moves(2)] main_next_phase [OF main_moves(2) refl] assms(2)
  show ?thesis by (intro exI [of _ k]) (auto simp: in_phase_def)
next
  case barrier
  with release_phase [OF assms(2)] show ?thesis by blast
qed (use assms(2) in \<open>auto simp: in_phase_def\<close>)

section \<open>The monitored range\<close>

text \<open>A function that has passed the second barrier and may still send requests.\<close>

definition fn_active :: "fn_pc \<Rightarrow> bool" where
  "fn_active pc \<longleftrightarrow> fn_phase pc = Some 2 \<or> fn_phase pc = Some 3"

text \<open>The bytes on the monitors, for every position of the main task.\<close>

definition opened :: "monitor \<Rightarrow> bool" where
  "opened m \<longleftrightarrow> (\<exists>bs. mo_sent m = 0x5B # bs)"

definition untouched :: "monitor \<Rightarrow> bool" where
  "untouched m \<longleftrightarrow> mo_sent m = []"

definition only_opened :: "monitor \<Rightarrow> bool" where
  "only_opened m \<longleftrightarrow> mo_sent m = [0x5B]"

definition served :: "monitor \<Rightarrow> bool" where
  "served m \<longleftrightarrow> mo_sent m = [0x5B, 0x5D, 0x71]"

fun monitors_at :: "main_pc \<Rightarrow> monitor list \<Rightarrow> bool" where
  "monitors_at (M_Connect hs) ms = list_all untouched ms"
| "monitors_at M_Wait1 ms = list_all untouched ms"
| "monitors_at (M_Open k) ms =
    (k \<le> length ms \<and> list_all only_opened (take k ms) \<and> list_all untouched (drop k ms))"
| "monitors_at (M_Close k) ms =
    (k \<le> length ms \<and> list_all served (take k ms) \<and> list_all only_opened (drop k ms))"
| "monitors_at (M_Read k) ms =
    (k < length ms \<and> list_all served (take k ms) \<and> mo_sent (ms ! k) = [0x5B, 0x5D] \<and> list_all only_opened (drop (Suc k) ms))"
| "monitors_at (M_Quit k) ms =
    (k < length ms \<and> list_all served (take k ms) \<and> mo_sent (ms ! k) = [0x5B, 0x5D] \<and> list_all only_opened (drop (Suc k) ms))"
| "monitors_at M_JoinProgress ms = list_all served ms"
| "monitors_at (M_Gather acc) ms = list_all served ms"
| "monitors_at M_Returned ms = True"
| "monitors_at (M_Failed e) ms = True"
| "monitors_at (M_Panicked q) ms = True"
| "monitors_at pc ms = list_all only_opened ms"

lemma take_update_Suc: "k < length xs \<Longrightarrow> take (Suc k) (xs[k := x]) = take k xs @ [x]"
  by (simp add: take_Suc_conv_app_nth)

lemma main_next_monitors:
  assumes "main_next p re opts a l pc sp = Some sp'" "sp_main sp = pc" "monitors_at pc (sp_monitors sp)"
  shows "monitors_at (sp_main sp') (sp_monitors sp')"
  using assms
  by (cases "(p, re, opts, a, l, pc, sp)" rule: main_next.cases)
    (auto simp: main_report_def send_byte_def read_line_def Let_def untouched_def only_opened_def served_def
      take_update_Suc Cons_nth_drop_Suc [symmetric]
      split: if_splits option.splits prog_pc.splits fn_pc.splits outcome.splits prod.splits)

definition finished :: "rtask \<Rightarrow> bool" where
  "finished t \<longleftrightarrow> (\<exists>r. rt_state t = R_Finished r)"

text \<open>A spawned request is still in the hands of its function, or it is finished.\<close>

fun held :: "fn_pc \<Rightarrow> nat \<Rightarrow> rtask \<Rightarrow> bool" where
  "held (F_Gen pl n k g hs) j t = (j \<in> set hs)"
| "held (F_Join pl n rs hs) j t = (j \<in> set hs \<or> finished t)"
| "held (F_Wait4 pl n rs) j t = finished t"
| "held (F_Done pl n rs) j t = finished t"
| "held (F_Panicked q) j t = True"
| "held F_Stuck j t = True"
| "held pc j t = False"

definition accounted :: "fn_pc list \<Rightarrow> rtask list \<Rightarrow> bool" where
  "accounted fns ts \<longleftrightarrow> (\<forall>j < length ts. rt_fn (ts ! j) < length fns \<and> held (fns ! rt_fn (ts ! j)) j (ts ! j))"

definition begun :: "speed \<Rightarrow> bool" where
  "begun sp \<longleftrightarrow> sp_tasks sp \<noteq> [] \<or> (\<exists>pc \<in> set (sp_fns sp). fn_active pc)"

definition closing :: "speed \<Rightarrow> bool" where
  "closing sp \<longleftrightarrow> main_phase (sp_main sp) = Some 4 \<or> (\<exists>m \<in> set (sp_monitors sp). 0x5D \<in> set (mo_sent m))"

definition is_done :: "fn_pc \<Rightarrow> bool" where
  "is_done pc \<longleftrightarrow> (\<exists>pl n rs. pc = F_Done pl n rs)"

definition range_inv :: "speed \<Rightarrow> bool" where
  "range_inv sp \<longleftrightarrow> (\<exists>k. in_phase k sp) \<and> monitors_at (sp_main sp) (sp_monitors sp) \<and>
     (begun sp \<longrightarrow> list_all opened (sp_monitors sp) \<and> main_phase (sp_main sp) \<notin> {Some 0, Some 1}) \<and>
     accounted (sp_fns sp) (sp_tasks sp) \<and> (closing sp \<longrightarrow> list_all is_done (sp_fns sp))"

text \<open>What a step of a function does to the list of requests: nothing, or it spawns one.\<close>

lemma fn_next_tasks:
  assumes "fn_next p h read_file execute opts i pc (sh, ts) = Some (pc', sh', ts')"
  shows "ts' = ts \<or> (\<exists>pl n k g g' hs t. pc = F_Gen pl n (Suc k) g hs \<and> pc' = F_Gen pl n k g' (hs @ [length ts]) \<and>
    ts' = ts @ [t] \<and> rt_fn t = i \<and> rt_state t = R_Spawned)"
  using assms
  by (cases "(p, h, read_file, execute, opts, i, pc, (sh, ts))" rule: fn_next.cases)
    (auto simp: fn_generate_def Let_def split: outcome.splits option.splits rstate.splits if_splits)

lemma fn_next_held:
  assumes "fn_next p h read_file execute opts i pc (sh, ts) = Some (pc', sh', ts')"
    and "j < length ts" "held pc j (ts ! j)"
  shows "held pc' j (ts' ! j)"
  using assms
  by (cases "(p, h, read_file, execute, opts, i, pc, (sh, ts))" rule: fn_next.cases)
    (auto simp: fn_generate_def Let_def finished_def nth_append nth_opt_def
      split: outcome.splits option.splits rstate.splits if_splits)

lemma fn_next_accounted:
  assumes "i < length fns" "fn_next p h read_file execute opts i (fns ! i) (sh, ts) = Some (pc', sh', ts')" "accounted fns ts"
  shows "accounted (fns[i := pc']) ts'"
proof -
  have old: "rt_fn (ts ! j) < length fns \<and> held (fns[i := pc'] ! rt_fn (ts ! j)) j (ts' ! j)"
    if j: "j < length ts" and same: "ts' ! j = ts ! j" for j
  proof (cases "rt_fn (ts ! j) = i")
    case True
    with fn_next_held [OF assms(2) j] assms(1,3) j show ?thesis by (auto simp: accounted_def)
  next
    case False
    with assms(3) j same show ?thesis by (simp add: accounted_def)
  qed
  from fn_next_tasks [OF assms(2)] show ?thesis
  proof (elim disjE exE conjE)
    assume "ts' = ts"
    with old show ?thesis by (simp add: accounted_def)
  next
    fix pl n k g g' hs t
    assume new: "pc' = F_Gen pl n k g' (hs @ [length ts])" "ts' = ts @ [t]" "rt_fn t = i"
    show ?thesis
      unfolding accounted_def
    proof (intro allI impI)
      fix j
      assume "j < length ts'"
      then consider "j < length ts" | "j = length ts" using new(2) by fastforce
      then show "rt_fn (ts' ! j) < length (fns[i := pc']) \<and> held (fns[i := pc'] ! rt_fn (ts' ! j)) j (ts' ! j)"
        using old [of j] new assms(1) by cases (simp_all add: nth_append)
    qed
  qed
qed

lemma request_next_accounted:
  assumes "accounted fns ts" "j < length ts" "request_next opts now a (rt_state (ts ! j)) sh = Some (rs, sh')"
  shows "accounted fns (ts[j := (ts ! j)\<lparr>rt_state := rs\<rparr>])"
proof -
  have "\<not> finished (ts ! j)" using assms(3) by (auto simp: finished_def)
  then have "held pc i t'" if "held pc i (ts ! j)" for pc i t' using that by (cases pc) auto
  with assms(1,2) show ?thesis by (auto simp: accounted_def nth_list_update)
qed

lemma fn_moves_range:
  assumes "range_inv sp" "i < length (sp_fns sp)"
    and "fn_next p h read_file execute opts i (sp_fns sp ! i) (sp_shared sp, sp_tasks sp) = Some (pc, sh, ts)"
    and "\<exists>k. in_phase k (sp\<lparr>sp_fns := (sp_fns sp)[i := pc], sp_shared := sh, sp_tasks := ts\<rparr>)"
  shows "range_inv (sp\<lparr>sp_fns := (sp_fns sp)[i := pc], sp_shared := sh, sp_tasks := ts\<rparr>)"
proof -
  let ?pc = "sp_fns sp ! i"
  have mem: "?pc \<in> set (sp_fns sp)" using assms(2) by simp
  have "fn_active ?pc" if "fn_active pc" using that fn_next_phase [OF assms(3)] by (auto simp: fn_active_def)
  moreover have "fn_active ?pc" if "ts \<noteq> sp_tasks sp" using that fn_next_tasks [OF assms(3)] by (auto simp: fn_active_def)
  ultimately have beg: "begun sp" if "begun (sp\<lparr>sp_fns := (sp_fns sp)[i := pc], sp_shared := sh, sp_tasks := ts\<rparr>)"
    using that mem set_update_subset_insert [of "sp_fns sp" i pc] by (auto simp: begun_def)
  have "\<not> is_done ?pc" using assms(3) by (auto simp: is_done_def)
  then have "\<not> closing sp" using assms(1) mem by (auto simp: range_inv_def list_all_iff)
  then show ?thesis
    using assms(1,4) beg fn_next_accounted [OF assms(2,3)] by (simp add: range_inv_def closing_def)
qed

lemma main_next_opened:
  assumes "main_next p re opts a l pc sp = Some sp'" "main_phase pc \<notin> {Some 0, Some 1}" "list_all opened (sp_monitors sp)"
  shows "list_all opened (sp_monitors sp')"
proof -
  have upd: "list_all opened (ms[k := f (ms ! k)])" if "list_all opened ms" "\<And>m. opened m \<Longrightarrow> opened (f m)" for ms k f
  proof (cases "k < length ms")
    case True
    then have "opened (ms ! k)" using that(1) by (simp add: list_all_length)
    then show ?thesis by (intro list_all_update that)
  next
    case False
    with that(1) show ?thesis by (simp add: list_update_beyond not_less)
  qed
  have send: "list_all opened (ms[k := (ms ! k)\<lparr>mo_sent := mo_sent (ms ! k) @ [b]\<rparr>])" if "list_all opened ms" for ms k b
    by (rule upd [OF that, where f = "\<lambda>m. m\<lparr>mo_sent := mo_sent m @ [b]\<rparr>"]) (auto simp: opened_def)
  have read: "list_all opened (ms[k := (ms ! k)\<lparr>mo_line := l\<rparr>])" if "list_all opened ms" for ms k l
    by (rule upd [OF that, where f = "\<lambda>m. m\<lparr>mo_line := l\<rparr>"]) (auto simp: opened_def)
  show ?thesis
    using assms send read
    by (cases "(p, re, opts, a, l, pc, sp)" rule: main_next.cases)
      (auto simp: main_report_def send_byte_def read_line_def Let_def
        split: if_splits option.splits prog_pc.splits fn_pc.splits outcome.splits prod.splits)
qed

lemma main_next_closing:
  assumes "main_next p re opts a l pc sp = Some sp'" "sp_main sp = pc" "closing sp'"
  shows "closing sp"
proof (cases "main_phase pc = Some 4")
  case False
  have open_byte: "\<exists>m \<in> set ms. 0x5D \<in> set (mo_sent m)"
    if "m \<in> set (ms[k := (ms ! k)\<lparr>mo_sent := mo_sent (ms ! k) @ [0x5B]\<rparr>])" "0x5D \<in> set (mo_sent m)" "k < length ms" for m ms k
  proof -
    from that(1) have "m \<in> set ms \<or> m = (ms ! k)\<lparr>mo_sent := mo_sent (ms ! k) @ [0x5B]\<rparr>"
      using set_update_subset_insert [of ms k] by fast
    then show ?thesis using that(2) nth_mem [OF that(3)] by auto
  qed
  have "\<exists>m \<in> set (sp_monitors sp). 0x5D \<in> set (mo_sent m)"
    if "\<exists>m \<in> set (sp_monitors sp'). 0x5D \<in> set (mo_sent m)"
    using that assms(1,2) False open_byte
    by (cases "(p, re, opts, a, l, pc, sp)" rule: main_next.cases)
      (auto simp: send_byte_def split: if_splits option.splits)
  with assms(2,3) False main_next_phase [OF assms(1,2)] show ?thesis by (auto simp: closing_def)
qed (use assms(2) in \<open>simp add: closing_def\<close>)

lemma main_moves_range:
  assumes "range_inv sp" "main_next p re opts a l (sp_main sp) sp = Some sp'" "\<exists>k. in_phase k sp'"
  shows "range_inv sp'"
proof -
  note frame = main_next_frame [OF assms(2)]
  have "begun sp' = begun sp" using frame by (simp add: begun_def)
  moreover have "main_phase (sp_main sp') \<notin> {Some 0, Some 1}" if "main_phase (sp_main sp) \<notin> {Some 0, Some 1}"
    using that main_next_phase [OF assms(2) refl] by auto
  ultimately have "begun sp' \<longrightarrow> list_all opened (sp_monitors sp') \<and> main_phase (sp_main sp') \<notin> {Some 0, Some 1}"
    using assms(1) main_next_opened [OF assms(2)] by (auto simp: range_inv_def)
  moreover have "monitors_at (sp_main sp') (sp_monitors sp')"
    using main_next_monitors [OF assms(2) refl] assms(1) by (simp add: range_inv_def)
  moreover have "closing sp' \<longrightarrow> list_all is_done (sp_fns sp')"
    using main_next_closing [OF assms(2) refl] assms(1) frame by (simp add: range_inv_def)
  ultimately show ?thesis using assms(1,3) frame by (simp add: range_inv_def)
qed

lemma barrier_range:
  assumes "range_inv sp" "main_waits (sp_main sp)" "list_all fn_waits (sp_fns sp)"
  shows "range_inv (release_all opts sp)"
proof -
  obtain k where k: "in_phase k sp" using assms(1) by (auto simp: range_inv_def)
  have m: "main_phase (sp_main sp) = Some k" using k assms(2) by (auto simp: in_phase_def)
  have fns: "fn_phase pc = Some k" if "pc \<in> set (sp_fns sp)" for pc
  proof -
    have "fn_waits pc" "fn_phase pc \<in> {None, Some k}" using that k assms(3) by (auto simp: in_phase_def list_all_iff)
    then show ?thesis by (cases pc) auto
  qed
  have quiet: "0x5D \<notin> set (mo_sent x)" if "x \<in> set (sp_monitors sp)" for x
    using that assms(1,2) by (auto simp: range_inv_def list_all_iff untouched_def only_opened_def)
  have mons: "monitors_at (sp_main (release_all opts sp)) (sp_monitors (release_all opts sp))"
    using assms(1,2) by (auto simp: range_inv_def release_all_def main_release_def)
  have "begun sp \<or> k = 1" if "begun (release_all opts sp)"
  proof (cases "sp_tasks sp = []")
    case True
    with that obtain pc where pc: "pc \<in> set (sp_fns sp)" "fn_active (fn_release opts pc)"
      by (auto simp: begun_def release_all_def)
    have "fn_active pc \<or> fn_phase pc = Some 1"
      using pc(2) by (cases pc rule: fn_pc.exhaust) (auto simp: fn_active_def split: if_splits)
    with fns [OF pc(1)] pc(1) show ?thesis by (auto simp: begun_def)
  qed (simp add: begun_def)
  moreover have "list_all opened (sp_monitors sp)" if "k = 1"
    using that m assms(1,2) by (auto simp: range_inv_def list_all_iff opened_def only_opened_def)
  ultimately have beg: "begun (release_all opts sp) \<longrightarrow> list_all opened (sp_monitors (release_all opts sp)) \<and>
      main_phase (sp_main (release_all opts sp)) \<notin> {Some 0, Some 1}"
    using assms(1,2) m by (auto simp: range_inv_def release_all_def main_release_def)
  have heldr: "held (fn_release opts pc) j t" if "held pc j t" for pc j t using that by (cases pc) auto
  have acc: "accounted (sp_fns (release_all opts sp)) (sp_tasks (release_all opts sp))"
    using assms(1) heldr by (auto simp: range_inv_def accounted_def release_all_def)
  have "list_all is_done (sp_fns (release_all opts sp))" if "closing (release_all opts sp)"
  proof -
    have "k = 3" using that quiet assms(2) m by (auto simp: closing_def release_all_def main_release_def split: if_splits)
    have "is_done (fn_release opts pc)" if "pc \<in> set (sp_fns sp)" for pc
      using fns [OF that] assms(3) \<open>k = 3\<close> that by (cases pc) (auto simp: is_done_def list_all_iff)
    then show ?thesis by (auto simp: release_all_def list_all_iff)
  qed
  with mons beg acc release_phase [OF k assms(2,3)] show ?thesis unfolding range_inv_def by blast
qed

lemma step_range_inv:
  assumes "speed_step p h read_file execute re opts sp sp'" "range_inv sp"
  shows "range_inv sp'"
proof -
  from assms(2) obtain k where "in_phase k sp" by (auto simp: range_inv_def)
  from step_phase [OF assms(1) this] have ph: "\<exists>k. in_phase k sp'" .
  from assms(1) show ?thesis
  proof cases
    case (fn_moves i pc sh ts)
    with fn_moves_range [OF assms(2) fn_moves(3,4)] ph show ?thesis by simp
  next
    case (request_moves j now a rs sh)
    then have "accounted (sp_fns sp) ((sp_tasks sp)[j := (sp_tasks sp ! j)\<lparr>rt_state := rs\<rparr>])"
      using request_next_accounted assms(2) by (auto simp: range_inv_def)
    with request_moves assms(2) ph show ?thesis by (simp add: range_inv_def begun_def closing_def)
  next
    case (main_moves ans l)
    with main_moves_range [OF assms(2)] ph show ?thesis by blast
  next
    case (progress_moves pc)
    with assms(2) ph show ?thesis by (simp add: range_inv_def begun_def closing_def)
  next
    case barrier
    with barrier_range [OF assms(2)] show ?thesis by simp
  qed
qed

lemma start_range_inv: "range_inv (speed_start opts)"
proof -
  have "in_phase 0 (speed_start opts)" by (simp add: in_phase_def speed_start_def list_all_iff)
  then show ?thesis
    by (auto simp: range_inv_def speed_start_def begun_def closing_def accounted_def fn_active_def)
qed

lemma run_range_inv: "speed_run p h read_file execute re opts sp sp' \<Longrightarrow> range_inv sp \<Longrightarrow> range_inv sp'"
  using speed_run_invariant [where I = range_inv] step_range_inv by blast

text \<open>Before the first request is spawned, all monitors the options name are connected.\<close>

fun connected_at :: "SpeedOptions \<Rightarrow> main_pc \<Rightarrow> nat \<Rightarrow> bool" where
  "connected_at opts (M_Connect hs) n = (n + length hs = length (monitor_names opts))"
| "connected_at opts (M_Failed e) n = True"
| "connected_at opts pc n = (n = length (monitor_names opts))"

definition connected_inv :: "SpeedOptions \<Rightarrow> speed \<Rightarrow> bool" where
  "connected_inv opts sp \<longleftrightarrow> range_inv sp \<and> connected_at opts (sp_main sp) (length (sp_monitors sp)) \<and>
     (begun sp \<longrightarrow> length (sp_monitors sp) = length (monitor_names opts))"

lemma main_next_connected:
  assumes "main_next p re opts a l pc sp = Some sp'" "sp_main sp = pc" "connected_at opts pc (length (sp_monitors sp))"
  shows "connected_at opts (sp_main sp') (length (sp_monitors sp'))"
  using assms
  by (cases "(p, re, opts, a, l, pc, sp)" rule: main_next.cases)
    (auto simp: main_report_def send_byte_def read_line_def Let_def
      split: if_splits option.splits prog_pc.splits fn_pc.splits outcome.splits prod.splits)

lemma main_next_monitor_count:
  assumes "main_next p re opts a l pc sp = Some sp'" "main_phase pc \<notin> {Some 0, Some 1}"
  shows "length (sp_monitors sp') = length (sp_monitors sp)"
  using assms
  by (cases "(p, re, opts, a, l, pc, sp)" rule: main_next.cases)
    (auto simp: main_report_def send_byte_def read_line_def Let_def
      split: if_splits option.splits prog_pc.splits fn_pc.splits outcome.splits prod.splits)

lemma begun_before:
  assumes "speed_step p h read_file execute re opts sp sp'" "range_inv sp" "begun sp'"
  shows "begun sp \<or> (main_waits (sp_main sp) \<and> sp_monitors sp' = sp_monitors sp)"
  using assms(1)
proof cases
  case (fn_moves i pc sh ts)
  have mem: "sp_fns sp ! i \<in> set (sp_fns sp)" using fn_moves by simp
  have "fn_active (sp_fns sp ! i)" if "fn_active pc" using that fn_next_phase [OF fn_moves(4)] by (auto simp: fn_active_def)
  moreover have "fn_active (sp_fns sp ! i)" if "ts \<noteq> sp_tasks sp" using that fn_next_tasks [OF fn_moves(4)] by (auto simp: fn_active_def)
  ultimately show ?thesis
    using assms(3) mem fn_moves(1) set_update_subset_insert [of "sp_fns sp" i pc] by (auto simp: begun_def)
next
  case (main_moves ans l)
  with assms(3) main_next_frame [OF main_moves(2)] show ?thesis by (simp add: begun_def)
qed (use assms(3) in \<open>auto simp: begun_def release_all_def\<close>)

lemma step_connected:
  assumes "speed_step p h read_file execute re opts sp sp'" "connected_inv opts sp"
  shows "connected_inv opts sp'"
proof -
  have inv: "range_inv sp" and at: "connected_at opts (sp_main sp) (length (sp_monitors sp))"
    and beg: "begun sp \<Longrightarrow> length (sp_monitors sp) = length (monitor_names opts)"
    using assms(2) by (auto simp: connected_inv_def)
  have "connected_at opts (sp_main sp') (length (sp_monitors sp'))"
    using assms(1)
  proof cases
    case (main_moves ans l)
    with main_next_connected [OF main_moves(2) refl at] show ?thesis by simp
  qed (use at in \<open>auto simp: release_all_def main_release_def\<close>)
  moreover have "length (sp_monitors sp') = length (monitor_names opts)" if b: "begun sp'"
    using assms(1)
  proof cases
    case (main_moves ans l)
    then have bs: "begun sp" using begun_before [OF assms(1) inv b] by auto
    then have "main_phase (sp_main sp) \<notin> {Some 0, Some 1}" using inv by (simp add: range_inv_def)
    from main_next_monitor_count [OF main_moves(2) this] beg [OF bs] show ?thesis by simp
  next
    case barrier
    with at show ?thesis by (auto simp: release_all_def)
  qed (use begun_before [OF assms(1) inv b] beg at in auto)
  ultimately show ?thesis using step_range_inv [OF assms(1) inv] by (simp add: connected_inv_def)
qed

lemma run_connected:
  assumes "speed_run p h read_file execute re opts (speed_start opts) sp"
  shows "connected_inv opts sp"
proof -
  have "connected_inv opts (speed_start opts)"
    using start_range_inv by (auto simp: connected_inv_def speed_start_def begun_def fn_active_def)
  from speed_run_invariant [where I = "connected_inv opts", OF assms this] step_connected show ?thesis by blast
qed

end
