(* ===== verification/Speed_Setup.thy ===== *)
theory Speed_Setup
  imports Speed_Requests
begin

text \<open>
  Correctness of the load generator's set-up: the defaults of the options, the bodies of the prepared
  requests, and which panics are left.
\<close>

section \<open>Defaults\<close>

definition has_defaults :: "SpeedOptions \<Rightarrow> bool" where
  "has_defaults opts \<longleftrightarrow> input_data opts \<noteq> [] \<and> requests_per_second opts \<noteq> [] \<and> function_names opts \<noteq> [] \<and>
     offload_frac_num opts \<noteq> [] \<and> starts_with ''http://'' (url opts)"

lemma or_default_not_Nil [simp]: "or_default d xs \<noteq> []"
  by (simp add: or_default_def)

lemma or_default_id [simp]: "xs \<noteq> [] \<Longrightarrow> or_default d xs = xs"
  by (simp add: or_default_def)

lemma get_opts_defaults: "has_defaults (get_opts opts)"
  by (simp add: has_defaults_def get_opts_def Let_def starts_with_iff)

lemma get_opts_id: "has_defaults opts \<Longrightarrow> get_opts opts = opts"
  by (simp add: has_defaults_def get_opts_def Let_def)

lemma first_input:
  assumes "input_data opts \<noteq> []"
  shows "function_input read_file opts 0 =
    (if starts_with ''@'' (hd (input_data opts))
     then (case read_file (trim (tl (hd (input_data opts)))) of
         Inl e \<Rightarrow> Panic (Expect ''Couldn't read arguments file'')
       | Inr t \<Rightarrow> Ok (filter (\<lambda>l. l \<noteq> []) (map trim (str_lines t))))
     else Ok (input_data opts))"
proof (cases "starts_with ''@'' (hd (input_data opts))")
  case True
  then obtain f where "hd (input_data opts) = ''@'' @ f" by (auto simp: starts_with_iff)
  with True assms show ?thesis
    by (simp add: function_input_def index_vec_def nth_opt_def expect_opt_def hd_conv_nth split: sum.splits)
next
  case False
  with assms show ?thesis by (simp add: function_input_def index_vec_def hd_conv_nth)
qed

lemma make_request_cases: "make_request h u d t = Ok r \<Longrightarrow> r = \<lparr>rq_url = u, rq_content_type = ''application/json'', rq_body = d, rq_timeout = t\<rparr>"
  by (auto simp: make_request_def Let_def split: option.splits)

lemma make_request_no_panic: "\<not> is_panic (make_request h u d t)"
  by (simp add: make_request_def Let_def split: option.splits)

lemma request_pair_no_panic: "\<not> is_panic (request_pair h opts f force d)"
  by (simp add: request_pair_def is_panic_obind make_request_no_panic)

lemma omap_no_panic: "(\<And>x. \<not> is_panic (f x)) \<Longrightarrow> \<not> is_panic (omap f xs)"
  by (induction xs) (simp_all add: is_panic_obind)

section \<open>Properties\<close>


text \<open>
  The fields of a call between its quotation marks, as a JSON reader sees them when user, function and data
  contain none.
\<close>

definition json_fields :: "string \<Rightarrow> string list" where
  "json_fields = split_on (CHR 0x22)"

lemma json_call_join:
  "make_json_call u f d forbid force = join_with (CHR 0x22)
    ([''{'', ''user'', '':'', u, '','', ''function'', '':'', f, '','', ''input_data'', '':'', d, '','', ''forbid_ndp''] @
     (let b = '':'' @ (if forbid then ''true'' else ''false'') in
      if force then [b @ '','', ''is_storage'', '':true}''] else [b @ ''}'']))"
  by (simp add: make_json_call_def Let_def)

text \<open>
  A prepared call can be read back: when user, function and data contain no quotation mark (the option's
  documentation asks for the contents of a JSON string), splitting the body at its quotation marks gives the
  keys in order with the three texts in their places, then whether offloading is forbidden, and the storage
  flag exactly for a forced function.
\<close>

theorem json_call_roundtrip:
  assumes "CHR 0x22 \<notin> set u" "CHR 0x22 \<notin> set f" "CHR 0x22 \<notin> set d"
  shows "json_fields (make_json_call u f d forbid force) =
    [''{'', ''user'', '':'', u, '','', ''function'', '':'', f, '','', ''input_data'', '':'', d, '','', ''forbid_ndp''] @
    (if force then ['':'' @ (if forbid then ''true'' else ''false'') @ '','', ''is_storage'', '':true}'']
     else ['':'' @ (if forbid then ''true'' else ''false'') @ ''}''])"
  unfolding json_fields_def json_call_join using assms
  by (subst split_on_join) (auto simp: Let_def split: if_splits)

theorem json_call_roundtrip_witness:
  "json_fields (make_json_call ''demo'' ''wc'' ''x'' False True) =
    [''{'', ''user'', '':'', ''demo'', '','', ''function'', '':'', ''wc'', '','', ''input_data'', '':'', ''x'', '','',
     ''forbid_ndp'', '':false,'', ''is_storage'', '':true}'']"
  using json_call_roundtrip [of "''demo''" "''wc''" "''x''" False True] by simp

end
