(* ===== verification/Speed_Counts.thy ===== *)
theory Speed_Counts
  imports Speed_Safety Speed_Setup Speed_Figures
begin

text \<open>
  The counters of a run of the load generator and its report: every spawned request ends up as exactly one
  result or error, the shared counters are the numbers of requests in their states, and the offload counter is
  the closed form of the schedule.
\<close>

section \<open>What each function has spawned\<close>

definition own :: "nat \<Rightarrow> rtask list \<Rightarrow> nat" where
  "own i ts = length (filter (\<lambda>t. rt_fn t = i) ts)"

definition own_ndp :: "nat \<Rightarrow> rtask list \<Rightarrow> nat" where
  "own_ndp i ts = length (filter (\<lambda>t. rt_fn t = i \<and> rt_ndp t) ts)"

text \<open>The plan and the number of requests of a function, as the options determine them.\<close>

definition counted :: "http \<Rightarrow> (string \<Rightarrow> io_error + string) \<Rightarrow> SpeedOptions \<Rightarrow> nat \<Rightarrow> fn_plan \<Rightarrow> nat \<Rightarrow> bool" where
  "counted h read_file opts i pl n \<longleftrightarrow> function_plan h read_file opts i = Ok pl \<and>
     total_requests (pl_rps pl) (time opts) = Ok (of_nat n) \<and> n < 2 ^ 63"

definition plan_ndp :: "SpeedOptions \<Rightarrow> fn_plan \<Rightarrow> nat \<Rightarrow> nat" where
  "plan_ndp opts pl n = ndp_count (nat (sint (offload_frac_den opts))) (per_period (pl_num pl) (offload_frac_den opts)) n"

definition spawned :: "SpeedOptions \<Rightarrow> nat \<Rightarrow> rtask list \<Rightarrow> fn_plan \<Rightarrow> nat \<Rightarrow> bool" where
  "spawned opts i ts pl n \<longleftrightarrow> own i ts = n \<and> own_ndp i ts = plan_ndp opts pl n"

fun fn_ok :: "http \<Rightarrow> (string \<Rightarrow> io_error + string) \<Rightarrow> SpeedOptions \<Rightarrow> nat \<Rightarrow> rtask list \<Rightarrow> fn_pc \<Rightarrow> bool" where
  "fn_ok h read_file opts i ts F_Prepare = (own i ts = 0)"
| "fn_ok h read_file opts i ts (F_Wait1 pl) = (own i ts = 0 \<and> function_plan h read_file opts i = Ok pl)"
| "fn_ok h read_file opts i ts (F_Wait2 pl) = (own i ts = 0 \<and> function_plan h read_file opts i = Ok pl)"
| "fn_ok h read_file opts i ts (F_Count pl) = (own i ts = 0 \<and> function_plan h read_file opts i = Ok pl)"
| "fn_ok h read_file opts i ts (F_Wait3 pl n) = (own i ts = 0 \<and> counted h read_file opts i pl n)"
| "fn_ok h read_file opts i ts (F_Start pl n) = (own i ts = 0 \<and> counted h read_file opts i pl n)"
| "fn_ok h read_file opts i ts (F_Gen pl n k g hs) =
    (counted h read_file opts i pl n \<and> k \<le> n \<and> spawned opts i ts pl (n - k) \<and> length hs = n - k \<and>
     gen_at (offload_frac_den opts) pl (n - k) g)"
| "fn_ok h read_file opts i ts (F_Join pl n rs hs) =
    (counted h read_file opts i pl n \<and> spawned opts i ts pl n \<and> length rs + length hs = n)"
| "fn_ok h read_file opts i ts (F_Wait4 pl n rs) =
    (counted h read_file opts i pl n \<and> spawned opts i ts pl n \<and> length rs = n)"
| "fn_ok h read_file opts i ts (F_Done pl n rs) =
    (oneshot opts \<or> counted h read_file opts i pl n \<and> spawned opts i ts pl n \<and> length rs = n)"
| "fn_ok h read_file opts i ts (F_Panicked q) = True"
| "fn_ok h read_file opts i ts F_Stuck = True"

lemma own_append [simp]:
  "own i (ts @ [t]) = own i ts + (if rt_fn t = i then 1 else 0)"
  "own_ndp i (ts @ [t]) = own_ndp i ts + (if rt_fn t = i \<and> rt_ndp t then 1 else 0)"
  by (simp_all add: own_def own_ndp_def)

lemma own_ndp_zero: "own i ts = 0 \<Longrightarrow> own_ndp i ts = 0"
  by (auto simp: own_def own_ndp_def filter_empty_conv)

lemma plan_ndp_0 [simp]: "plan_ndp opts pl 0 = 0"
  by (simp add: plan_ndp_def ndp_count_def)

lemma fn_ok_other: "own i ts' = own i ts \<Longrightarrow> own_ndp i ts' = own_ndp i ts \<Longrightarrow> fn_ok h read_file opts i ts' pc = fn_ok h read_file opts i ts pc"
  by (cases pc) (simp_all add: spawned_def)

lemma plan_ndp_Suc:
  assumes "ok_den (offload_frac_den opts)" "function_plan h read_file opts i = Ok pl"
  shows "plan_ndp opts pl (Suc n) = plan_ndp opts pl n + (if fst (scheduled (offload_frac_den opts) pl n) then 1 else 0)"
  using assms(1) scheduled_flag [OF assms(1) function_plan_force [OF assms(2)]]
  by (simp add: plan_ndp_def ndp_count_Suc ok_den_def per_period_def)

text \<open>One iteration of the generator keeps the account.\<close>

lemma fn_generate_ok:
  assumes "ok_den (offload_frac_den opts)" "clones h"
    and "fn_ok h read_file opts i ts (F_Gen pl n (Suc k) g hs)"
    and "fn_generate p h opts i pl n k g hs (sh, ts) = (pc', sh', ts')"
  shows "fn_ok h read_file opts i ts' pc' \<and>
    (fn_phase pc' = None \<or>
     (\<exists>t. pc' = F_Gen pl n k (case pc' of F_Gen _ _ _ g _ \<Rightarrow> g) (hs @ [length ts]) \<and> ts' = ts @ [t] \<and> rt_fn t = i \<and>
       rt_state t = R_Spawned \<and> sh' = (if rt_ndp t then sh\<lparr>sh_ndp := sh_ndp sh + 1\<rparr> else sh)))"
proof (cases "pl_pool pl = []")
  case True
  have "\<not> (\<exists>r. pick_request h pl w ndp = Ok r)" for w ndp
    using True by (simp add: pick_request_def index_vec_def)
  then have "fn_phase pc' = None" "fn_ok h read_file opts i ts' pc'"
    using assms(4) by (auto simp: fn_generate_def gen_step_def Let_def split: option.splits outcome.splits if_splits)
  then show ?thesis by simp
next
  case False
  let ?den = "offload_frac_den opts"
  let ?j = "n - Suc k"
  have at: "gen_at ?den pl ?j g" and sp: "spawned opts i ts pl ?j" and cnt: "counted h read_file opts i pl n"
    and k: "Suc k \<le> n" and hs: "length hs = ?j" using assms(3) by auto
  obtain g' where g': "gen_step p h ?den pl g = Some (Ok (fst (scheduled ?den pl ?j), Ok (snd (scheduled ?den pl ?j)), g'))"
      "gen_at ?den pl (Suc ?j) g'" using gen_step_at [OF assms(1,2) False at] by blast
  have j: "Suc ?j = n - k" using k by simp
  let ?t = "\<lparr>rt_fn = i, rt_ndp = fst (scheduled ?den pl ?j), rt_request = snd (scheduled ?den pl ?j), rt_state = R_Spawned\<rparr>"
  have gen: "pc' = F_Gen pl n k g' (hs @ [length ts])" "ts' = ts @ [?t]"
      "sh' = (if rt_ndp ?t then sh\<lparr>sh_ndp := sh_ndp sh + 1\<rparr> else sh)"
    using assms(4) g'(1) by (auto simp: fn_generate_def Let_def)
  have "spawned opts i ts' pl (n - k)"
    using sp cnt plan_ndp_Suc [OF assms(1), of h read_file i pl ?j]
    unfolding spawned_def gen(2) j [symmetric] by (simp add: counted_def)
  then have "fn_ok h read_file opts i ts' pc'" using cnt k hs g'(2) gen(1) j by simp
  with gen show ?thesis by auto
qed

lemma fn_next_ok:
  assumes "ok_den (offload_frac_den opts)" "clones h"
    and "fn_next p h read_file execute opts i pc (sh, ts) = Some (pc', sh', ts')" "fn_ok h read_file opts i ts pc"
  shows "fn_ok h read_file opts i ts' pc'"
proof -
  have prep: "fn_ok h read_file opts i ts (fn_prepare h read_file execute opts i)" if "own i ts = 0"
  proof (cases "function_plan h read_file opts i")
    case (Ok pl)
    with that show ?thesis by (cases "test_request h execute opts pl") (simp_all add: fn_prepare_def)
  qed (simp_all add: fn_prepare_def)
  have count: "counted h read_file opts i pl (nat (sint n))"
    if "function_plan h read_file opts i = Ok pl" "total_requests (pl_rps pl) (time opts) = Ok n" for pl n
  proof -
    have "0 \<le> sint n" using that(2) by (auto simp: total_requests_def Let_def split: if_splits)
    moreover from this have "(of_nat (nat (sint n)) :: i64) = n" by (simp add: of_nat_nat)
    moreover have "nat (sint n) < 2 ^ 63" using sint_range64(2) [of n] by simp
    ultimately show ?thesis using that by (simp add: counted_def)
  qed
  have start: "fn_ok h read_file opts i ts (fn_panics (gen_start p opts pl (of_nat n)) (\<lambda>g. F_Gen pl n n g []))"
    if "own i ts = 0" "counted h read_file opts i pl n" for pl n
  proof (cases "gen_start p opts pl (of_nat n)")
    case (Ok g)
    with that gen_start_at [OF assms(1) Ok] own_ndp_zero show ?thesis by (simp add: spawned_def)
  qed simp_all
  show ?thesis
    using assms(3,4) prep start count fn_generate_ok [OF assms(1,2)]
    by (cases "(p, h, read_file, execute, opts, i, pc, (sh, ts))" rule: fn_next.cases)
      (auto split: outcome.splits option.splits rstate.splits)
qed

section \<open>The shared counters\<close>

fun is_received :: "rstate \<Rightarrow> bool" where
  "is_received (R_Received rr) = True"
| "is_received (R_Finished r) = (case r of Inl e \<Rightarrow> False | Inr rr \<Rightarrow> True)"
| "is_received s = False"

definition sent_count :: "rtask list \<Rightarrow> nat" where
  "sent_count ts = length (filter (\<lambda>t. rt_state t \<noteq> R_Spawned) ts)"

definition recv_count :: "rtask list \<Rightarrow> nat" where
  "recv_count ts = length (filter (\<lambda>t. is_received (rt_state t)) ts)"

definition ndp_tasks :: "rtask list \<Rightarrow> nat" where
  "ndp_tasks ts = length (filter rt_ndp ts)"

fun fn_total :: "fn_pc \<Rightarrow> nat" where
  "fn_total (F_Wait3 pl n) = n"
| "fn_total (F_Start pl n) = n"
| "fn_total (F_Gen pl n k g hs) = n"
| "fn_total (F_Join pl n rs hs) = n"
| "fn_total (F_Wait4 pl n rs) = n"
| "fn_total (F_Done pl n rs) = n"
| "fn_total pc = 0"

definition sum_total :: "fn_pc list \<Rightarrow> nat" where
  "sum_total fns = (\<Sum>pc\<leftarrow>fns. fn_total pc)"

definition sane :: "fn_pc list \<Rightarrow> bool" where
  "sane fns \<longleftrightarrow> list_all (\<lambda>pc. fn_phase pc \<noteq> None) fns"

definition count_inv :: "http \<Rightarrow> (string \<Rightarrow> io_error + string) \<Rightarrow> SpeedOptions \<Rightarrow> speed \<Rightarrow> bool" where
  "count_inv h read_file opts sp \<longleftrightarrow>
     (\<forall>i < length (sp_fns sp). fn_ok h read_file opts i (sp_tasks sp) (sp_fns sp ! i)) \<and>
     sh_sent (sp_shared sp) = of_nat (sent_count (sp_tasks sp)) \<and>
     sh_recv (sp_shared sp) = of_nat (recv_count (sp_tasks sp)) \<and>
     (sane (sp_fns sp) \<longrightarrow> sh_total (sp_shared sp) = of_nat (sum_total (sp_fns sp)) \<and>
        sh_ndp (sp_shared sp) = of_nat (ndp_tasks (sp_tasks sp)))"

lemma filter_update:
  "j < length ts \<Longrightarrow> length (filter P (ts[j := t])) + of_bool (P (ts ! j)) = length (filter P ts) + of_bool (P t)"
proof (induction ts arbitrary: j)
  case (Cons a ts)
  then show ?case by (cases j) auto
qed simp

lemma own_update:
  assumes "rt_fn t = rt_fn (ts ! j)" "rt_ndp t = rt_ndp (ts ! j)" "j < length ts"
  shows "own i (ts[j := t]) = own i ts" "own_ndp i (ts[j := t]) = own_ndp i ts" "ndp_tasks (ts[j := t]) = ndp_tasks ts"
  using filter_update [OF assms(3), of "\<lambda>t. rt_fn t = i" t] filter_update [OF assms(3), of "\<lambda>t. rt_fn t = i \<and> rt_ndp t" t]
    filter_update [OF assms(3), of rt_ndp t] assms(1,2)
  by (simp_all add: own_def own_ndp_def ndp_tasks_def)

lemma sum_total_update: "i < length fns \<Longrightarrow> sum_total (fns[i := pc]) + fn_total (fns ! i) = sum_total fns + fn_total pc"
proof (induction fns arbitrary: i)
  case (Cons a fns)
  then show ?case by (cases i) (auto simp: sum_total_def)
qed simp

lemma request_moves_counts:
  assumes "count_inv h read_file opts sp" "j < length (sp_tasks sp)"
    and "request_next opts' now a (rt_state (sp_tasks sp ! j)) (sp_shared sp) = Some (rs, sh)"
  shows "count_inv h read_file opts (sp\<lparr>sp_tasks := (sp_tasks sp)[j := (sp_tasks sp ! j)\<lparr>rt_state := rs\<rparr>], sp_shared := sh\<rparr>)"
proof -
  let ?ts = "sp_tasks sp"
  let ?t = "(?ts ! j)\<lparr>rt_state := rs\<rparr>"
  have own: "own i (?ts[j := ?t]) = own i ?ts" "own_ndp i (?ts[j := ?t]) = own_ndp i ?ts" "ndp_tasks (?ts[j := ?t]) = ndp_tasks ?ts" for i
    using own_update [of ?t ?ts j] assms(2) by simp_all
  have fns: "fn_ok h read_file opts i (?ts[j := ?t]) pc = fn_ok h read_file opts i ?ts pc" for i pc
    by (rule fn_ok_other) (simp_all add: own)
  have keep: "sh_total sh = sh_total (sp_shared sp) \<and> sh_ndp sh = sh_ndp (sp_shared sp)"
    using assms(3) by (cases "rt_state (?ts ! j)") (auto split: if_splits outcome.splits)
  have sent: "sh_sent sh = sh_sent (sp_shared sp) + of_bool (rt_state (?ts ! j) = R_Spawned)" "rs \<noteq> R_Spawned"
    using assms(3) by (cases "rt_state (?ts ! j)"; auto split: if_splits outcome.splits)+
  have recv: "sh_recv sh + of_bool (is_received (rt_state (?ts ! j))) = sh_recv (sp_shared sp) + of_bool (is_received rs)"
    using assms(3) by (cases "rt_state (?ts ! j)") (auto split: if_splits outcome.splits)
  have "sent_count (?ts[j := ?t]) = sent_count ?ts + of_bool (rt_state (?ts ! j) = R_Spawned)"
    using filter_update [OF assms(2), of "\<lambda>t. rt_state t \<noteq> R_Spawned" ?t] sent(2) by (auto simp: sent_count_def)
  then have s: "sh_sent sh = of_nat (sent_count (?ts[j := ?t]))"
    using sent(1) assms(1) by (simp add: count_inv_def)
  have "recv_count (?ts[j := ?t]) + of_bool (is_received (rt_state (?ts ! j))) = recv_count ?ts + of_bool (is_received rs)"
    using filter_update [OF assms(2), of "\<lambda>t. is_received (rt_state t)" ?t] by (simp add: recv_count_def)
  then have "(of_nat (recv_count (?ts[j := ?t])) :: i64) + of_bool (is_received (rt_state (?ts ! j))) =
      of_nat (recv_count ?ts) + of_bool (is_received rs)"
    by (metis of_nat_add of_nat_of_bool)
  then have r: "sh_recv sh = of_nat (recv_count (?ts[j := ?t]))"
    using recv assms(1) by (simp add: count_inv_def) (metis add_right_cancel)
  show ?thesis using assms(1) fns keep s r own by (simp add: count_inv_def)
qed

lemma panics_total: "(\<And>x. fn_total (f x) = 0) \<Longrightarrow> fn_total (fn_panics r f) = 0"
  by (cases r) simp_all

lemma fn_next_shared:
  assumes "ok_den (offload_frac_den opts)" "clones h"
    and "fn_next p h read_file execute opts i pc (sh, ts) = Some (pc', sh', ts')" "fn_ok h read_file opts i ts pc"
  shows "sh_sent sh' = sh_sent sh \<and> sh_recv sh' = sh_recv sh \<and> sent_count ts' = sent_count ts \<and> recv_count ts' = recv_count ts \<and>
    (fn_phase pc' \<noteq> None \<longrightarrow> sh_total sh' + of_nat (fn_total pc) = sh_total sh + of_nat (fn_total pc') \<and>
       sh_ndp sh' + of_nat (ndp_tasks ts) = sh_ndp sh + of_nat (ndp_tasks ts'))"
proof -
  have prep: "fn_total (fn_prepare h read_file execute opts i) = 0"
    unfolding fn_prepare_def by (intro panics_total) simp
  have start: "fn_phase (fn_panics r (\<lambda>g. F_Gen pl n n g [])) \<noteq> None \<longrightarrow> fn_total (fn_panics r (\<lambda>g. F_Gen pl n n g [])) = n" for r pl n
    by (cases r) simp_all
  have nat_sint: "(of_nat (nat (sint n)) :: i64) = n" if "total_requests r t = Ok n" for r t n
    using that by (auto simp: total_requests_def Let_def split: if_splits)
  have app: "sent_count (ts @ [t]) = sent_count ts \<and> recv_count (ts @ [t]) = recv_count ts \<and>
      ndp_tasks (ts @ [t]) = ndp_tasks ts + of_bool (rt_ndp t)" if "rt_state t = R_Spawned" for t
    using that by (simp add: sent_count_def recv_count_def ndp_tasks_def)
  have gen: "?thesis" if g: "pc = F_Gen pl n (Suc k) g hs" and run: "fn_generate p h opts i pl n k g hs (sh, ts) = (pc', sh', ts')"
    for pl n k g hs
  proof -
    have same: "sh_sent sh' = sh_sent sh \<and> sh_recv sh' = sh_recv sh \<and> sh_total sh' = sh_total sh"
      using run by (auto simp: fn_generate_def Let_def split: option.splits outcome.splits if_splits)
    have ts: "ts' = ts \<or> (\<exists>t. ts' = ts @ [t] \<and> rt_state t = R_Spawned)"
      using run by (auto simp: fn_generate_def Let_def split: option.splits outcome.splits if_splits)
    have cnts: "sent_count ts' = sent_count ts \<and> recv_count ts' = recv_count ts" using ts app by auto
    have "fn_phase pc' = None \<or> (\<exists>t g' hs'. pc' = F_Gen pl n k g' hs' \<and> ts' = ts @ [t] \<and> rt_state t = R_Spawned \<and>
        sh' = (if rt_ndp t then sh\<lparr>sh_ndp := sh_ndp sh + 1\<rparr> else sh))"
      using fn_generate_ok [OF assms(1,2) assms(4) [unfolded g] run] by metis
    then show ?thesis
    proof (elim disjE exE conjE)
      assume "fn_phase pc' = None"
      with same cnts show ?thesis by simp
    next
      fix t g' hs'
      assume "pc' = F_Gen pl n k g' hs'" "ts' = ts @ [t]" "rt_state t = R_Spawned"
        "sh' = (if rt_ndp t then sh\<lparr>sh_ndp := sh_ndp sh + 1\<rparr> else sh)"
      with same cnts app [of t] g show ?thesis by simp
    qed
  qed
  show ?thesis
    using assms(3) prep start nat_sint gen
    by (cases "(p, h, read_file, execute, opts, i, pc, (sh, ts))" rule: fn_next.cases)
      (auto split: outcome.splits option.splits rstate.splits simp: add.commute)
qed

lemma fn_next_own:
  assumes "fn_next p h read_file execute opts i pc (sh, ts) = Some (pc', sh', ts')" "j \<noteq> i"
  shows "own j ts' = own j ts" "own_ndp j ts' = own_ndp j ts"
  using fn_next_tasks [OF assms(1)] assms(2) by auto

lemma fn_moves_counts:
  assumes "ok_den (offload_frac_den opts)" "clones h" "count_inv h read_file opts sp" "i < length (sp_fns sp)"
    and "fn_next p h read_file execute opts i (sp_fns sp ! i) (sp_shared sp, sp_tasks sp) = Some (pc, sh, ts)"
  shows "count_inv h read_file opts (sp\<lparr>sp_fns := (sp_fns sp)[i := pc], sp_shared := sh, sp_tasks := ts\<rparr>)"
proof -
  let ?fns = "sp_fns sp"
  have ok: "fn_ok h read_file opts j (sp_tasks sp) (?fns ! j)" if "j < length ?fns" for j
    using assms(3) that by (simp add: count_inv_def)
  note shared = fn_next_shared [OF assms(1,2,5) ok [OF assms(4)]]
  have "fn_ok h read_file opts j ts (?fns[i := pc] ! j)" if j: "j < length ?fns" for j
  proof (cases "j = i")
    case True
    with fn_next_ok [OF assms(1,2,5) ok [OF assms(4)]] assms(4) show ?thesis by simp
  next
    case False
    with fn_ok_other [OF fn_next_own [OF assms(5) False]] ok [OF j] show ?thesis by simp
  qed
  moreover have "sh_total sh = of_nat (sum_total (?fns[i := pc])) \<and> sh_ndp sh = of_nat (ndp_tasks ts)" if s: "sane (?fns[i := pc])"
  proof -
    have ph: "fn_phase pc \<noteq> None" using s assms(4) by (auto simp: sane_def list_all_iff dest: set_update_memI)
    have "fn_phase (?fns ! i) \<noteq> None" using fn_next_phase [OF assms(5)] ph by auto
    then have "sane ?fns"
      using s assms(4) unfolding sane_def list_all_length by (metis length_list_update nth_list_update_neq)
    then have old: "sh_total (sp_shared sp) = of_nat (sum_total ?fns)" "sh_ndp (sp_shared sp) = of_nat (ndp_tasks (sp_tasks sp))"
      using assms(3) by (auto simp: count_inv_def)
    have "of_nat (sum_total (?fns[i := pc])) + of_nat (fn_total (?fns ! i)) = (of_nat (sum_total ?fns) + of_nat (fn_total pc) :: i64)"
      using sum_total_update [OF assms(4), of pc] by (metis of_nat_add)
    with shared ph old show ?thesis by (metis add.commute add_left_cancel)
  qed
  ultimately show ?thesis using assms(3) shared by (simp add: count_inv_def)
qed

lemma barrier_counts:
  assumes "count_inv h read_file opts sp" "list_all fn_waits (sp_fns sp)"
  shows "count_inv h read_file opts (release_all opts sp)"
proof -
  have "fn_ok h read_file opts i ts (fn_release opts pc)" if "fn_ok h read_file opts i ts pc" for i ts pc
    using that by (cases pc) auto
  moreover have "fn_total (fn_release opts pc) = fn_total pc" "fn_phase pc \<noteq> None" if "pc \<in> set (sp_fns sp)" for pc
  proof -
    have "fn_waits pc" using that assms(2) by (simp add: list_all_iff)
    then show "fn_total (fn_release opts pc) = fn_total pc" "fn_phase pc \<noteq> None" by (cases pc; simp)+
  qed
  then have "sum_total (map (fn_release opts) (sp_fns sp)) = sum_total (sp_fns sp)" "sane (sp_fns sp)"
    by (auto simp: sum_total_def sane_def list_all_iff comp_def cong: map_cong)
  ultimately show ?thesis using assms(1) by (simp add: count_inv_def release_all_def)
qed

lemma step_counts:
  assumes "speed_step p h read_file execute re opts sp sp'" "ok_den (offload_frac_den opts)" "clones h"
    and "count_inv h read_file opts sp"
  shows "count_inv h read_file opts sp'"
  using assms(1)
proof cases
  case (fn_moves i pc sh ts)
  with fn_moves_counts [OF assms(2-4)] show ?thesis by simp
next
  case (request_moves j now a rs sh)
  with request_moves_counts [OF assms(4)] show ?thesis by simp
next
  case (main_moves ans l)
  with main_next_frame [OF main_moves(2)] assms(4) show ?thesis by (simp add: count_inv_def)
next
  case (progress_moves pc)
  with assms(4) show ?thesis by (simp add: count_inv_def)
next
  case barrier
  with barrier_counts [OF assms(4)] show ?thesis by simp
qed

lemma run_counts:
  assumes "speed_run p h read_file execute re opts (speed_start opts) sp" "ok_den (offload_frac_den opts)" "clones h"
  shows "count_inv h read_file opts sp"
proof -
  have "count_inv h read_file opts (speed_start opts)"
    by (auto simp: count_inv_def speed_start_def own_def sent_count_def recv_count_def ndp_tasks_def sum_total_def
        comp_def sum_list_triv)
  from speed_run_invariant [where I = "count_inv h read_file opts", OF assms(1) this] step_counts [OF _ assms(2,3)] show ?thesis by blast
qed

section \<open>Gathering the results\<close>

definition gather_inv :: "speed \<Rightarrow> bool" where
  "gather_inv sp \<longleftrightarrow> (\<forall>acc. sp_main sp = M_Gather acc \<longrightarrow> length acc \<le> length (sp_fns sp) \<and>
     (\<forall>i < length acc. \<exists>pl n rs. sp_fns sp ! i = F_Done pl n rs \<and> acc ! i = split_results rs ([], [])))"

lemma main_next_gather:
  assumes "main_next p re opts a l pc sp = Some sp'" "sp_main sp = pc" "gather_inv sp"
  shows "gather_inv sp'"
  using assms
  by (cases "(p, re, opts, a, l, pc, sp)" rule: main_next.cases)
    (auto simp: gather_inv_def main_report_def send_byte_def read_line_def Let_def nth_append less_Suc_eq
      split: if_splits option.splits prog_pc.splits fn_pc.splits outcome.splits prod.splits)

lemma step_gather:
  assumes "speed_step p h read_file execute re opts sp sp'" "gather_inv sp"
  shows "gather_inv sp'"
  using assms(1)
proof cases
  case (fn_moves i pc sh ts)
  have "\<not> is_done (sp_fns sp ! i)" using fn_moves(4) by (auto simp: is_done_def)
  then have same: "sp_fns sp' ! j = F_Done pl n rs" if "sp_fns sp ! j = F_Done pl n rs" for j pl n rs
    using that fn_moves(1) by (cases "i = j") (auto simp: is_done_def)
  show ?thesis
    unfolding gather_inv_def
  proof (intro allI impI)
    fix acc
    assume "sp_main sp' = M_Gather acc"
    then have "sp_main sp = M_Gather acc" using fn_moves(1) by simp
    with assms(2) have "length acc \<le> length (sp_fns sp)"
        "\<forall>i < length acc. \<exists>pl n rs. sp_fns sp ! i = F_Done pl n rs \<and> acc ! i = split_results rs ([], [])"
      by (simp_all add: gather_inv_def)
    with same fn_moves(1) show "length acc \<le> length (sp_fns sp') \<and>
        (\<forall>i < length acc. \<exists>pl n rs. sp_fns sp' ! i = F_Done pl n rs \<and> acc ! i = split_results rs ([], []))"
      by (metis length_list_update speed.select_convs(2) speed.surjective speed.update_convs(2-4))
  qed
next
  case (main_moves ans l)
  with main_next_gather [OF main_moves(2) refl assms(2)] show ?thesis by simp
next
  case barrier
  then show ?thesis by (auto simp: gather_inv_def release_all_def main_release_def)
qed (use assms(2) in \<open>simp_all add: gather_inv_def\<close>)

lemma split_results_length:
  "length (fst (split_results rs acc)) + length (snd (split_results rs acc)) = length (fst acc) + length (snd acc) + length rs"
  by (induction rs arbitrary: acc) (auto split: sum.splits)

lemma step_fns_length: "speed_step p h read_file execute re opts sp sp' \<Longrightarrow> length (sp_fns sp') = length (sp_fns sp)"
  by (erule speed_stepE) (auto simp: release_all_def dest: main_next_frame)

lemma run_gather:
  assumes "speed_run p h read_file execute re opts (speed_start opts) sp"
  shows "gather_inv sp \<and> length (sp_fns sp) = length (function_names opts)"
proof -
  have "gather_inv (speed_start opts) \<and> length (sp_fns (speed_start opts)) = length (function_names opts)"
    by (simp add: gather_inv_def speed_start_def)
  with assms show ?thesis by (rule speed_run_invariant) (auto dest: step_gather step_fns_length)
qed

lemma filter_by_function:
  assumes "list_all (\<lambda>t. rt_fn t < F) ts"
  shows "length (filter P ts) = (\<Sum>i < F. length (filter (\<lambda>t. rt_fn t = i \<and> P t) ts))"
  using assms
proof (induction ts)
  case (Cons t ts)
  have "length (filter (\<lambda>t. rt_fn t = i \<and> P t) (t # ts)) =
      (if rt_fn t = i then of_bool (P t) else 0) + length (filter (\<lambda>t. rt_fn t = i \<and> P t) ts)" for i
    by simp
  then have "(\<Sum>i < F. length (filter (\<lambda>t. rt_fn t = i \<and> P t) (t # ts))) =
      (\<Sum>i < F. if rt_fn t = i then of_bool (P t) else 0) + length (filter P ts)"
    using Cons by (simp only: sum.distrib) simp
  also have "(\<Sum>i < F. if rt_fn t = i then of_bool (P t) else 0) = (of_bool (P t) :: nat)"
    using Cons.prems by simp
  finally show ?case by simp
qed simp

lemma ndp_tasks_by_function: "list_all (\<lambda>t. rt_fn t < F) ts \<Longrightarrow> ndp_tasks ts = (\<Sum>i < F. own_ndp i ts)"
  unfolding ndp_tasks_def own_ndp_def by (rule filter_by_function)

lemma tasks_by_function: "list_all (\<lambda>t. rt_fn t < F) ts \<Longrightarrow> length ts = (\<Sum>i < F. own i ts)"
  using filter_by_function [of F ts "\<lambda>_. True"] by (simp add: own_def)

lemma accounted_fns: "accounted fns ts \<Longrightarrow> list_all (\<lambda>t. rt_fn t < length fns) ts"
  by (auto simp: accounted_def list_all_length)

section \<open>Properties of a run\<close>

text \<open>
  C1. Every measured request is made between the bytes that open and close the ranges, in every interleaving and
  under every answer of the network: when the first request task exists, every monitor that the options name is connected and has
  been sent the byte that opens its range; and when any monitor is sent the byte that closes it, all request
  tasks are finished.
\<close>

theorem requests_inside_monitored_range:
  assumes "speed_run p h read_file execute re opts (speed_start opts) sp"
  shows "(sp_tasks sp \<noteq> [] \<longrightarrow> length (sp_monitors sp) = length (monitor_names opts) \<and> list_all opened (sp_monitors sp)) \<and>
    ((\<exists>m \<in> set (sp_monitors sp). 0x5D \<in> set (mo_sent m)) \<longrightarrow> list_all finished (sp_tasks sp))"
proof -
  have inv: "connected_inv opts sp" by (rule run_connected [OF assms])
  then have "list_all opened (sp_monitors sp)" "length (sp_monitors sp) = length (monitor_names opts)" if "sp_tasks sp \<noteq> []"
    using that by (auto simp: connected_inv_def range_inv_def begun_def)
  moreover have "list_all finished (sp_tasks sp)" if "closing sp"
  proof -
    have "list_all is_done (sp_fns sp)" and acc: "accounted (sp_fns sp) (sp_tasks sp)"
      using inv that by (auto simp: connected_inv_def range_inv_def)
    then have "finished (sp_tasks sp ! j)" if "j < length (sp_tasks sp)" for j
      using that by (auto simp: accounted_def list_all_length is_done_def) (metis held.simps(4))
    then show ?thesis by (simp add: list_all_length)
  qed
  ultimately show ?thesis by (auto simp: closing_def)
qed

text \<open>A run of two requests against one monitor, up to the two points where the properties are evaluated.\<close>

definition run_opts :: SpeedOptions where
  "run_opts = get_opts (SpeedOptions_default\<lparr>requests_per_second := [f_of_int 2], time := f_of_int 1, offload_frac_den := 2,
     monitoring_hosts := ''node1:8125'', input_data := [''x'']\<rparr>)"

definition run_reply :: "error + response" where
  "run_reply = Inr \<lparr>rs_status_error = None, rs_bytes = Inr ''ok''\<rparr>"

definition run_env :: report_env where
  "run_env = \<lparr>re_sort = (\<lambda>f. sort_key f), re_fmt = (\<lambda>_ _. ''0.5''), re_show_error = (\<lambda>_. ''error'')\<rparr>"

definition sends :: "nat \<Rightarrow> choice list" where
  "sends j = replicate 3 (C_Request j 10 \<lparr>na_reply = run_reply, na_status_us = 5, na_request_us = 9\<rparr>)"

definition main_goes :: choice where
  "main_goes = C_Main None ''packet''"

definition choices_spawned :: "choice list" where
  "choices_spawned =
    [main_goes, main_goes, C_Fn 0, C_Barrier, main_goes, main_goes, C_Barrier, C_Fn 0, C_Barrier, C_Fn 0, C_Fn 0, C_Fn 0]"

definition choices_gathered :: "choice list" where
  "choices_gathered = [C_Fn 0] @ sends 0 @ sends 1 @ [C_Fn 0, C_Fn 0, C_Fn 0, C_Barrier] @
    replicate 5 main_goes @ [C_Progress, main_goes, main_goes]"

definition run_schedule :: "choice list \<Rightarrow> speed \<Rightarrow> speed option" where
  "run_schedule = schedule Release demo_http (\<lambda>_. Inl (Errno 2)) (\<lambda>_. run_reply) run_env run_opts"

definition spawned_state :: "speed option" where
  "spawned_state = run_schedule choices_spawned (speed_start run_opts)"

definition gathered_state :: "speed option" where
  "gathered_state = run_schedule (choices_spawned @ choices_gathered) (speed_start run_opts)"

lemma spawned_state_eval:
  "map_option (\<lambda>sp. (length (sp_tasks sp), map mo_sent (sp_monitors sp))) spawned_state = Some (2, [[0x5B]])"
  by code_simp

lemma gathered_state_eval:
  "map_option (\<lambda>sp. (case sp_main sp of M_Gather acc \<Rightarrow> map length (map fst acc) | _ \<Rightarrow> [], length (sp_fns sp),
     sh_ndp (sp_shared sp))) gathered_state = Some ([2], 1, 1)"
  by code_simp

lemma run_schedule_run:
  "run_schedule cs (speed_start run_opts) = Some sp \<Longrightarrow>
   speed_run Release demo_http (\<lambda>_. Inl (Errno 2)) (\<lambda>_. run_reply) run_env run_opts (speed_start run_opts) sp"
  unfolding run_schedule_def by (rule schedule_run)

theorem requests_inside_monitored_range_witness:
  "\<exists>sp. spawned_state = Some sp \<and> length (sp_tasks sp) = 2 \<and> list_all opened (sp_monitors sp)"
proof -
  obtain sp where sp: "spawned_state = Some sp" "length (sp_tasks sp) = 2" using spawned_state_eval by auto
  from requests_inside_monitored_range [OF run_schedule_run [OF sp(1) [unfolded spawned_state_def]]] sp show ?thesis by auto
qed

text \<open>
  C7. Nothing is lost: when the main task has joined all functions, every function has exactly as many results
  and errors together as requests its rate and the duration ask for, the total counter is their sum and the
  offload counter, which the report divides by it, is the sum of the closed forms of the schedules (both
  modulo \<open>2^64\<close>).
\<close>

theorem report_accounts_for_every_request:
  assumes "speed_run p h read_file execute re opts (speed_start opts) sp" "ok_den (offload_frac_den opts)" "clones h"
    and "\<not> oneshot opts" "sp_main sp = M_Gather acc" "length acc = length (sp_fns sp)"
  shows "\<exists>plans. length plans = length (function_names opts) \<and> length acc = length plans \<and>
    (\<forall>i < length acc. counted h read_file opts i (fst (plans ! i)) (snd (plans ! i)) \<and>
       length (fst (acc ! i)) + length (snd (acc ! i)) = snd (plans ! i)) \<and>
    sh_total (sp_shared sp) = of_nat (\<Sum>i < length plans. snd (plans ! i)) \<and>
    sh_ndp (sp_shared sp) = of_nat (\<Sum>i < length plans. plan_ndp opts (fst (plans ! i)) (snd (plans ! i)))"
proof -
  let ?fns = "sp_fns sp"
  define plans where "plans = map (\<lambda>pc. case pc of F_Done pl n rs \<Rightarrow> (pl, n)) ?fns"
  have counts: "count_inv h read_file opts sp" by (rule run_counts [OF assms(1-3)])
  note gather = run_gather [OF assms(1)]
  have len: "length plans = length ?fns" by (simp add: plans_def)
  have each: "\<exists>rs. ?fns ! i = F_Done (fst (plans ! i)) (snd (plans ! i)) rs \<and> acc ! i = split_results rs ([], []) \<and>
      counted h read_file opts i (fst (plans ! i)) (snd (plans ! i)) \<and>
      spawned opts i (sp_tasks sp) (fst (plans ! i)) (snd (plans ! i)) \<and> length rs = snd (plans ! i)" if i: "i < length ?fns" for i
  proof -
    obtain pl n rs where d: "?fns ! i = F_Done pl n rs" "acc ! i = split_results rs ([], [])"
      using gather assms(5,6) i unfolding gather_inv_def by metis
    moreover have "fn_ok h read_file opts i (sp_tasks sp) (?fns ! i)" using counts i by (simp add: count_inv_def)
    ultimately show ?thesis using assms(4) i by (simp add: plans_def)
  qed
  have sane: "sane ?fns" using each unfolding sane_def list_all_length by force
  have "fn_total (?fns ! i) = snd (plans ! i)" if "i < length ?fns" for i using each [OF that] by auto
  then have "sum_total ?fns = (\<Sum>i < length plans. snd (plans ! i))"
    unfolding sum_total_def len by (simp add: sum_list_sum_nth atLeast0LessThan)
  moreover have "list_all (\<lambda>t. rt_fn t < length ?fns) (sp_tasks sp)"
    using run_connected [OF assms(1)] by (auto simp: connected_inv_def range_inv_def dest: accounted_fns)
  then have "ndp_tasks (sp_tasks sp) = (\<Sum>i < length plans. plan_ndp opts (fst (plans ! i)) (snd (plans ! i)))"
    using each by (auto simp: ndp_tasks_by_function len spawned_def intro!: sum.cong)
  ultimately have "sh_total (sp_shared sp) = of_nat (\<Sum>i < length plans. snd (plans ! i))"
      "sh_ndp (sp_shared sp) = of_nat (\<Sum>i < length plans. plan_ndp opts (fst (plans ! i)) (snd (plans ! i)))"
    using counts sane by (auto simp: count_inv_def)
  moreover have "length (fst (acc ! i)) + length (snd (acc ! i)) = snd (plans ! i)" if "i < length ?fns" for i
  proof -
    from each [OF that] obtain rs where "acc ! i = split_results rs ([], [])" "length rs = snd (plans ! i)" by blast
    then show ?thesis using split_results_length [of rs "([], [])"] by simp
  qed
  ultimately show ?thesis using each gather len assms(6) by (intro exI [of _ plans]) auto
qed

theorem report_accounts_for_every_request_witness:
  "\<exists>sp acc. gathered_state = Some sp \<and> sp_main sp = M_Gather acc \<and> length acc = length (function_names run_opts) \<and>
     length (fst (acc ! 0)) = 2"
proof -
  obtain sp where sp: "gathered_state = Some sp" "length (sp_fns sp) = 1"
      "(case sp_main sp of M_Gather acc \<Rightarrow> map length (map fst acc) | _ \<Rightarrow> []) = [2]"
    using gathered_state_eval by auto
  then obtain acc where acc: "sp_main sp = M_Gather acc" "map length (map fst acc) = [2]" by (cases "sp_main sp") auto
  have "offload_frac_den run_opts = 2" "\<not> oneshot run_opts"
    by (simp_all add: run_opts_def get_opts_def or_default_def SpeedOptions_default_def Let_def)
  moreover have "length acc = 1" "length (fst (acc ! 0)) = 2" using acc(2) by auto
  ultimately show ?thesis
    using report_accounts_for_every_request [OF run_schedule_run [OF sp(1) [unfolded gathered_state_def]] _ demo_clones _ acc(1)] sp acc(1)
    by (auto simp: ok_den_def)
qed

end
