(* ===== verification/Speed_Progress.thy ===== *)
theory Speed_Progress
  imports Speed_Counts
begin

text \<open>
  The progress display of the load generator, and what a panicking function does to a run.
\<close>

section \<open>Progress\<close>

definition late :: "fn_pc \<Rightarrow> bool" where
  "late pc \<longleftrightarrow> fn_phase pc \<in> {None, Some 3, Some 4}"

fun loaded_total :: "prog_pc \<Rightarrow> i64 \<Rightarrow> bool" where
  "loaded_total (P_Total t) n = (t = n)"
| "loaded_total (P_Sent t s) n = (t = n)"
| "loaded_total pc n = True"

text \<open>While the progress task runs, no function counts its requests any more: what it loaded stays true.\<close>

definition progress_inv :: "speed \<Rightarrow> bool" where
  "progress_inv sp \<longleftrightarrow> (sp_progress sp \<noteq> P_None \<longrightarrow> list_all late (sp_fns sp) \<and>
     main_phase (sp_main sp) \<notin> {Some 0, Some 1, Some 2} \<and> loaded_total (sp_progress sp) (sh_total (sp_shared sp)))"

lemma fn_next_late:
  assumes "fn_next p h read_file execute opts i pc (sh, ts) = Some (pc', sh', ts')" "late pc"
  shows "late pc' \<and> sh_total sh' = sh_total sh"
proof -
  have "sh_total sh' = sh_total sh"
    using assms by (cases "(p, h, read_file, execute, opts, i, pc, (sh, ts))" rule: fn_next.cases)
      (auto simp: late_def fn_generate_def Let_def split: outcome.splits option.splits rstate.splits if_splits)
  with fn_next_phase [OF assms(1)] assms(2) show ?thesis by (auto simp: late_def)
qed

lemma barrier_progress:
  assumes "range_inv sp" "progress_inv sp" "main_waits (sp_main sp)" "list_all fn_waits (sp_fns sp)"
  shows "progress_inv (release_all opts sp)"
proof (cases "sp_main sp = M_Wait3 \<or> sp_progress sp \<noteq> P_None")
  case True
  obtain k where "in_phase k sp" using assms(1) by (auto simp: range_inv_def)
  then have k: "main_phase (sp_main sp) = Some k" and fns: "\<forall>pc \<in> set (sp_fns sp). fn_phase pc \<in> {None, Some k}"
    using assms(3) by (auto simp: in_phase_def list_all_iff)
  have mk: "k = 2 \<and> sp_main sp = M_Wait3 \<or> k = 3 \<and> sp_main sp = M_Wait4"
    using True k assms(2,3) by (auto simp: progress_inv_def)
  have "late (fn_release opts pc)" if "fn_waits pc" "fn_phase pc \<in> {None, Some k}" for pc
    using that mk by (cases pc) (auto simp: late_def)
  with fns assms(4) have "list_all late (map (fn_release opts) (sp_fns sp))" by (auto simp: list_all_iff)
  with mk assms(2) show ?thesis by (auto simp: progress_inv_def release_all_def main_release_def)
qed (use assms(3) in \<open>auto simp: progress_inv_def release_all_def main_release_def\<close>)

lemma step_progress:
  assumes "speed_step p h read_file execute re opts sp sp'" "range_inv sp" "progress_inv sp"
  shows "progress_inv sp'"
  using assms(1)
proof cases
  case (fn_moves i pc sh ts)
  have "late pc \<and> sh_total sh = sh_total (sp_shared sp)" if "list_all late (sp_fns sp)"
    using fn_next_late [OF fn_moves(4)] that fn_moves(3) by (simp add: list_all_length)
  with assms(3) fn_moves(1) show ?thesis by (auto simp: progress_inv_def intro: list_all_update)
next
  case (request_moves j now a rs sh)
  have "sh_total sh = sh_total (sp_shared sp)"
    using request_moves(4) by (cases "rt_state (sp_tasks sp ! j)") (auto split: if_splits outcome.splits)
  with assms(3) request_moves(1) show ?thesis by (simp add: progress_inv_def)
next
  case (main_moves ans l)
  with main_next_frame [OF main_moves(2)] main_next_phase [OF main_moves(2) refl] assms(3)
  show ?thesis by (auto simp: progress_inv_def)
next
  case (progress_moves pc)
  have "loaded_total pc (sh_total (sp_shared sp))" "sp_progress sp \<noteq> P_None"
    using progress_moves(3) assms(3) by (cases "sp_progress sp"; auto simp: progress_inv_def split: outcome.splits)+
  with assms(3) progress_moves(1) show ?thesis by (simp add: progress_inv_def)
next
  case barrier
  with barrier_progress [OF assms(2,3)] show ?thesis by simp
qed

lemma run_progress:
  assumes "speed_run p h read_file execute re opts (speed_start opts) sp"
  shows "progress_inv sp"
proof -
  have "range_inv sp \<and> progress_inv sp" if "speed_run p h read_file execute re opts sp0 sp" "range_inv sp0 \<and> progress_inv sp0" for sp0
    using that by (induction rule: speed_run.induct) (auto dest: step_range_inv step_progress)
  from this [OF assms] show ?thesis using start_range_inv by (auto simp: progress_inv_def speed_start_def)
qed

lemma sint_of_nat64: "n < 2 ^ 63 \<Longrightarrow> sint (of_nat n :: i64) = int n"
  by (simp add: signed_of_nat signed_take_bit_int_eq_self)

lemma percent_bounds:
  assumes "r \<le> n" "0 < n" "100 * n < 2 ^ 63"
  shows "\<exists>x. progress_percent p (of_nat r) (of_nat n) = Ok x \<and> 0 \<le> sint x \<and> sint x \<le> 100"
proof -
  define m where "m = 100 * r"
  have lt: "r < 2 ^ 63" "n < 2 ^ 63" "m < 2 ^ 63" using assms by (auto simp: m_def)
  have s: "sint (of_nat r :: i64) = int r" "sint (of_nat n :: i64) = int n" "sint (of_nat m :: i64) = int m"
    using lt by (simp_all only: sint_of_nat64)
  have mul: "(of_nat r :: i64) * 100 = of_nat m" by (simp add: m_def)
  have "smul p (of_nat r :: i64) 100 = Ok (of_nat m)"
    using s(1,3) unfolding smul_def arith_res_def mul by (simp add: m_def)
  moreover have nz: "(of_nat n :: i64) \<noteq> 0"
  proof
    assume "(of_nat n :: i64) = 0"
    with s(2) assms(2) show False by simp
  qed
  have q: "int m sdiv int n = int (m div n)"
    using assms(2) by (cases "m = 0") (simp_all add: signed_divide_int_def zdiv_int sgn_mult)
  have "m div n * n \<le> 100 * n" using assms(1) div_times_less_eq_dividend [of m n] unfolding m_def by linarith
  then have le: "m div n \<le> 100" using assms(2) by simp
  have "sint (word_of_int (int (m div n)) :: i64) = int (m div n)"
    using le sint_of_nat64 [of "m div n"] by simp
  ultimately show ?thesis using s q le nz by (simp add: progress_percent_def sdiv_res_def)
qed

lemma recv_le_total:
  assumes "count_inv h read_file opts sp" "range_inv sp" "sane (sp_fns sp)" "\<not> oneshot opts"
  shows "recv_count (sp_tasks sp) \<le> sum_total (sp_fns sp)"
proof -
  let ?fns = "sp_fns sp"
  have "own i (sp_tasks sp) \<le> fn_total (?fns ! i)" if i: "i < length ?fns" for i
  proof -
    have "fn_ok h read_file opts i (sp_tasks sp) (?fns ! i)" "fn_phase (?fns ! i) \<noteq> None"
      using assms(1,3) i by (auto simp: count_inv_def sane_def list_all_length)
    then show ?thesis using assms(4) by (cases "?fns ! i") (auto simp: spawned_def)
  qed
  then have "(\<Sum>i < length ?fns. own i (sp_tasks sp)) \<le> (\<Sum>i < length ?fns. fn_total (?fns ! i))" by (intro sum_mono) simp
  also have "\<dots> = sum_total ?fns" by (simp add: sum_total_def sum_list_sum_nth atLeast0LessThan)
  finally have "length (sp_tasks sp) \<le> sum_total ?fns"
    using assms(2) by (auto simp: range_inv_def tasks_by_function [OF accounted_fns])
  moreover have "recv_count (sp_tasks sp) \<le> length (sp_tasks sp)" by (simp add: recv_count_def)
  ultimately show ?thesis by simp
qed

lemma refresh_loads:
  assumes "count_inv h read_file opts sp" "progress_inv sp" "sp_progress sp = P_Sent t s" "sane (sp_fns sp)"
  shows "t = of_nat (sum_total (sp_fns sp))" "sh_recv (sp_shared sp) = of_nat (recv_count (sp_tasks sp))"
  using assms by (auto simp: progress_inv_def count_inv_def)

lemma refresh_percent:
  assumes "count_inv h read_file opts sp" "range_inv sp" "progress_inv sp" "\<not> oneshot opts" "sp_progress sp = P_Sent t s"
    and "sane (sp_fns sp)" "100 * sum_total (sp_fns sp) < 2 ^ 63" "0 < sum_total (sp_fns sp)"
  shows "\<exists>x. progress_percent p (sh_recv (sp_shared sp)) t = Ok x \<and> 0 \<le> sint x \<and> sint x \<le> 100"
  using percent_bounds [OF recv_le_total [OF assms(1,2,6,4)] assms(8,7), of p] refresh_loads [OF assms(1,3,5,6)] by simp

text \<open>
  C23. The progress display is between 0 and 100 percent at every refresh, although the counters are loaded
  one after the other while requests finish; but when there are no requests at all (a run of zero seconds, or
  a rate that rounds to none) the refresh divides by zero and the progress task panics.
\<close>

theorem progress_in_range:
  assumes "speed_run p h read_file execute re opts (speed_start opts) sp" "ok_den (offload_frac_den opts)" "clones h"
    and "\<not> oneshot opts" "sp_progress sp = P_Sent t s" "sane (sp_fns sp)" "100 * sum_total (sp_fns sp) < 2 ^ 63"
  shows "if sum_total (sp_fns sp) = 0 then progress_next p (sp_shared sp) (P_Sent t s) = Some (P_Panicked DivByZero)
    else (\<exists>x. progress_percent p (sh_recv (sp_shared sp)) t = Ok x \<and> 0 \<le> sint x \<and> sint x \<le> 100) \<and>
      progress_next p (sp_shared sp) (P_Sent t s) = Some P_Check"
proof -
  have counts: "count_inv h read_file opts sp" by (rule run_counts [OF assms(1-3)])
  have rng: "range_inv sp" using run_connected [OF assms(1)] by (simp add: connected_inv_def)
  note prog = run_progress [OF assms(1)]
  show ?thesis
  proof (cases "sum_total (sp_fns sp) = 0")
    case True
    with recv_le_total [OF counts rng assms(6,4)] refresh_loads [OF counts prog assms(5,6)]
    show ?thesis by (simp add: progress_percent_def sdiv_res_def smul_def arith_res_def)
  next
    case False
    with refresh_percent [OF counts rng prog assms(4-7), of p] obtain x where
      "progress_percent p (sh_recv (sp_shared sp)) t = Ok x" "0 \<le> sint x" "sint x \<le> 100" by auto
    with False show ?thesis by simp
  qed
qed

definition progress_state :: "speed option" where
  "progress_state = run_schedule (choices_spawned @ replicate 3 C_Progress) (speed_start run_opts)"

lemma progress_state_eval:
  "map_option (\<lambda>sp. (sp_progress sp, sane (sp_fns sp), sum_total (sp_fns sp))) progress_state = Some (P_Sent 2 0, True, 2)"
  by code_simp

theorem progress_in_range_witness:
  "\<exists>sp x. progress_state = Some sp \<and> progress_percent Release (sh_recv (sp_shared sp)) 2 = Ok x \<and> sint x \<le> 100"
proof -
  obtain sp where sp: "progress_state = Some sp" "sp_progress sp = P_Sent 2 0" "sane (sp_fns sp)" "sum_total (sp_fns sp) = 2"
    using progress_state_eval by auto
  have "offload_frac_den run_opts = 2" "\<not> oneshot run_opts"
    by (simp_all add: run_opts_def get_opts_def or_default_def SpeedOptions_default_def Let_def)
  then show ?thesis
    using progress_in_range [OF run_schedule_run [OF sp(1) [unfolded progress_state_def]] _ demo_clones _ sp(2,3)] sp
    by (auto simp: ok_den_def)
qed

section \<open>A panicking function\<close>


text \<open>Two functions and one rate: the second function panics while it is prepared.\<close>

definition short_opts :: SpeedOptions where
  "short_opts = get_opts (SpeedOptions_default\<lparr>function_names := [''wc'', ''grep''], dry_run := True\<rparr>)"

definition short_schedule :: "choice list \<Rightarrow> speed \<Rightarrow> speed option" where
  "short_schedule = schedule Dev demo_http (\<lambda>_. Inl (Errno 2)) (\<lambda>_. run_reply) run_env short_opts"

lemma short_schedule_eval:
  "map_option (\<lambda>sp. (sp_main sp, sp_fns sp ! 1)) (short_schedule [C_Fn 1, main_goes] (speed_start short_opts)) =
     Some (M_Wait1, F_Panicked (Expect ''RPS not provided for one of the functions''))"
  by code_simp


end
