(* ===== verification/Monitoring.thy ===== *)
theory Monitoring
  imports Server_Runs Speed_Progress
begin

text \<open>
  The two programs together: the load generator as a client of the monitoring server. What a complete run
  writes to a monitor is a session of the server's protocol, and the line it prints is the server's packet.
\<close>

lemma conn_loop_inv:
  assumes "iterates order" "\<And>x. set (fmt x) \<subseteq> float_chars" "clean hp"
  shows "safe (conn_inv hp) (\<lambda>_. True) (conn_loop p env order fmt n)"
proof (induction n)
  case 0
  then show ?case by (auto intro!: safe_rules conn_iteration_inv assms)
next
  case (Suc n)
  then show ?case by (auto intro!: safe_rules conn_iteration_inv assms split: control.splits)
qed

lemma conn_handler_inv:
  assumes "iterates order" "\<And>x. set (fmt x) \<subseteq> float_chars" "clean hp"
  shows "safe (conn_inv hp) (\<lambda>_. True) (conn_handler p env order fmt)"
proof (rule safeI, rule presI)
  fix c
  assume inv: "conn_inv hp c"
  obtain s d w where c: "c = ((s, d), w)" by (metis prod.exhaust)
  have "conn_inv hp d'" if "conn_loop p env order fmt n ((s, d), w) = (r, d')" for n r d'
    using safeD [OF conn_loop_inv [where fmt = fmt and p = p and env = env and n = n, OF assms] inv] that c by simp
  with inv c show "conn_inv hp (snd (conn_handler p env order fmt c))"
    by (auto simp: conn_handler_def bind_def seq_def get_state_def gets_def lift_o_def split: prod.splits outcome.splits)
qed (simp add: allowed_def)

text \<open>The line that \<open>read_line\<close> takes from the bytes a server sent: up to and with the first line break.\<close>

definition take_line :: "string \<Rightarrow> string" where
  "take_line t = takeWhile (\<lambda>c. c \<noteq> CHR 0x0A) t @ (if CHR 0x0A \<in> set t then [CHR 0x0A] else [])"

lemma take_line_one_line: "one_line t \<Longrightarrow> take_line (t @ r) = t"
proof -
  assume "one_line t"
  then obtain u where u: "t = u @ [CHR 0x0A]" "CHR 0x0A \<notin> set u" unfolding one_line_def by (metis append_butlast_last_id)
  then have "takeWhile (\<lambda>c. c \<noteq> CHR 0x0A) (u @ CHR 0x0A # r) = u" by (subst takeWhile_append2) auto
  with u show ?thesis by (simp add: take_line_def)
qed

lemma served_bytes:
  assumes "speed_run p h read_file execute re opts (speed_start opts) sp" "sp_main sp = M_Gather acc" "m \<in> set (sp_monitors sp)"
  shows "mo_sent m = [0x5B, 0x5D, 0x71]"
  using run_connected [OF assms(1)] assms(2,3) by (auto simp: connected_inv_def range_inv_def list_all_iff served_def)

text \<open>
  The programs fit together: the bytes that a complete run of the load generator has written to a
  monitor, given to the connection handler of a healthy monitoring server, make it return \<open>Ok\<close> after exactly
  one packet, and the line the load generator reads from what was sent is that whole packet.
\<close>

theorem monitor_session_complete:
  assumes "speed_run p h read_file execute re opts (speed_start opts) sp" "sp_main sp = M_Gather acc" "m \<in> set (sp_monitors sp)"
    and "healthy_host env files i" "counters_work env" "iterates order" "healthy_stats i s" "sound_conn c"
    and "c_reads c = map Inr (mo_sent m)" "c_sent c = []"
    and "\<And>x. set (fmt x) \<subseteq> float_chars" "clean hp" "stats_inv hp s" "\<not> flocked w"
  shows "\<exists>s' c' w' packet. conn_handler Release env order fmt ((s, c), w) = (Ok (), ((s', c'), w')) \<and>
    c_sent c' = [packet] \<and> one_line packet \<and> take_line (concat (c_sent c')) = packet"
proof -
  have "c_reads c = map Inr ([0x5B, 0x5D] @ [0x71])" using assms(9) served_bytes [OF assms(1-3)] by simp
  from conn_session [OF assms(4-8) _ this, of fmt w] obtain s' c' w' where
    run: "conn_handler Release env order fmt ((s, c), w) = (Ok (), ((s', c'), w'))" "length (c_sent c') = 1"
    by (auto simp: assms(10) wants_packet_def)
  then obtain packet where packet: "c_sent c' = [packet]" by (auto simp: length_Suc_conv)
  have "conn_inv hp ((s, c), w)" using assms(10,13,14) by (simp add: conn_inv_def)
  from safeD [OF conn_handler_inv [where fmt = fmt, OF assms(6,11,12)] this] have "conn_inv hp (snd (conn_handler Release env order fmt ((s, c), w)))" by simp
  then have "one_line packet" using run(1) packet by (simp add: conn_inv_def)
  then have "take_line (packet @ []) = packet" by (rule take_line_one_line)
  with run packet \<open>one_line packet\<close> show ?thesis by auto
qed

theorem monitor_session_complete_witness:
  "\<exists>sp m s' c' w' packet. gathered_state = Some sp \<and> m \<in> set (sp_monitors sp) \<and>
     conn_handler Release demo_env rev (\<lambda>_. ''0.5'') ((demo_stats, demo_conn (mo_sent m)), start_world) = (Ok (), ((s', c'), w')) \<and>
     c_sent c' = [packet]"
proof -
  obtain sp where sp: "gathered_state = Some sp"
      "(case sp_main sp of M_Gather acc \<Rightarrow> map length (map fst acc) | _ \<Rightarrow> []) = [2]"
    using gathered_state_eval by auto
  then obtain acc where acc: "sp_main sp = M_Gather acc" by (cases "sp_main sp") auto
  note run = run_schedule_run [OF sp(1) [unfolded gathered_state_def]]
  have "map_option (\<lambda>sp. length (sp_monitors sp)) gathered_state = Some 1" by code_simp
  then have "length (sp_monitors sp) = 1" unfolding sp(1) by simp
  then obtain m where m: "m \<in> set (sp_monitors sp)" by (cases "sp_monitors sp") auto
  have "stats_inv ''h_'' demo_stats"
    using wf_demo_stats by (auto simp: stats_inv_def stat_names_def demo_stats_def)
  then have "\<exists>s' c' w' packet. conn_handler Release demo_env rev (\<lambda>_. ''0.5'') ((demo_stats, demo_conn (mo_sent m)), start_world) =
      (Ok (), ((s', c'), w')) \<and> c_sent c' = [packet]"
    using monitor_session_complete [OF run acc m healthy_demo demo_counters iterates_rev healthy_demo_stats sound_demo_conn
      _ _ demo_assumptions(2) _ _ demo_assumptions(1), of "mo_sent m" "''h_''"]
    by (simp add: demo_conn_def clean_def) blast
  with sp(1) m show ?thesis by blast
qed

end
