(* ===== verification/Runtime_Setup.thy ===== *)
theory Runtime_Setup
  imports Rust_Prelude
begin

text \<open>
  The settings of the asynchronous runtime that the load generator and the monitoring server build: the flavour of the
  scheduler and the calls on the builder, in their order. Building it is a parameter of the programs.
\<close>

datatype rt_flavor = CurrentThread | MultiThread

datatype rt_setting = ThreadName string | WorkerThreads nat | MaxBlockingThreads nat | EnableTime | EnableIo

type_synonym rt_builder = "rt_flavor \<Rightarrow> rt_setting list \<Rightarrow> unit outcome"

end
