(* ===== verification/Server_Main.thy ===== *)
theory Server_Main
  imports Server_Runs Runtime_Setup
begin

text \<open>
  The program around the monitoring server, \<open>main\<close> of \<^verbatim>\<open>statmon/src/main.rs\<close> and what \<open>async_main\<close> does before
  it serves: the runtime is built, the statistics are set up and the port is bound. The builder and the bind
  are parameters. The process has a result only if one of these fails, or if a task of a release build
  panics; otherwise it serves for ever.
\<close>

section \<open>Start and end of the process\<close>

definition statmon_runtime :: "rt_builder \<Rightarrow> unit outcome" where
  "statmon_runtime build = build CurrentThread [EnableTime, EnableIo]"

definition statmon_start ::
  "profile \<Rightarrow> os \<Rightarrow> event_order \<Rightarrow> (16 word \<Rightarrow> io_error option) \<Rightarrow> Options \<Rightarrow> world \<Rightarrow> server outcome option" where
  "statmon_start p env order listen opts w0 =
    map_option (\<lambda>r. obind r (\<lambda>srv. obind (io_unit (listen (port opts))) (\<lambda>_. Ok srv)))
      (server_start p env order opts w0)"

text \<open>A process ends by returning from \<open>main\<close>, or it is aborted by a task that panicked.\<close>

datatype process_end = Returned "unit outcome" | AbortedBy task

fun panicked :: "task \<Rightarrow> bool" where
  "panicked (Panicked q) = True"
| "panicked (PanickedWith e) = True"
| "panicked t = False"

inductive statmon_main ::
  "profile \<Rightarrow> rt_builder \<Rightarrow> (16 word \<Rightarrow> io_error option) \<Rightarrow> os \<Rightarrow> event_order \<Rightarrow> (f64 \<Rightarrow> string) \<Rightarrow> Options \<Rightarrow> world \<Rightarrow>
   process_end \<Rightarrow> bool"
  for p build listen env order fmt opts w0 where
  no_runtime: "statmon_runtime build = r \<Longrightarrow> r \<noteq> Ok () \<Longrightarrow>
    statmon_main p build listen env order fmt opts w0 (Returned r)"
| start_fails: "statmon_runtime build = Ok () \<Longrightarrow> statmon_start p env order listen opts w0 = Some (Err e) \<Longrightarrow>
    statmon_main p build listen env order fmt opts w0 (Returned (Err e))"
| start_panics: "statmon_runtime build = Ok () \<Longrightarrow> statmon_start p env order listen opts w0 = Some (Panic q) \<Longrightarrow>
    statmon_main p build listen env order fmt opts w0 (Returned (Panic q))"
| aborts: "statmon_runtime build = Ok () \<Longrightarrow> statmon_start p env order listen opts w0 = Some (Ok srv) \<Longrightarrow>
    server_run p env order fmt srv xs srv' \<Longrightarrow> srv_aborted srv' \<Longrightarrow>
    t = srv_ticker srv' \<or> t \<in> snd ` set (srv_conns srv') \<Longrightarrow> panicked t \<Longrightarrow>
    statmon_main p build listen env order fmt opts w0 (AbortedBy t)"

inductive_cases statmon_mainE: "statmon_main p build listen env order fmt opts w0 r"

section \<open>A healthy host is served for ever\<close>

lemma conn_iteration_no_panic:
  assumes "conn_iteration p env order fmt ((s, c), w) = (r, ((s', c'), w'))" "\<And>b rs. c_reads c \<noteq> Inr b # rs"
  shows "\<not> is_panic r"
proof (cases "c_reads c")
  case Nil
  with assms(1) conn_iteration_eof show ?thesis by fastforce
next
  case (Cons x xs)
  then obtain e where "x = Inl e" using assms(2) by (cases x) auto
  with assms(1) Cons show ?thesis
    by (auto simp: conn_iteration_def read_byte_def bind_def seq_def get_state_def gets_def on_state_def modify_def lift_o_def)
qed

lemma healthy_step:
  assumes "healthy_host env files i" "counters_work env" "iterates order" "healthy_server i srv"
    and "server_step Release env order fmt srv a srv'"
  shows "healthy_server i srv'"
proof -
  have h: "healthy_stats i (srv_stats srv)" using assms(4) by (simp add: healthy_server_def)
  from assms(5) show ?thesis
  proof cases
    case (tick r s w)
    from succeedsD [OF stats_update_succ [OF assms(1,3)], of "(srv_stats srv, srv_world srv)"] h tick(5)
    have "r = Ok () \<and> healthy_stats i s" by (auto simp: beside_def)
    with tick assms(4) show ?thesis by (simp add: after_tick_def healthy_server_def)
  next
    case (turn j c r s c' w)
    have "\<not> is_panic r \<and> healthy_stats i s"
    proof (cases "\<exists>b rs. c_reads c = Inr b # rs")
      case True
      then obtain b rs where rd: "c_reads c = Inr b # rs" by blast
      obtain out s1 w1 where b: "handle_byte Release env order fmt b (srv_stats srv, srv_world srv) =
          (Ok (if b = 0x71 then Break else Continue, out), (s1, w1))" "healthy_stats i s1"
        using handle_byte_succ [OF assms(1-3) h] by blast
      with conn_iteration_byte [OF turn(6) rd b(1)] show ?thesis by simp
    next
      case False
      with conn_iteration_no_panic [OF turn(6)] conn_iteration_no_byte [OF turn(6)] h show ?thesis by blast
    qed
    with turn(2) assms(4) show ?thesis
      by (cases r) (auto simp: after_turn_def healthy_server_def Let_def split: control.splits)
  qed (use assms(4) in \<open>simp_all add: healthy_server_def\<close>)
qed

lemma healthy_run:
  assumes "server_run Release env order fmt srv xs srv'" "healthy_host env files i" "counters_work env" "iterates order"
    and "healthy_server i srv"
  shows "healthy_server i srv'"
  by (rule srv_runs.run_invariant [where I = "healthy_server i", OF assms(1,5)]) (rule healthy_step [OF assms(2-4)])

lemma statmon_starts:
  assumes "healthy_host env files (netdev opts)" "iterates order" "netdev opts \<noteq> []" "Stats_new env w0 = Some sw"
    and "listen (port opts) = None"
  shows "\<exists>srv. statmon_start Release env order listen opts w0 = Some (Ok srv) \<and> healthy_server (netdev opts) srv"
proof -
  obtain s w where "Stats_new env w0 = Some (s, w)" using assms(4) by (cases sw) auto
  from server_start_healthy [OF assms(1-3) this] assms(5) show ?thesis by (auto simp: statmon_start_def io_unit_def)
qed



end
