(* ===== verification/Speed_Termination.thy ===== *)
theory Speed_Termination
  imports Speed_Progress
begin

text \<open>
  Termination of a run of the load generator. Every step but a step of the progress task uses up a unit of the
  work that the options lay down at the start, so no interleaving goes on for ever; and on a host where every
  function can be prepared no interleaving gets stuck, so the report is reached.
\<close>

section \<open>The work that is left\<close>

fun task_work :: "rstate \<Rightarrow> nat" where
  "task_work R_Spawned = 3"
| "task_work (R_Sent t) = 2"
| "task_work (R_Received rr) = 1"
| "task_work (R_Finished r) = 0"

text \<open>The number of requests of a plan; none when the count panics.\<close>

definition plan_requests :: "SpeedOptions \<Rightarrow> fn_plan \<Rightarrow> nat" where
  "plan_requests opts pl = (case total_requests (pl_rps pl) (time opts) of Ok n \<Rightarrow> nat (sint n) | _ \<Rightarrow> 0)"

definition requests_of :: "http \<Rightarrow> (string \<Rightarrow> io_error + string) \<Rightarrow> SpeedOptions \<Rightarrow> nat \<Rightarrow> nat" where
  "requests_of h read_file opts i = (case function_plan h read_file opts i of Ok pl \<Rightarrow> plan_requests opts pl | _ \<Rightarrow> 0)"

text \<open>A request costs five steps: it is spawned, sent, received, finished and joined.\<close>

fun fn_work :: "http \<Rightarrow> (string \<Rightarrow> io_error + string) \<Rightarrow> SpeedOptions \<Rightarrow> nat \<Rightarrow> fn_pc \<Rightarrow> nat" where
  "fn_work h read_file opts i F_Prepare = 9 + 5 * requests_of h read_file opts i"
| "fn_work h read_file opts i (F_Wait1 pl) = 8 + 5 * plan_requests opts pl"
| "fn_work h read_file opts i (F_Wait2 pl) = 7 + 5 * plan_requests opts pl"
| "fn_work h read_file opts i (F_Count pl) = 6 + 5 * plan_requests opts pl"
| "fn_work h read_file opts i (F_Wait3 pl n) = 5 + 5 * n"
| "fn_work h read_file opts i (F_Start pl n) = 4 + 5 * n"
| "fn_work h read_file opts i (F_Gen pl n k g hs) = 3 + 5 * k + length hs"
| "fn_work h read_file opts i (F_Join pl n rs hs) = 2 + length hs"
| "fn_work h read_file opts i (F_Wait4 pl n rs) = 1"
| "fn_work h read_file opts i pc = 0"

text \<open>\<open>f\<close> functions to join and \<open>m\<close> connected monitors.\<close>

fun main_work :: "nat \<Rightarrow> nat \<Rightarrow> main_pc \<Rightarrow> nat" where
  "main_work f m (M_Connect hs) = 10 + f + 4 * m + 5 * length hs"
| "main_work f m M_Wait1 = 9 + f + 4 * m"
| "main_work f m (M_Open k) = 8 + f + 3 * m + (m - k)"
| "main_work f m M_Wait2 = 7 + f + 3 * m"
| "main_work f m M_Wait3 = 6 + f + 3 * m"
| "main_work f m M_Wait4 = 5 + f + 3 * m"
| "main_work f m M_Finish = 4 + f + 3 * m"
| "main_work f m (M_Close k) = 3 + f + 3 * (m - k)"
| "main_work f m (M_Read k) = 5 + f + 3 * (m - Suc k)"
| "main_work f m (M_Quit k) = 4 + f + 3 * (m - Suc k)"
| "main_work f m M_JoinProgress = 2 + f"
| "main_work f m (M_Gather acc) = 1 + (f - length acc)"
| "main_work f m pc = 0"

definition fns_work :: "http \<Rightarrow> (string \<Rightarrow> io_error + string) \<Rightarrow> SpeedOptions \<Rightarrow> fn_pc list \<Rightarrow> nat" where
  "fns_work h read_file opts fns = (\<Sum>i < length fns. fn_work h read_file opts i (fns ! i))"

definition tasks_work :: "rtask list \<Rightarrow> nat" where
  "tasks_work ts = (\<Sum>t\<leftarrow>ts. task_work (rt_state t))"

definition work :: "http \<Rightarrow> (string \<Rightarrow> io_error + string) \<Rightarrow> SpeedOptions \<Rightarrow> speed \<Rightarrow> nat" where
  "work h read_file opts sp =
    main_work (length (sp_fns sp)) (length (sp_monitors sp)) (sp_main sp) + fns_work h read_file opts (sp_fns sp) +
    tasks_work (sp_tasks sp)"

section \<open>Every step uses some of it up\<close>

lemma fns_work_update:
  assumes "i < length fns"
  shows "fns_work h read_file opts (fns[i := pc]) + fn_work h read_file opts i (fns ! i) =
    fns_work h read_file opts fns + fn_work h read_file opts i pc"
proof -
  have "fns_work h read_file opts fns' = fn_work h read_file opts i (fns' ! i) +
      (\<Sum>j \<in> {..<length fns} - {i}. fn_work h read_file opts j (fns' ! j))" if "length fns' = length fns" for fns'
    using assms that by (simp add: fns_work_def sum.remove [of _ i])
  from this [of fns] this [of "fns[i := pc]"] show ?thesis using assms by simp
qed

lemma tasks_work_append [simp]: "tasks_work (ts @ [t]) = tasks_work ts + task_work (rt_state t)"
  by (simp add: tasks_work_def)

lemma tasks_work_update:
  assumes "j < length ts"
  shows "tasks_work (ts[j := t]) + task_work (rt_state (ts ! j)) = tasks_work ts + task_work (rt_state t)"
  using assms
proof (induction ts arbitrary: j)
  case (Cons a ts)
  then show ?case by (cases j) (auto simp: tasks_work_def)
qed simp

lemma request_next_work:
  "request_next opts now a s sh = Some (s', sh') \<Longrightarrow> task_work s' < task_work s"
  by (cases s) (auto split: if_splits outcome.splits)

lemma panics_work: "0 < b \<Longrightarrow> (\<And>x. r = Ok x \<Longrightarrow> fn_work h read_file opts i (f x) < b) \<Longrightarrow> fn_work h read_file opts i (fn_panics r f) < b"
  by (cases r) simp_all

lemma fn_next_work:
  assumes "fn_next p h read_file execute opts i pc (sh, ts) = Some (pc', sh', ts')"
  shows "fn_work h read_file opts i pc' + tasks_work ts' < fn_work h read_file opts i pc + tasks_work ts"
proof -
  have prep: "fn_work h read_file opts i (fn_prepare h read_file execute opts i) < 9 + 5 * requests_of h read_file opts i"
    unfolding fn_prepare_def by (intro panics_work) (simp_all add: requests_of_def)
  have start: "fn_work h read_file opts i (fn_panics r (\<lambda>g. F_Gen pl n n g [])) < 4 + 5 * n" for r pl n
    by (intro panics_work) simp_all
  show ?thesis
    using assms prep start
    by (cases "(p, h, read_file, execute, opts, i, pc, (sh, ts))" rule: fn_next.cases)
      (auto simp: fn_generate_def plan_requests_def Let_def
        split: outcome.splits option.splits rstate.splits if_splits)
qed

lemma main_next_work:
  assumes "main_next p re opts a l pc sp = Some sp'" "sp_main sp = pc"
  shows "main_work (length (sp_fns sp')) (length (sp_monitors sp')) (sp_main sp') <
    main_work (length (sp_fns sp)) (length (sp_monitors sp)) pc"
  using assms
  by (cases "(p, re, opts, a, l, pc, sp)" rule: main_next.cases)
    (auto simp: main_report_def send_byte_def read_line_def Let_def
      split: if_splits option.splits prog_pc.splits fn_pc.splits outcome.splits prod.splits)

lemma main_release_work: "main_waits pc \<Longrightarrow> main_work f m (main_release opts pc) < main_work f m pc"
  by (auto simp: main_release_def)

lemma fn_release_work: "fn_work h read_file opts i (fn_release opts pc) \<le> fn_work h read_file opts i pc"
  by (cases pc) simp_all

lemma release_all_work:
  assumes "main_waits (sp_main sp)"
  shows "work h read_file opts (release_all opts sp) < work h read_file opts sp"
proof -
  have "fns_work h read_file opts (map (fn_release opts) (sp_fns sp)) \<le> fns_work h read_file opts (sp_fns sp)"
    unfolding fns_work_def by (simp add: fn_release_work sum_mono)
  with main_release_work [OF assms, of "length (sp_fns sp)" "length (sp_monitors sp)" opts] show ?thesis
    by (simp add: work_def release_all_def)
qed

lemma choice_work:
  assumes "take_choice p h read_file execute re opts c sp = Some sp'"
  shows "work h read_file opts sp' + of_bool (c \<noteq> C_Progress) \<le> work h read_file opts sp"
proof (cases c)
  case (C_Fn i)
  then obtain pc sh ts where n: "i < length (sp_fns sp)"
      "fn_next p h read_file execute opts i (sp_fns sp ! i) (sp_shared sp, sp_tasks sp) = Some (pc, sh, ts)"
      "sp' = sp\<lparr>sp_fns := (sp_fns sp)[i := pc], sp_shared := sh, sp_tasks := ts\<rparr>"
    using assms by (auto split: if_splits)
  from fn_next_work [OF n(2)] fns_work_update [OF n(1), of h read_file opts pc] n(3) C_Fn show ?thesis by (simp add: work_def)
next
  case (C_Request j now a)
  then obtain rs sh where n: "j < length (sp_tasks sp)"
      "request_next opts now a (rt_state (sp_tasks sp ! j)) (sp_shared sp) = Some (rs, sh)"
      "sp' = sp\<lparr>sp_tasks := (sp_tasks sp)[j := (sp_tasks sp ! j)\<lparr>rt_state := rs\<rparr>], sp_shared := sh\<rparr>"
    using assms by (auto split: if_splits)
  from request_next_work [OF n(2)] tasks_work_update [OF n(1), of "(sp_tasks sp ! j)\<lparr>rt_state := rs\<rparr>"] n(3) C_Request
  show ?thesis by (simp add: work_def)
next
  case (C_Main a l)
  then have n: "main_next p re opts a l (sp_main sp) sp = Some sp'" using assms by (auto split: if_splits)
  from main_next_work [OF n refl] main_next_frame [OF n] C_Main show ?thesis by (simp add: work_def)
next
  case C_Progress
  with assms show ?thesis by (auto simp: work_def split: if_splits)
next
  case C_Barrier
  with assms have "main_waits (sp_main sp)" "sp' = release_all opts sp" by (auto simp del: main_waits.simps split: if_splits)
  with release_all_work C_Barrier show ?thesis by (simp add: Suc_le_eq)
qed

lemma schedule_work:
  "schedule p h read_file execute re opts cs sp = Some sp' \<Longrightarrow>
   work h read_file opts sp' + length (filter (\<lambda>c. c \<noteq> C_Progress) cs) \<le> work h read_file opts sp"
proof (induction cs arbitrary: sp)
  case (Cons c cs)
  then obtain sp1 where "take_choice p h read_file execute re opts c sp = Some sp1"
      "schedule p h read_file execute re opts cs sp1 = Some sp'" by (auto split: option.splits)
  with Cons.IH [of sp1] choice_work [of p h read_file execute re opts c sp sp1] show ?case by (cases "c = C_Progress") simp_all
qed simp

lemma start_work:
  "work h read_file opts (speed_start opts) =
     10 + 10 * length (function_names opts) + 5 * length (monitor_names opts) +
     5 * (\<Sum>i < length (function_names opts). requests_of h read_file opts i)"
  by (simp add: work_def speed_start_def fns_work_def tasks_work_def sum.distrib sum_distrib_left)

section \<open>The progress task ends with the requests\<close>

text \<open>
  The stages of the main task: it spawns the progress task when it passes the third barrier and raises the
  done flag as soon as it has passed the fourth one.
\<close>

definition stage_inv :: "speed \<Rightarrow> bool" where
  "stage_inv sp \<longleftrightarrow>
     (sh_done (sp_shared sp) \<longrightarrow> main_phase (sp_main sp) \<in> {None, Some 4}) \<and>
     (main_phase (sp_main sp) \<in> {Some 3, Some 4} \<longrightarrow> sp_progress sp \<noteq> P_None) \<and>
     (main_phase (sp_main sp) = Some 4 \<and> sp_main sp \<noteq> M_Finish \<longrightarrow> sh_done (sp_shared sp))"

lemma fn_next_done: "fn_next p h read_file execute opts i pc (sh, ts) = Some (pc', sh', ts') \<Longrightarrow> sh_done sh' = sh_done sh"
  by (cases "(p, h, read_file, execute, opts, i, pc, (sh, ts))" rule: fn_next.cases)
    (auto simp: fn_generate_def Let_def split: outcome.splits option.splits rstate.splits if_splits)

lemma request_next_done: "request_next opts now a s sh = Some (s', sh') \<Longrightarrow> sh_done sh' = sh_done sh"
  by (cases s) (auto split: if_splits outcome.splits)

lemma main_next_done:
  assumes "main_next p re opts a l pc sp = Some sp'" "sp_main sp = pc"
  shows "sh_done (sp_shared sp') = (sh_done (sp_shared sp) \<or> pc = M_Finish)"
    and "main_phase (sp_main sp') = Some 4 \<Longrightarrow> sp_main sp' \<noteq> M_Finish"
  using assms
  by (cases "(p, re, opts, a, l, pc, sp)" rule: main_next.cases;
      auto simp: main_report_def send_byte_def read_line_def Let_def
      split: if_splits option.splits prog_pc.splits fn_pc.splits outcome.splits prod.splits)+

lemma step_stage:
  assumes "speed_step p h read_file execute re opts sp sp'" "stage_inv sp"
  shows "stage_inv sp' \<and> (sh_done (sp_shared sp) \<longrightarrow> sh_done (sp_shared sp'))"
  using assms(1)
proof cases
  case (fn_moves i pc sh ts)
  with assms(2) fn_next_done [OF fn_moves(4)] show ?thesis by (simp add: stage_inv_def)
next
  case (request_moves j now a rs sh)
  with assms(2) request_next_done [OF request_moves(4)] show ?thesis by (simp add: stage_inv_def)
next
  case (main_moves ans l)
  note main = main_next_done [OF main_moves(2) refl] main_next_frame [OF main_moves(2)] main_next_phase [OF main_moves(2) refl]
  have "sh_done (sp_shared sp')" if "main_phase (sp_main sp') = Some 4"
    using that main assms(2) by (cases "sp_main sp = M_Finish") (auto simp: stage_inv_def)
  with main assms(2) show ?thesis by (cases "sp_main sp = M_Finish") (auto simp: stage_inv_def)
next
  case (progress_moves pc)
  have "pc \<noteq> P_None" using progress_moves(3) by (cases "sp_progress sp") (auto split: outcome.splits if_splits)
  with assms(2) progress_moves(1) show ?thesis by (simp add: stage_inv_def)
next
  case barrier
  with assms(2) show ?thesis by (auto simp: stage_inv_def release_all_def main_release_def)
qed

lemma run_stage:
  assumes "speed_run p h read_file execute re opts (speed_start opts) sp"
  shows "stage_inv sp"
proof -
  have "stage_inv (speed_start opts)" by (simp add: stage_inv_def speed_start_def)
  from speed_run_invariant [where I = stage_inv, OF assms this] step_stage show ?thesis by blast
qed

text \<open>The steps the progress task takes until it sees the flag.\<close>

fun progress_work :: "prog_pc \<Rightarrow> nat" where
  "progress_work P_Tick = 4"
| "progress_work (P_Total t) = 3"
| "progress_work (P_Sent t s) = 2"
| "progress_work P_Check = 1"
| "progress_work pc = 0"

lemma progress_next_work:
  "progress_next p sh pc = Some pc' \<Longrightarrow> sh_done sh \<Longrightarrow> progress_work pc' < progress_work pc"
  by (cases pc) (auto split: outcome.splits)

lemma done_choice_progress:
  assumes "take_choice p h read_file execute re opts c sp = Some sp'" "stage_inv sp" "sh_done (sp_shared sp)"
  shows "progress_work (sp_progress sp') + of_bool (c = C_Progress) \<le> progress_work (sp_progress sp)"
proof (cases c)
  case C_Progress
  with assms progress_next_work show ?thesis by (auto simp: Suc_le_eq split: if_splits)
next
  case C_Barrier
  have "sp_main sp \<noteq> M_Wait3" using assms(2,3) by (auto simp: stage_inv_def)
  with assms(1) C_Barrier show ?thesis by (auto simp: release_all_def simp del: main_waits.simps split: if_splits)
qed (use assms(1) in \<open>auto dest: main_next_frame split: if_splits\<close>)

lemma done_schedule_progress:
  "schedule p h read_file execute re opts cs sp = Some sp' \<Longrightarrow> stage_inv sp \<Longrightarrow> sh_done (sp_shared sp) \<Longrightarrow>
   progress_work (sp_progress sp') + length (filter (\<lambda>c. c = C_Progress) cs) \<le> progress_work (sp_progress sp)"
proof (induction cs arbitrary: sp)
  case (Cons c cs)
  then obtain sp1 where sp1: "take_choice p h read_file execute re opts c sp = Some sp1"
      "schedule p h read_file execute re opts cs sp1 = Some sp'" by (auto split: option.splits)
  then have "speed_step p h read_file execute re opts sp sp1" using step_iff_choice by blast
  with Cons.prems step_stage have "stage_inv sp1" "sh_done (sp_shared sp1)" by blast+
  from Cons.IH [OF sp1(2) this] done_choice_progress [OF sp1(1) Cons.prems(2,3)] show ?case by (cases "c = C_Progress") simp_all
qed simp

lemma progress_work_le: "progress_work pc \<le> 4"
  by (cases pc) simp_all


lemma demo_requests: "requests_of demo_http (\<lambda>_. Inl (Errno 2)) run_opts 0 = 2"
  by code_simp


section \<open>No interleaving gets stuck\<close>

text \<open>
  What a run needs of its options and of the services: every function can be prepared, its test request is
  answered, its requests can be counted and its generator started.
\<close>

definition fn_startable ::
  "profile \<Rightarrow> http \<Rightarrow> (string \<Rightarrow> io_error + string) \<Rightarrow> (request \<Rightarrow> error + response) \<Rightarrow> SpeedOptions \<Rightarrow> nat \<Rightarrow> bool" where
  "fn_startable p h read_file execute opts i \<longleftrightarrow>
     (case function_plan h read_file opts i of
        Ok pl \<Rightarrow> pl_pool pl \<noteq> [] \<and>
          (case test_request h execute opts pl of Ok b \<Rightarrow> True | _ \<Rightarrow> False) \<and>
          (case total_requests (pl_rps pl) (time opts) of
             Ok n \<Rightarrow> (case gen_start p opts pl n of Ok g \<Rightarrow> True | _ \<Rightarrow> False) | _ \<Rightarrow> False)
      | _ \<Rightarrow> False)"

text \<open>There is something to do, and little enough that the percentage of the progress display fits.\<close>

definition enough_requests :: "http \<Rightarrow> (string \<Rightarrow> io_error + string) \<Rightarrow> SpeedOptions \<Rightarrow> bool" where
  "enough_requests h read_file opts \<longleftrightarrow>
     (let n = (\<Sum>i < length (function_names opts). requests_of h read_file opts i) in 0 < n \<and> 100 * n < 2 ^ 63)"

definition startable ::
  "profile \<Rightarrow> http \<Rightarrow> (string \<Rightarrow> io_error + string) \<Rightarrow> (request \<Rightarrow> error + response) \<Rightarrow> SpeedOptions \<Rightarrow> bool" where
  "startable p h read_file execute opts \<longleftrightarrow> \<not> oneshot opts \<and> ok_den (offload_frac_den opts) \<and>
     list_all (fn_startable p h read_file execute opts) [0..<length (function_names opts)] \<and> enough_requests h read_file opts"

lemma fn_startableD:
  assumes "fn_startable p h read_file execute opts i" "function_plan h read_file opts i = Ok pl"
  shows "pl_pool pl \<noteq> []" "\<exists>b. test_request h execute opts pl = Ok b"
    "\<exists>n g. total_requests (pl_rps pl) (time opts) = Ok n \<and> gen_start p opts pl n = Ok g"
  using assms by (auto simp: fn_startable_def split: outcome.splits)

lemma fn_startable_plan: "fn_startable p h read_file execute opts i \<Longrightarrow> \<exists>pl. function_plan h read_file opts i = Ok pl"
  by (auto simp: fn_startable_def split: outcome.splits)

text \<open>A function that can be started never panics, and its generator never hangs.\<close>

lemma fn_next_sane:
  assumes "fn_startable p h read_file execute opts i" "ok_den (offload_frac_den opts)" "clones h"
    and "fn_next p h read_file execute opts i pc (sh, ts) = Some (pc', sh', ts')" "fn_ok h read_file opts i ts pc"
    and "fn_phase pc \<noteq> None"
  shows "fn_phase pc' \<noteq> None"
proof -
  have prep: "fn_phase (fn_prepare h read_file execute opts i) = Some 0"
  proof -
    obtain pl where pl: "function_plan h read_file opts i = Ok pl" using fn_startable_plan [OF assms(1)] by blast
    with fn_startableD(2) [OF assms(1) pl] show ?thesis by (auto simp: fn_prepare_def)
  qed
  have start: "fn_phase (fn_panics (gen_start p opts pl (of_nat n)) (\<lambda>g. F_Gen pl n n g [])) = Some 3"
    if "counted h read_file opts i pl n" for pl n
    using that fn_startableD(3) [OF assms(1), of pl] by (auto simp: counted_def)
  have count: "\<exists>n. total_requests (pl_rps pl) (time opts) = Ok n" if "function_plan h read_file opts i = Ok pl" for pl
    using fn_startableD(3) [OF assms(1) that] by blast
  have gen: "fn_phase (fst (fn_generate p h opts i pl n k g hs (sh, ts))) = Some 3"
    if ok: "fn_ok h read_file opts i ts (F_Gen pl n (Suc k) g hs)" for pl n k g hs
  proof -
    have "pl_pool pl \<noteq> []" "gen_at (offload_frac_den opts) pl (n - Suc k) g"
      using ok fn_startableD(1) [OF assms(1), of pl] by (auto simp: counted_def)
    from gen_step_at [OF assms(2,3) this, of p] show ?thesis by (auto simp: fn_generate_def Let_def)
  qed
  have gen': "fn_phase pc' \<noteq> None"
    if "fn_ok h read_file opts i ts (F_Gen pl n (Suc k) g hs)" "fn_generate p h opts i pl n k g hs (sh, ts) = (pc', sh', ts')"
    for pl n k g hs
    using gen [OF that(1)] that(2) by simp
  show ?thesis
    using assms(4-6) prep start count gen'
    by (cases "(p, h, read_file, execute, opts, i, pc, (sh, ts))" rule: fn_next.cases)
      (auto split: outcome.splits option.splits rstate.splits)
qed

text \<open>The handles a function holds are requests of the run.\<close>

fun handles :: "fn_pc \<Rightarrow> nat list" where
  "handles (F_Gen pl n k g hs) = hs"
| "handles (F_Join pl n rs hs) = hs"
| "handles pc = []"

definition handles_inv :: "fn_pc list \<Rightarrow> rtask list \<Rightarrow> bool" where
  "handles_inv fns ts \<longleftrightarrow> list_all (\<lambda>pc. list_all (\<lambda>j. j < length ts) (handles pc)) fns"

lemma panics_handles: "(\<And>x. handles (f x) = []) \<Longrightarrow> handles (fn_panics r f) = []"
  by (cases r) simp_all

lemma fn_next_handles:
  assumes "fn_next p h read_file execute opts i pc (sh, ts) = Some (pc', sh', ts')" "list_all (\<lambda>j. j < length ts) (handles pc)"
  shows "list_all (\<lambda>j. j < length ts') (handles pc')"
proof -
  have prep: "handles (fn_prepare h read_file execute opts i) = []"
    unfolding fn_prepare_def by (intro panics_handles) simp
  have start: "handles (fn_panics r (\<lambda>g. F_Gen pl n n g [])) = []" for r pl n
    by (intro panics_handles) simp
  show ?thesis
    using assms prep start
    by (cases "(p, h, read_file, execute, opts, i, pc, (sh, ts))" rule: fn_next.cases)
      (auto simp: fn_generate_def Let_def list_all_iff less_Suc_eq split: outcome.splits option.splits rstate.splits if_splits)
qed

lemma release_handles: "fn_waits pc \<Longrightarrow> handles (fn_release opts pc) = []"
  by (cases pc) simp_all

text \<open>The requests the functions have counted, once the progress task runs.\<close>

lemma counted_requests: "counted h read_file opts i pl n \<Longrightarrow> requests_of h read_file opts i = n"
  by (simp add: counted_def requests_of_def plan_requests_def sint_of_nat64)

lemma late_total:
  assumes "count_inv h read_file opts sp" "sane (sp_fns sp)" "list_all late (sp_fns sp)" "\<not> oneshot opts"
  shows "sum_total (sp_fns sp) = (\<Sum>i < length (sp_fns sp). requests_of h read_file opts i)"
proof -
  have "fn_total (sp_fns sp ! i) = requests_of h read_file opts i" if i: "i < length (sp_fns sp)" for i
  proof -
    have "fn_ok h read_file opts i (sp_tasks sp) (sp_fns sp ! i)" "late (sp_fns sp ! i)" "fn_phase (sp_fns sp ! i) \<noteq> None"
      using assms(1-3) i by (auto simp: count_inv_def sane_def list_all_length)
    then show ?thesis using assms(4) by (cases "sp_fns sp ! i") (auto simp: late_def counted_requests)
  qed
  then show ?thesis by (simp add: sum_total_def sum_list_sum_nth atLeast0LessThan)
qed

text \<open>What holds in every state of a run that can be started.\<close>

definition live :: "speed \<Rightarrow> bool" where
  "live sp \<longleftrightarrow> sane (sp_fns sp) \<and> (\<forall>q. sp_progress sp \<noteq> P_Panicked q) \<and> handles_inv (sp_fns sp) (sp_tasks sp)"

lemmas reachable_facts = run_counts run_range_inv [OF _ start_range_inv] run_progress run_gather run_stage

lemma live_percent:
  assumes "speed_run p h read_file execute re opts (speed_start opts) sp" "startable p h read_file execute opts" "clones h"
    and "live sp" "sp_progress sp = P_Sent t s"
  shows "\<exists>x. progress_percent p (sh_recv (sp_shared sp)) t = Ok x"
proof -
  have st: "ok_den (offload_frac_den opts)" "\<not> oneshot opts" using assms(2) by (auto simp: startable_def)
  note inv = run_counts [OF assms(1) st(1) assms(3)] reachable_facts(2-) [OF assms(1)]
  have sane: "sane (sp_fns sp)" using assms(4) by (simp add: live_def)
  have "list_all late (sp_fns sp)" using inv(3) assms(5) by (auto simp: progress_inv_def)
  from late_total [OF inv(1) sane this st(2)] inv(4)
  have "sum_total (sp_fns sp) = (\<Sum>i < length (function_names opts). requests_of h read_file opts i)" by simp
  then have "100 * sum_total (sp_fns sp) < 2 ^ 63" "0 < sum_total (sp_fns sp)"
    using assms(2) by (auto simp: startable_def enough_requests_def Let_def)
  from refresh_percent [OF inv(1-3) st(2) assms(5) sane this] show ?thesis by blast
qed

lemma step_live:
  assumes "speed_run p h read_file execute re opts (speed_start opts) sp" "startable p h read_file execute opts" "clones h"
    and "live sp" "speed_step p h read_file execute re opts sp sp'"
  shows "live sp'"
proof -
  have st: "ok_den (offload_frac_den opts)" using assms(2) by (simp add: startable_def)
  note inv = run_counts [OF assms(1) st assms(3)] reachable_facts(2-) [OF assms(1)]
  from assms(5) show ?thesis
  proof cases
    case (fn_moves i pc sh ts)
    have i: "fn_startable p h read_file execute opts i" "fn_ok h read_file opts i (sp_tasks sp) (sp_fns sp ! i)"
        "fn_phase (sp_fns sp ! i) \<noteq> None" "list_all (\<lambda>j. j < length (sp_tasks sp)) (handles (sp_fns sp ! i))"
      using assms(2,4) inv(1,4) fn_moves(3)
      by (auto simp: startable_def count_inv_def live_def sane_def handles_inv_def list_all_length)
    have more: "length (sp_tasks sp) \<le> length ts" using fn_next_tasks [OF fn_moves(4)] by auto
    have "handles_inv (sp_fns sp) ts"
      using assms(4) more by (force simp: live_def handles_inv_def list_all_iff)
    with fn_next_sane [OF i(1) st assms(3) fn_moves(4) i(2,3)] fn_next_handles [OF fn_moves(4) i(4)] assms(4) fn_moves(1)
    show ?thesis by (simp add: live_def sane_def handles_inv_def list_all_update)
  next
    case (progress_moves pc)
    have "pc \<noteq> P_Panicked q" for q
      using progress_moves(3) live_percent [OF assms(1-4)]
      by (cases "sp_progress sp") (auto split: if_splits outcome.splits)
    with assms(4) progress_moves(1) show ?thesis by (simp add: live_def)
  next
    case (main_moves ans l)
    with assms(4) main_next_frame [OF main_moves(2)] show ?thesis by (simp add: live_def)
  next
    case barrier
    have "fn_phase (fn_release opts pc) \<noteq> None" if "fn_waits pc" for pc using that by (cases pc) auto
    with barrier assms(4) release_handles show ?thesis
      by (auto simp: live_def sane_def handles_inv_def release_all_def list_all_iff)
  qed (use assms(4) in \<open>simp_all add: live_def handles_inv_def\<close>)
qed

lemma run_live:
  assumes "speed_run p h read_file execute re opts (speed_start opts) sp" "startable p h read_file execute opts" "clones h"
  shows "live sp"
proof -
  have "live (speed_start opts)"
    by (simp add: live_def sane_def handles_inv_def speed_start_def list_all_iff)
  from speed_run_invariant [where I = live, OF assms(1) this] step_live [OF _ assms(2,3)] show ?thesis by blast
qed

fun ended :: "main_pc \<Rightarrow> bool" where
  "ended M_Returned = True"
| "ended (M_Failed e) = True"
| "ended (M_Panicked q) = True"
| "ended pc = False"

text \<open>All functions are joined: the report is next.\<close>

definition reporting :: "speed \<Rightarrow> bool" where
  "reporting sp \<longleftrightarrow> (case sp_main sp of M_Gather acc \<Rightarrow> length acc = length (sp_fns sp) | _ \<Rightarrow> False)"

lemma fn_enabled:
  assumes "fn_phase pc \<noteq> None" "\<not> fn_waits pc" "\<not> is_done pc" "list_all (\<lambda>j. j < length ts) (handles pc)"
  shows "fn_next p h read_file execute opts i pc (sh, ts) \<noteq> None \<or> (\<exists>j < length ts. \<not> finished (ts ! j))"
proof (cases pc)
  case (F_Count pl)
  then show ?thesis by (auto simp: total_requests_def Let_def)
next
  case (F_Gen pl n k g hs)
  then show ?thesis by (cases k) auto
next
  case (F_Join pl n rs hs)
  show ?thesis
  proof (cases hs)
    case (Cons j hs')
    with F_Join assms(4) show ?thesis by (cases "rt_state (ts ! j)") (auto simp: nth_opt_def finished_def)
  qed (use F_Join in simp)
qed (use assms in \<open>auto simp: is_done_def\<close>)

lemma request_enabled: "\<not> finished t \<Longrightarrow> \<exists>a r. request_next opts 0 a (rt_state t) sh = Some r"
proof (cases "rt_state t")
  case (R_Sent u)
  have "request_next opts 0 \<lparr>na_reply = Inl e, na_status_us = 0, na_request_us = 0\<rparr> (R_Sent u) sh \<noteq> None" for e
    by (simp add: exchange_def)
  with R_Sent show ?thesis by fastforce
qed (auto simp: finished_def)

lemma main_enabled:
  assumes "\<not> ended (sp_main sp)" "\<not> main_waits (sp_main sp)" "\<not> reporting sp" "gather_inv sp"
    and "main_phase (sp_main sp) = Some 4 \<Longrightarrow> list_all is_done (sp_fns sp)"
    and "sp_main sp = M_JoinProgress \<Longrightarrow> sp_progress sp = P_End"
  shows "\<exists>sp'. main_next p re opts None [] (sp_main sp) sp = Some sp' \<and> \<not> ended (sp_main sp')"
proof (cases "sp_main sp")
  case (M_Connect hs)
  then show ?thesis by (cases hs) auto
next
  case (M_Gather acc)
  with assms(3,4) have lt: "length acc < length (sp_fns sp)" by (auto simp: reporting_def gather_inv_def)
  with M_Gather assms(5) have "is_done (sp_fns sp ! length acc)" by (simp add: list_all_length)
  with M_Gather lt show ?thesis by (auto simp: is_done_def)
qed (use assms(1,2,6) in auto)

definition steps_left :: "http \<Rightarrow> (string \<Rightarrow> io_error + string) \<Rightarrow> SpeedOptions \<Rightarrow> speed \<Rightarrow> nat" where
  "steps_left h read_file opts sp = 5 * work h read_file opts sp + progress_work (sp_progress sp)"

lemma choice_steps_left:
  assumes "take_choice p h read_file execute re opts c sp = Some sp'" "c \<noteq> C_Progress"
  shows "steps_left h read_file opts sp' < steps_left h read_file opts sp"
  using choice_work [OF assms(1)] assms(2) progress_work_le [of "sp_progress sp'"] by (simp add: steps_left_def)

lemma main_keeps_ended:
  "take_choice p h read_file execute re opts c sp = Some sp' \<Longrightarrow> (\<forall>a l. c \<noteq> C_Main a l) \<Longrightarrow> \<not> oneshot opts \<Longrightarrow>
   \<not> ended (sp_main sp) \<Longrightarrow> \<not> ended (sp_main sp')"
  by (cases c) (auto simp: release_all_def main_release_def simp del: main_waits.simps split: if_splits)

text \<open>At a barrier someone can move: everyone is there, or a function is on its way, or it waits for a request.\<close>

lemma waiting_enabled:
  assumes "range_inv sp" "live sp" "main_waits (sp_main sp)" "\<not> halted p sp"
  shows "\<exists>c sp'. take_choice p h read_file execute re opts c sp = Some sp' \<and> c \<noteq> C_Progress \<and> (\<forall>a l. c \<noteq> C_Main a l)"
proof (cases "list_all fn_waits (sp_fns sp)")
  case True
  with assms(3,4) show ?thesis by (intro exI [of _ C_Barrier]) (simp del: main_waits.simps)
next
  case False
  then obtain i where i: "i < length (sp_fns sp)" "\<not> fn_waits (sp_fns sp ! i)" by (auto simp: list_all_length)
  obtain k where "in_phase k sp" using assms(1) by (auto simp: range_inv_def)
  with assms(3) i(1) have "fn_phase (sp_fns sp ! i) \<noteq> Some 4" by (auto simp: in_phase_def list_all_length)
  then have notdone: "\<not> is_done (sp_fns sp ! i)" by (auto simp: is_done_def)
  have "fn_phase (sp_fns sp ! i) \<noteq> None" "list_all (\<lambda>j. j < length (sp_tasks sp)) (handles (sp_fns sp ! i))"
    using assms(2) i(1) by (auto simp: live_def sane_def handles_inv_def list_all_length)
  from fn_enabled [OF this(1) i(2) notdone this(2), of p h read_file execute opts i "sp_shared sp"] show ?thesis
  proof
    assume "fn_next p h read_file execute opts i (sp_fns sp ! i) (sp_shared sp, sp_tasks sp) \<noteq> None"
    with i(1) assms(4) show ?thesis by (intro exI [of _ "C_Fn i"]) auto
  next
    assume "\<exists>j < length (sp_tasks sp). \<not> finished (sp_tasks sp ! j)"
    then obtain j where j: "j < length (sp_tasks sp)" "\<not> finished (sp_tasks sp ! j)" by blast
    from request_enabled [OF j(2), of opts "sp_shared sp"] obtain a r where
      "request_next opts 0 a (rt_state (sp_tasks sp ! j)) (sp_shared sp) = Some r" by blast
    with j(1) assms(4) show ?thesis by (intro exI [of _ "C_Request j 0 a"]) auto
  qed
qed

lemma progress_enabled:
  assumes "speed_run p h read_file execute re opts (speed_start opts) sp" "startable p h read_file execute opts" "clones h"
    and "live sp" "sp_progress sp \<notin> {P_None, P_End}"
  shows "progress_next p (sp_shared sp) (sp_progress sp) \<noteq> None"
  using assms(4,5) live_percent [OF assms(1-4)] by (cases "sp_progress sp") (auto simp: live_def)

lemma live_not_halted: "\<not> ended (sp_main sp) \<Longrightarrow> live sp \<Longrightarrow> \<not> halted p sp"
  by (auto simp: halted_def is_panicked_def live_def sane_def list_ex_iff list_all_iff
      split: fn_pc.splits prog_pc.splits main_pc.splits)

lemma live_step:
  assumes "speed_run p h read_file execute re opts (speed_start opts) sp" "startable p h read_file execute opts" "clones h"
    and "\<not> ended (sp_main sp)" "\<not> reporting sp"
  shows "\<exists>c sp'. take_choice p h read_file execute re opts c sp = Some sp' \<and> \<not> ended (sp_main sp') \<and>
    steps_left h read_file opts sp' < steps_left h read_file opts sp"
proof -
  have st: "\<not> oneshot opts" using assms(2) by (simp add: startable_def)
  note inv = reachable_facts(2-) [OF assms(1)]
  have live: "live sp" by (rule run_live [OF assms(1-3)])
  have nh: "\<not> halted p sp" by (rule live_not_halted [OF assms(4) live])
  consider "main_waits (sp_main sp)" | "sp_main sp = M_JoinProgress" "sp_progress sp \<noteq> P_End"
    | "\<not> main_waits (sp_main sp)" "sp_main sp = M_JoinProgress \<Longrightarrow> sp_progress sp = P_End" by blast
  then show ?thesis
  proof cases
    case 1
    from waiting_enabled [OF inv(1) live this nh] choice_steps_left main_keeps_ended [OF _ _ st assms(4)] show ?thesis by meson
  next
    case 2
    with inv(4) have "sp_progress sp \<notin> {P_None, P_End}" "sh_done (sp_shared sp)" by (auto simp: stage_inv_def)
    moreover from progress_enabled [OF assms(1-3) live this(1)] obtain pc where
      "progress_next p (sp_shared sp) (sp_progress sp) = Some pc" by blast
    ultimately show ?thesis
      using nh assms(4) progress_next_work [of p "sp_shared sp" "sp_progress sp" pc]
      by (intro exI [of _ C_Progress]) (auto simp: steps_left_def work_def)
  next
    case 3
    have "list_all is_done (sp_fns sp)" if "main_phase (sp_main sp) = Some 4"
      using that inv(1) by (simp add: range_inv_def closing_def)
    with main_enabled [OF assms(4) 3(1) assms(5) _ _ 3(2)] inv(3) obtain sp' where
      "main_next p re opts None [] (sp_main sp) sp = Some sp'" "\<not> ended (sp_main sp')" by blast
    then have "take_choice p h read_file execute re opts (C_Main None []) sp = Some sp'" "\<not> ended (sp_main sp')" using nh by simp_all
    with choice_steps_left show ?thesis by blast
  qed
qed

text \<open>
  From every state that a run can reach there is a continuation that joins every function: the four barriers,
  the joins of the requests, the progress task and the functions never wait for each other in a circle.
\<close>

lemma run_can_report:
  assumes "speed_run p h read_file execute re opts (speed_start opts) sp" "startable p h read_file execute opts" "clones h"
    and "\<not> ended (sp_main sp)"
  shows "\<exists>cs sp'. schedule p h read_file execute re opts cs sp = Some sp' \<and> reporting sp'"
  using assms(1,4)
proof (induction "steps_left h read_file opts sp" arbitrary: sp rule: less_induct)
  case less
  show ?case
  proof (cases "reporting sp")
    case True
    then show ?thesis by (intro exI [of _ "[]"]) simp
  next
    case False
    with live_step [OF less.prems(1) assms(2,3) less.prems(2)] obtain c sp1 where
      c: "take_choice p h read_file execute re opts c sp = Some sp1" "\<not> ended (sp_main sp1)"
        "steps_left h read_file opts sp1 < steps_left h read_file opts sp" by blast
    then have "speed_run p h read_file execute re opts (speed_start opts) sp1"
      using less.prems(1) step_iff_choice speed_trans by blast
    with less.hyps [OF c(3)] c(2) obtain cs sp' where
      "schedule p h read_file execute re opts cs sp1 = Some sp'" "reporting sp'" by blast
    with c(1) show ?thesis by (intro exI [of _ "c # cs"]) simp
  qed
qed

lemma demo_startable: "startable Release demo_http (\<lambda>_. Inl (Errno 2)) (\<lambda>_. run_reply) run_opts"
proof -
  have "list_all (fn_startable Release demo_http (\<lambda>_. Inl (Errno 2)) (\<lambda>_. run_reply) run_opts) [0..<1]" by code_simp
  moreover have "\<not> oneshot run_opts" "ok_den (offload_frac_den run_opts)" "length (function_names run_opts) = 1" by code_simp+
  ultimately show ?thesis by (simp add: startable_def enough_requests_def demo_requests Let_def)
qed

end
