(* ===== verification/Speed_Finish.thy ===== *)
theory Speed_Finish
  imports Speed_Termination
begin

text \<open>
  The end of a run of the load generator in the release profile: the report cannot fail, so every run that
  can be started can be brought to a successful end.
\<close>

section \<open>Printing never fails\<close>

definition prints :: "(string list, 'a) rust \<Rightarrow> bool" where
  "prints m \<longleftrightarrow> (\<forall>out. \<exists>x out'. m out = (Ok x, out'))"

lemma prints_ret: "prints (ret x)" and prints_println: "prints (println l)"
  by (simp_all add: prints_def println_def)

lemma prints_bind: "prints m \<Longrightarrow> (\<And>x. prints (f x)) \<Longrightarrow> prints (bind m f)"
  unfolding prints_def by (metis bind_Ok)

lemma prints_seq: "prints m \<Longrightarrow> prints n \<Longrightarrow> prints (seq m n)"
  unfolding seq_def by (rule prints_bind)

lemma prints_lift: "r = Ok x \<Longrightarrow> prints (f x) \<Longrightarrow> prints (bind (lift_o r) f)"
  by simp

lemma prints_if: "prints m \<Longrightarrow> prints n \<Longrightarrow> prints (if b then m else n)"
  by simp

lemma prints_for_each: "(\<And>x. x \<in> set xs \<Longrightarrow> prints (f x)) \<Longrightarrow> prints (for_each f xs)"
  by (induction xs) (simp_all add: prints_ret prints_seq)

lemmas prints_rules = prints_ret prints_println prints_bind prints_seq prints_if prints_for_each

section \<open>The figures of the release profile\<close>

lemma sum_from_release: "sum_from Release a xs = Ok (a + sum_list xs)"
  by (induction xs arbitrary: a) (simp_all add: add.assoc)

lemma summarise_release:
  assumes "length xs < 2 ^ 64"
  shows "\<exists>s. summarise Release xs = Ok s"
proof -
  have "(of_nat (max (length xs) 1) :: u128) \<noteq> 0"
    using length_word [OF _ assms] by (cases "xs = []") (simp_all add: max_def)
  then show ?thesis by (simp add: summarise_def Let_def sum_from_release sum_squares_release udiv_def)
qed

lemma print_stats_prints:
  assumes "length xs < 2 ^ 64"
  shows "prints (print_stats Release fmt c xs v n)"
proof -
  obtain s where "summarise Release xs = Ok s" using summarise_release [OF assms] by blast
  then show ?thesis
    unfolding print_stats_def by (rule prints_lift) (auto intro!: prints_rules)
qed

lemma interval_loop_release:
  "list_all (\<lambda>i. i < length rs) is \<Longrightarrow> \<exists>rs'. interval_loop Release is rs = Ok rs' \<and> length rs' = length rs"
proof (induction "is" arbitrary: rs)
  case (Cons i "is")
  have i: "i < length rs" "i - 1 < length rs" using Cons.prems by auto
  let ?rs = "rs[i := (rs ! i)\<lparr>start_time := start_time (rs ! i) - start_time (rs ! (i - 1))\<rparr>]"
  have "interval_loop Release (i # is) rs = interval_loop Release is ?rs" using i by (simp add: index_vec_def)
  with Cons.IH [of ?rs] Cons.prems show ?case by simp
qed simp

lemma intervals_release: "\<exists>rs'. intervals Release rs = Ok rs' \<and> length rs' = length rs"
proof -
  obtain rs' where "interval_loop Release (rev [1..<length rs]) rs = Ok rs'" "length rs' = length rs"
    using interval_loop_release [of rs "rev [1..<length rs]"] by (auto simp: list_all_iff)
  then show ?thesis by (simp add: intervals_def)
qed

lemma sorts_length: "sorts sort_by \<Longrightarrow> length (sort_by f xs) = length xs"
  unfolding sorts_def by (metis size_mset)

lemma report_function_prints:
  assumes "sorts sort_by" "length results < 2 ^ 64"
  shows "prints (report_function Release sort_by fmt opts results)"
proof -
  obtain rs where rs: "intervals Release (sort_by start_time results) = Ok rs" "length rs = length results"
    using intervals_release [of "sort_by start_time results"] sorts_length [OF assms(1)] by auto
  show ?thesis
    unfolding report_function_def Let_def
    by (intro prints_lift [OF rs(1)] prints_bind prints_seq print_stats_prints prints_println prints_ret)
      (use assms(2) in \<open>simp_all add: sorts_length [OF assms(1)] rs(2)\<close>)
qed

text \<open>What the header indexes: the options of the function and those of the first one.\<close>

definition reportable :: "SpeedOptions \<Rightarrow> nat \<Rightarrow> bool" where
  "reportable opts i \<longleftrightarrow> i < length (function_names opts) \<and> i < length (offload_frac_num opts) \<and>
     i < length (requests_per_second opts) \<and> input_data opts \<noteq> []"

lemma print_header_prints:
  assumes "reportable opts i"
  shows "prints (print_header fmt opts ndp n monitoring i results errors)"
proof -
  have "offload_frac_num opts \<noteq> []" "requests_per_second opts \<noteq> []" using assms by (auto simp: reportable_def)
  with assms show ?thesis
    unfolding print_header_def Let_def by (auto simp: reportable_def index_vec_def intro!: prints_rules)
qed

lemma print_report_prints:
  assumes "sorts sort_by" "list_all (\<lambda>r. length (fst r) < 2 ^ 64) res" "list_all (reportable opts) [0..<length res]"
  shows "prints (print_report Release sort_by fmt opts ndp n monitoring res)"
proof -
  have "prints (case x of (i, results, errors) \<Rightarrow> seq (print_header fmt opts ndp n monitoring i results errors)
      (report_function Release sort_by fmt opts results))" if "x \<in> set (enumerate 0 res)" for x
  proof -
    obtain i results errors where x: "x = (i, results, errors)" by (cases x)
    with that have i: "i < length res" "res ! i = (results, errors)" by (auto simp: in_set_enumerate_eq)
    then have "reportable opts i" "length (fst (res ! i)) < 2 ^ 64" using assms(2,3) by (auto simp: list_all_length)
    then have "reportable opts i" "length results < 2 ^ 64" using i(2) by simp_all
    with assms(1) show ?thesis by (simp add: x prints_seq print_header_prints report_function_prints)
  qed
  then show ?thesis unfolding print_report_def by (rule prints_for_each)
qed

section \<open>The run returns\<close>

lemma function_plan_reportable:
  assumes "function_plan h read_file opts i = Ok pl"
  shows "reportable opts i"
proof -
  have "input_data opts \<noteq> []" if "function_input read_file opts i = Ok d" for d
    using that by (auto simp: function_input_def index_vec_def expect_opt_def nth_opt_def split: if_splits option.splits)
  with assms show ?thesis
    by (auto simp: function_plan_def reportable_def expect_opt_def nth_opt_eq_Some Let_def split: option.splits)
qed

lemma report_returns:
  assumes "speed_run Release h read_file execute re opts (speed_start opts) sp" "ok_den (offload_frac_den opts)" "clones h"
    and "\<not> oneshot opts" "sorts (re_sort re)" "reporting sp"
  shows "\<exists>sp'. main_next Release re opts None [] (sp_main sp) sp = Some sp' \<and> sp_main sp' = M_Returned"
proof -
  obtain acc where acc: "sp_main sp = M_Gather acc" "length acc = length (sp_fns sp)"
    using assms(6) by (auto simp: reporting_def split: main_pc.splits)
  have fns: "reportable opts i \<and> length (fst (acc ! i)) < 2 ^ 64" if i: "i < length acc" for i
  proof -
    obtain pl n rs where f: "sp_fns sp ! i = F_Done pl n rs" "acc ! i = split_results rs ([], [])"
      using run_gather [OF assms(1)] acc i by (auto simp: gather_inv_def)
    have "fn_ok h read_file opts i (sp_tasks sp) (F_Done pl n rs)"
      using run_counts [OF assms(1-3)] i acc(2) f(1) by (metis count_inv_def)
    then have "function_plan h read_file opts i = Ok pl" "length rs < 2 ^ 63" using assms(4) by (auto simp: counted_def)
    with function_plan_reportable split_results_length [of rs "([], [])"] f(2) show ?thesis by fastforce
  qed
  then have "prints (print_report Release (re_sort re) (re_fmt re) opts (sh_ndp (sp_shared sp)) (sh_total (sp_shared sp))
      (map mo_line (sp_monitors sp)) acc)"
    by (intro print_report_prints assms(5)) (simp_all add: list_all_length)
  then obtain out' where "print_report Release (re_sort re) (re_fmt re) opts (sh_ndp (sp_shared sp)) (sh_total (sp_shared sp))
      (map mo_line (sp_monitors sp)) acc (sp_out sp) = (Ok (), out')" unfolding prints_def by force
  then have "sp_main (main_report Release re opts acc sp) = M_Returned" by (simp add: main_report_def)
  with acc show ?thesis by simp
qed

text \<open>What a release build needs to come to its end; \<open>sorts\<close> is what the unstable sort promises.\<close>

lemma run_can_return:
  assumes "speed_run Release h read_file execute re opts (speed_start opts) sp" "startable Release h read_file execute opts"
    and "clones h" "sorts (re_sort re)" "\<not> ended (sp_main sp)"
  shows "\<exists>cs sp'. schedule Release h read_file execute re opts cs sp = Some sp' \<and> sp_main sp' = M_Returned"
proof -
  have st: "ok_den (offload_frac_den opts)" "\<not> oneshot opts" using assms(2) by (auto simp: startable_def)
  from run_can_report [OF assms(1-3,5)] obtain cs sp1 where
    sp1: "schedule Release h read_file execute re opts cs sp = Some sp1" "reporting sp1" by blast
  have run: "speed_run Release h read_file execute re opts (speed_start opts) sp1" by (rule schedule_run_from [OF assms(1) sp1(1)])
  obtain sp2 where sp2: "main_next Release re opts None [] (sp_main sp1) sp1 = Some sp2" "sp_main sp2 = M_Returned"
    using report_returns [OF run st(1) assms(3) st(2) assms(4) sp1(2)] by blast
  have "\<not> ended (sp_main sp1)" using sp1(2) by (auto simp: reporting_def split: main_pc.splits)
  then have "\<not> halted Release sp1" using run_live [OF run assms(2,3)] by (rule live_not_halted)
  then have "schedule Release h read_file execute re opts (cs @ [C_Main None []]) sp = Some sp2"
    using schedules.run_append [OF sp1(1) schedules.run_one] sp2(1) by simp
  with sp2(2) show ?thesis by blast
qed


lemma run_env_sorts: "sorts (re_sort run_env)"
  by (simp add: sorts_def run_env_def)


end
