(* ===== verification/Speed_Main.thy ===== *)
theory Speed_Main
  imports Speed_Finish Runtime_Setup
begin

text \<open>
  The program around a run of the load generator: the HTTP client and the asynchronous runtime are configured
  by lists of settings and built by their libraries, which are parameters; then \<open>async_main\<close> runs, and its
  result is the result of the process.
\<close>

section \<open>Set-up\<close>

datatype client_setting = NoGzip | NoBrotli | NoDeflate | Referer bool | NoProxy | TimeoutSecs nat | HttpsOnly bool

definition client_settings :: "client_setting list" where
  "client_settings = [NoGzip, NoBrotli, NoDeflate, Referer False, NoProxy, TimeoutSecs 2, HttpsOnly False]"

definition make_client :: "(client_setting list \<Rightarrow> error + http) \<Rightarrow> http outcome" where
  "make_client build = (case build client_settings of Inl e \<Rightarrow> Err e | Inr h \<Rightarrow> Ok h)"

text \<open>A setting may be refused with a panic, and the build may fail.\<close>

definition make_runtime :: "rt_builder \<Rightarrow> SpeedOptions \<Rightarrow> unit outcome" where
  "make_runtime build opts =
    build (if parallelism opts \<le> 1 then CurrentThread else MultiThread)
      [ThreadName ''faasm-request-gen'', WorkerThreads (unat (parallelism opts)), MaxBlockingThreads 1, EnableTime, EnableIo]"

section \<open>The result of the process\<close>

fun exit_of :: "main_pc \<Rightarrow> unit outcome option" where
  "exit_of M_Returned = Some (Ok ())"
| "exit_of (M_Failed e) = Some (Err e)"
| "exit_of (M_Panicked q) = Some (Panic q)"
| "exit_of pc = None"

text \<open>
  \<open>speed_main\<close> holds of the results the process can end with; \<open>sp\<close> is the state of the tasks at that moment, if
  they were started. A panic of another task ends a release build as well, whatever the main task does.
\<close>

inductive speed_main ::
  "profile \<Rightarrow> rt_builder \<Rightarrow> (client_setting list \<Rightarrow> error + http) \<Rightarrow>
   (string \<Rightarrow> io_error + string) \<Rightarrow> (request \<Rightarrow> error + response) \<Rightarrow> report_env \<Rightarrow> SpeedOptions \<Rightarrow>
   unit outcome \<Rightarrow> speed option \<Rightarrow> bool"
  for p build_rt build_client read_file execute re opts where
  no_runtime: "make_runtime build_rt (get_opts opts) = r \<Longrightarrow> r \<noteq> Ok () \<Longrightarrow>
    speed_main p build_rt build_client read_file execute re opts r None"
| no_client: "make_runtime build_rt (get_opts opts) = Ok () \<Longrightarrow> make_client build_client = Err e \<Longrightarrow>
    speed_main p build_rt build_client read_file execute re opts (Err e) None"
| ran: "make_runtime build_rt (get_opts opts) = Ok () \<Longrightarrow> make_client build_client = Ok h \<Longrightarrow>
    speed_run p h read_file execute re (get_opts opts) (speed_start (get_opts opts)) sp \<Longrightarrow> exit_of (sp_main sp) = Some r \<Longrightarrow>
    speed_main p build_rt build_client read_file execute re opts r (Some sp)"
| crashed: "make_runtime build_rt (get_opts opts) = Ok () \<Longrightarrow> make_client build_client = Ok h \<Longrightarrow>
    speed_run p h read_file execute re (get_opts opts) (speed_start (get_opts opts)) sp \<Longrightarrow> p = Release \<Longrightarrow>
    F_Panicked q \<in> set (sp_fns sp) \<or> sp_progress sp = P_Panicked q \<Longrightarrow>
    speed_main p build_rt build_client read_file execute re opts (Panic q) (Some sp)"

section \<open>A successful exit is a complete measurement\<close>

definition complete :: "SpeedOptions \<Rightarrow> speed \<Rightarrow> bool" where
  "complete opts sp \<longleftrightarrow> length (sp_monitors sp) = length (monitor_names opts) \<and> list_all served (sp_monitors sp) \<and>
     list_all is_done (sp_fns sp) \<and> list_all finished (sp_tasks sp)"

definition returned_inv :: "SpeedOptions \<Rightarrow> speed \<Rightarrow> bool" where
  "returned_inv opts sp \<longleftrightarrow> (sp_main sp = M_Returned \<longrightarrow> oneshot opts \<or> complete opts sp)"

lemma done_finished:
  assumes "accounted fns ts" "list_all is_done fns"
  shows "list_all finished ts"
proof -
  have "finished (ts ! j)" if "j < length ts" for j
  proof -
    have "rt_fn (ts ! j) < length fns" "held (fns ! rt_fn (ts ! j)) j (ts ! j)" using assms(1) that by (auto simp: accounted_def)
    moreover from this assms(2) have "is_done (fns ! rt_fn (ts ! j))" by (simp add: list_all_length)
    ultimately show ?thesis by (auto simp: is_done_def)
  qed
  then show ?thesis by (simp add: list_all_length)
qed

lemma main_next_returns:
  assumes "main_next p re opts a l pc sp = Some sp'" "sp_main sp' = M_Returned"
  shows "\<exists>acc. pc = M_Gather acc" "sp_monitors sp' = sp_monitors sp"
  using assms
  by (cases "(p, re, opts, a, l, pc, sp)" rule: main_next.cases;
      auto simp: main_report_def send_byte_def read_line_def Let_def
      split: if_splits option.splits prog_pc.splits fn_pc.splits outcome.splits prod.splits)+

lemma step_returned:
  assumes "speed_step p h read_file execute re opts sp sp'" "connected_inv opts sp" "returned_inv opts sp"
  shows "returned_inv opts sp'"
  using assms(1)
proof cases
  case (fn_moves i pc sh ts)
  have "\<not> list_all is_done (sp_fns sp)" using fn_moves(3,4) by (auto simp: list_all_length is_done_def)
  with assms(3) fn_moves(1) show ?thesis by (auto simp: returned_inv_def complete_def)
next
  case (request_moves j now a rs sh)
  have "\<not> list_all finished (sp_tasks sp)" using request_moves(3,4) by (auto simp: list_all_length finished_def)
  with assms(3) request_moves(1) show ?thesis by (auto simp: returned_inv_def complete_def)
next
  case (main_moves ans l)
  show ?thesis
  proof (cases "sp_main sp' = M_Returned")
    case True
    from main_next_returns [OF main_moves(2) True] obtain acc where
      acc: "sp_main sp = M_Gather acc" and mons: "sp_monitors sp' = sp_monitors sp" by blast
    then have "length (sp_monitors sp) = length (monitor_names opts)" "list_all served (sp_monitors sp)"
      "list_all is_done (sp_fns sp)" "accounted (sp_fns sp) (sp_tasks sp)"
      using assms(2) by (auto simp: connected_inv_def range_inv_def closing_def)
    with mons main_next_frame [OF main_moves(2)] done_finished show ?thesis by (simp add: returned_inv_def complete_def)
  qed (simp add: returned_inv_def)
next
  case barrier
  then show ?thesis by (auto simp: returned_inv_def release_all_def main_release_def)
qed (use assms(3) in \<open>simp add: returned_inv_def complete_def\<close>)

lemma run_returned:
  assumes "speed_run p h read_file execute re opts (speed_start opts) sp"
  shows "returned_inv opts sp"
proof -
  have "returned_inv opts (speed_start opts)" by (simp add: returned_inv_def speed_start_def)
  from speed_run_invariant [where I = "returned_inv opts", OF assms this] step_returned run_connected show ?thesis by blast
qed

lemma done_requests:
  assumes "count_inv h read_file opts sp" "accounted (sp_fns sp) (sp_tasks sp)" "list_all is_done (sp_fns sp)" "\<not> oneshot opts"
  shows "length (sp_tasks sp) = (\<Sum>i < length (sp_fns sp). requests_of h read_file opts i)"
proof -
  have "own i (sp_tasks sp) = requests_of h read_file opts i" if i: "i < length (sp_fns sp)" for i
  proof -
    have "fn_ok h read_file opts i (sp_tasks sp) (sp_fns sp ! i)" "is_done (sp_fns sp ! i)"
      using assms(1,3) i by (auto simp: count_inv_def list_all_length)
    then show ?thesis using assms(4) by (auto simp: is_done_def spawned_def counted_requests)
  qed
  then show ?thesis by (simp add: tasks_by_function [OF accounted_fns [OF assms(2)]])
qed


definition raw_opts :: SpeedOptions where
  "raw_opts = SpeedOptions_default\<lparr>requests_per_second := [f_of_int 2], time := f_of_int 1, offload_frac_den := 2,
     monitoring_hosts := ''node1:8125'', input_data := [''x'']\<rparr>"


end
