(* ===== verification/Experiment.thy ===== *)
theory Experiment
  imports Monitoring Server_Main Speed_Main "HOL-Library.Sublist"
begin

text \<open>
  A whole experiment: the load generator and one monitoring server for every host that its options name, each
  host with a clock and an environment of its own. The programs share nothing but the streams between them:
  a server takes the bytes that the load generator has written in their order and at any later time, and
  the load generator reads what the server has sent. The load generator is the only client of its hosts.
\<close>

section \<open>The composed system\<close>

record host =
  ho_server :: server
  ho_taken :: nat

record trial =
  ex_speed :: speed
  ex_hosts :: "host list"

text \<open>Who moved: the load generator with a choice of its environment, or a host with its action.\<close>

datatype event = Gen choice | Host nat action

text \<open>What has been written to a monitor, and the line that was read from it; nothing before it is connected.\<close>

definition sent_to :: "monitor list \<Rightarrow> nat \<Rightarrow> u8 list" where
  "sent_to ms k = (case nth_opt ms k of None \<Rightarrow> [] | Some m \<Rightarrow> mo_sent m)"

definition line_in :: "monitor list \<Rightarrow> nat \<Rightarrow> string" where
  "line_in ms k = (case nth_opt ms k of None \<Rightarrow> [] | Some m \<Rightarrow> mo_line m)"

abbreviation stream :: "trial \<Rightarrow> nat \<Rightarrow> u8 list" where
  "stream x k \<equiv> sent_to (sp_monitors (ex_speed x)) k"

abbreviation line_of :: "trial \<Rightarrow> nat \<Rightarrow> string" where
  "line_of x k \<equiv> line_in (sp_monitors (ex_speed x)) k"

definition server_of :: "trial \<Rightarrow> nat \<Rightarrow> server" where
  "server_of x k = ho_server (ex_hosts x ! k)"

definition untaken :: "trial \<Rightarrow> nat \<Rightarrow> u8 list" where
  "untaken x k = drop (ho_taken (ex_hosts x ! k)) (stream x k)"

text \<open>The reads of the connection answer with the bytes that are on their way.\<close>

definition wire :: "u8 list \<Rightarrow> server \<Rightarrow> server" where
  "wire bs srv = srv\<lparr>srv_conns := map (apfst (\<lambda>c. c\<lparr>c_reads := map Inr bs\<rparr>)) (srv_conns srv)\<rparr>"

text \<open>What \<open>read_line\<close> returns: a line, or what is left when the other side has gone; otherwise it waits.\<close>

definition line_from :: "server \<Rightarrow> string option" where
  "line_from srv =
    (case srv_conns srv of
       [] \<Rightarrow> if srv_aborted srv then Some [] else None
     | (c, t) # _ \<Rightarrow>
         (let l = take_line (concat (c_sent c)) in
          if CHR 0x0A \<in> set l \<or> t \<noteq> Running \<or> srv_aborted srv then Some l else None))"

text \<open>The process of a failed host was aborted, or it has given up the connection with an error.\<close>

definition host_failed :: "server \<Rightarrow> bool" where
  "host_failed srv \<longleftrightarrow> srv_aborted srv \<or> (case srv_conns srv of [(c, FailedWith e)] \<Rightarrow> True | _ \<Rightarrow> False)"

text \<open>A host that failed before it had sent a packet may have sent a part of one.\<close>

definition may_read :: "server \<Rightarrow> string \<Rightarrow> bool" where
  "may_read srv l \<longleftrightarrow> line_from srv = Some l \<or> host_failed srv \<and> line_from srv = Some [] \<and> CHR 0x0A \<notin> set l"

definition hears :: "trial \<Rightarrow> choice \<Rightarrow> bool" where
  "hears x ch =
    (case ch of C_Main None l \<Rightarrow> (case sp_main (ex_speed x) of M_Read k \<Rightarrow> may_read (server_of x k) l | _ \<Rightarrow> True)
     | _ \<Rightarrow> True)"

definition gone :: "profile \<Rightarrow> speed \<Rightarrow> bool" where
  "gone p sp \<longleftrightarrow> exit_of (sp_main sp) \<noteq> None \<or> halted p sp"

text \<open>
  A host accepts the connection once it is made, ticks at any time, and takes a byte when there is one, or
  the end of the stream when the load generator is gone.
\<close>

inductive trial_step ::
  "profile \<Rightarrow> http \<Rightarrow> (string \<Rightarrow> io_error + string) \<Rightarrow> (request \<Rightarrow> error + response) \<Rightarrow> report_env \<Rightarrow> SpeedOptions \<Rightarrow>
   (nat \<Rightarrow> os) \<Rightarrow> (nat \<Rightarrow> event_order) \<Rightarrow> (f64 \<Rightarrow> string) \<Rightarrow> trial \<Rightarrow> event \<Rightarrow> trial \<Rightarrow> bool"
  for p h read_file execute re opts env order fmt where
  generator_moves:
    "hears x ch \<Longrightarrow> take_choice p h read_file execute re opts ch (ex_speed x) = Some sp \<Longrightarrow>
     trial_step p h read_file execute re opts env order fmt x (Gen ch) (x\<lparr>ex_speed := sp\<rparr>)"
| host_accepts:
    "k < length (ex_hosts x) \<Longrightarrow> k < length (sp_monitors (ex_speed x)) \<Longrightarrow> srv_conns (server_of x k) = [] \<Longrightarrow>
     server_step Release (env k) (order k) fmt (server_of x k) Silent srv \<Longrightarrow> srv_conns srv \<noteq> [] \<Longrightarrow>
     trial_step p h read_file execute re opts env order fmt x (Host k Silent)
       (x\<lparr>ex_hosts := (ex_hosts x)[k := \<lparr>ho_server = srv, ho_taken = 0\<rparr>]\<rparr>)"
| host_ticks:
    "k < length (ex_hosts x) \<Longrightarrow> server_step Release (env k) (order k) fmt (server_of x k) a srv \<Longrightarrow>
     a \<in> {Updated, Silent} \<Longrightarrow> srv_conns srv = srv_conns (server_of x k) \<Longrightarrow>
     trial_step p h read_file execute re opts env order fmt x (Host k a)
       (x\<lparr>ex_hosts := (ex_hosts x)[k := (ex_hosts x ! k)\<lparr>ho_server := srv\<rparr>]\<rparr>)"
| host_reads:
    "k < length (ex_hosts x) \<Longrightarrow> srv_conns (server_of x k) = [(c, Running)] \<Longrightarrow>
     untaken x k \<noteq> [] \<or> gone p (ex_speed x) \<Longrightarrow>
     server_step Release (env k) (order k) fmt (wire (untaken x k) (server_of x k)) a srv \<Longrightarrow>
     length (srv_conns srv) = 1 \<Longrightarrow> srv_conns srv \<noteq> srv_conns (wire (untaken x k) (server_of x k)) \<Longrightarrow>
     trial_step p h read_file execute re opts env order fmt x (Host k a)
       (x\<lparr>ex_hosts := (ex_hosts x)[k := \<lparr>ho_server = srv,
          ho_taken = (if untaken x k = [] then ho_taken (ex_hosts x ! k) else Suc (ho_taken (ex_hosts x ! k)))\<rparr>]\<rparr>)"

inductive trial_run ::
  "profile \<Rightarrow> http \<Rightarrow> (string \<Rightarrow> io_error + string) \<Rightarrow> (request \<Rightarrow> error + response) \<Rightarrow> report_env \<Rightarrow> SpeedOptions \<Rightarrow>
   (nat \<Rightarrow> os) \<Rightarrow> (nat \<Rightarrow> event_order) \<Rightarrow> (f64 \<Rightarrow> string) \<Rightarrow> trial \<Rightarrow> event list \<Rightarrow> trial \<Rightarrow> bool"
  for p h read_file execute re opts env order fmt where
  trial_refl: "trial_run p h read_file execute re opts env order fmt x [] x"
| trial_trans:
    "trial_run p h read_file execute re opts env order fmt x es x1 \<Longrightarrow>
     trial_step p h read_file execute re opts env order fmt x1 e x2 \<Longrightarrow>
     trial_run p h read_file execute re opts env order fmt x (es @ [e]) x2"

interpretation trials: logged_run "trial_step p h read_file execute re opts env order fmt"
  "trial_run p h read_file execute re opts env order fmt" for p h read_file execute re opts env order fmt
proof unfold_locales
  show "trial_run p h read_file execute re opts env order fmt x [] x' \<longleftrightarrow> x' = x" for x x'
    by (auto elim: trial_run.cases intro: trial_refl)
  show "trial_run p h read_file execute re opts env order fmt x (es @ [e]) x' \<longleftrightarrow>
      (\<exists>x1. trial_run p h read_file execute re opts env order fmt x es x1 \<and>
        trial_step p h read_file execute re opts env order fmt x1 e x')" for x es e x'
    by (auto elim: trial_run.cases intro: trial_trans)
qed

definition trial_start :: "SpeedOptions \<Rightarrow> server list \<Rightarrow> trial" where
  "trial_start opts srvs =
    \<lparr>ex_speed = speed_start opts, ex_hosts = map (\<lambda>srv. \<lparr>ho_server = srv, ho_taken = 0\<rparr>) srvs\<rparr>"

text \<open>One started server for every monitor that the options name.\<close>

definition hosts_started ::
  "SpeedOptions \<Rightarrow> (nat \<Rightarrow> os) \<Rightarrow> (nat \<Rightarrow> event_order) \<Rightarrow> (nat \<Rightarrow> Options) \<Rightarrow> (nat \<Rightarrow> world) \<Rightarrow> server list \<Rightarrow> bool" where
  "hosts_started opts env order mopts w0 srvs \<longleftrightarrow> length srvs = length (monitor_names opts) \<and>
     (\<forall>k < length srvs. server_start Release (env k) (order k) (mopts k) (w0 k) = Some (Ok (srvs ! k)) \<and>
        \<not> flocked (w0 k) \<and> iterates (order k) \<and> clean (opt_host_prefix (mopts k)))"

section \<open>What the log tells of a host\<close>

fun host_log :: "nat \<Rightarrow> event list \<Rightarrow> action list" where
  "host_log k [] = []"
| "host_log k (Host j a # es) = (if j = k then a # host_log k es else host_log k es)"
| "host_log k (Gen ch # es) = host_log k es"

fun handled_bytes :: "action list \<Rightarrow> u8 list" where
  "handled_bytes [] = []"
| "handled_bytes (Handled b # as) = b # handled_bytes as"
| "handled_bytes (a # as) = handled_bytes as"

lemma host_log_append [simp]: "host_log k (es @ es') = host_log k es @ host_log k es'"
  by (induction k es rule: host_log.induct) simp_all

lemma handled_bytes_append [simp]: "handled_bytes (as @ as') = handled_bytes as @ handled_bytes as'"
  by (induction as rule: handled_bytes.induct) simp_all

lemma host_log_set: "a \<in> set (host_log k es) \<longleftrightarrow> Host k a \<in> set es"
  by (induction k es rule: host_log.induct) auto

lemma handled_bytes_set: "b \<in> set (handled_bytes as) \<longleftrightarrow> Handled b \<in> set as"
  by (induction as rule: handled_bytes.induct) auto

lemma handled_bytes_nil: "handled_bytes as = [] \<longleftrightarrow> (\<forall>b. Handled b \<notin> set as)"
  using handled_bytes_set by (metis list.set_intros(1) list.exhaust empty_iff list.set(1))

section \<open>The load generator in the experiment\<close>

lemma trial_speed_run:
  assumes "trial_run p h read_file execute re opts env order fmt x es x'" "ex_speed x = speed_start opts"
  shows "speed_run p h read_file execute re opts (speed_start opts) (ex_speed x')"
proof (rule trials.run_invariant [where I = "\<lambda>x. speed_run p h read_file execute re opts (speed_start opts) (ex_speed x)", OF assms(1)])
  fix e and x1 x2 :: trial
  assume run: "speed_run p h read_file execute re opts (speed_start opts) (ex_speed x1)"
  assume "trial_step p h read_file execute re opts env order fmt x1 e x2"
  then show "speed_run p h read_file execute re opts (speed_start opts) (ex_speed x2)"
  proof cases
    case (generator_moves ch sp)
    then have "speed_step p h read_file execute re opts (ex_speed x1) sp" using step_iff_choice by blast
    with run generator_moves show ?thesis by (simp add: speed_trans)
  qed (use run in simp_all)
qed (simp add: assms(2) speed_refl)

text \<open>A stream only grows, and the line of a monitor is kept when it has been read.\<close>

lemma sent_to_simps [simp]:
  "sent_to (ms @ [\<lparr>mo_sent = [], mo_line = l\<rparr>]) k = sent_to ms k"
  "sent_to (ms[j := (ms ! j)\<lparr>mo_line := l\<rparr>]) k = sent_to ms k"
  "sent_to (ms[j := (ms ! j)\<lparr>mo_sent := mo_sent (ms ! j) @ bs\<rparr>]) k = sent_to ms k @ (if j = k \<and> k < length ms then bs else [])"
  by (cases "j = k"; auto simp: sent_to_def nth_opt_def nth_append)+

lemma line_in_simps [simp]:
  "line_in (ms @ [\<lparr>mo_sent = bs, mo_line = []\<rparr>]) k = line_in ms k"
  "line_in (ms[j := (ms ! j)\<lparr>mo_line := l\<rparr>]) k = (if j = k \<and> k < length ms then l else line_in ms k)"
  "line_in (ms[j := (ms ! j)\<lparr>mo_sent := bs\<rparr>]) k = line_in ms k"
  by (cases "j = k"; auto simp: line_in_def nth_opt_def nth_append)+

lemma main_next_streams:
  assumes "main_next p re opts a l pc sp = Some sp'" "sp_main sp = pc"
  shows "prefix (sent_to (sp_monitors sp) k) (sent_to (sp_monitors sp') k)"
    and "line_in (sp_monitors sp') k = line_in (sp_monitors sp) k \<or>
      (a = None \<and> pc = M_Read k \<and> line_in (sp_monitors sp') k = l)"
  using assms
  by (cases "(p, re, opts, a, l, pc, sp)" rule: main_next.cases;
      auto simp: main_report_def send_byte_def read_line_def Let_def
      split: if_splits option.splits prog_pc.splits fn_pc.splits outcome.splits prod.splits)+

text \<open>The bytes on a stream are the three of a session, in their order, also when the run has ended early.\<close>

definition session :: "u8 list" where
  "session = [0x5B, 0x5D, 0x71]"

lemma monitors_at_session:
  assumes "monitors_at pc ms" "main_phase pc \<noteq> None"
  shows "list_all (\<lambda>m. prefix (mo_sent m) session) ms"
proof -
  have split: "list_all P ms" if "list_all P (take j ms)" "list_all P (drop j ms)" for P j
    using that by (metis append_take_drop_id list_all_append)
  have all: "untouched m \<Longrightarrow> prefix (mo_sent m) session" "only_opened m \<Longrightarrow> prefix (mo_sent m) session"
    "served m \<Longrightarrow> prefix (mo_sent m) session" for m
    by (simp_all add: untouched_def only_opened_def served_def session_def)
  have imp: "list_all Q xs" if "list_all P xs" "\<And>m. P m \<Longrightarrow> Q m" for P Q and xs :: "monitor list"
    using that by (auto simp: list_all_iff)
  have two: "list_all (\<lambda>m. prefix (mo_sent m) session) ms"
    if "list_all P (take j ms)" "list_all Q (drop j ms)" "P \<in> {only_opened, served}" "Q \<in> {untouched, only_opened}" for P Q j
    using that all by (intro split [of _ j]) (auto intro: imp)
  have mid: "list_all (\<lambda>m. prefix (mo_sent m) session) ms"
    if "j < length ms" "list_all served (take j ms)" "mo_sent (ms ! j) = [0x5B, 0x5D]" "list_all only_opened (drop (Suc j) ms)" for j
    using that imp [OF that(2) all(3)] imp [OF that(4) all(2)]
    by (intro split [of _ j]) (simp_all add: Cons_nth_drop_Suc [symmetric] session_def)
  show ?thesis
    using assms all imp mid two by (cases pc) (auto 4 2)
qed

lemma main_next_ends:
  assumes "main_next p re opts a l pc sp = Some sp'" "main_phase (sp_main sp') = None"
  shows "sp_monitors sp' = sp_monitors sp"
  using assms
  by (cases "(p, re, opts, a, l, pc, sp)" rule: main_next.cases)
    (auto simp: main_report_def send_byte_def read_line_def Let_def
      split: if_splits option.splits prog_pc.splits fn_pc.splits outcome.splits prod.splits)

lemma run_session:
  assumes "speed_run p h read_file execute re opts (speed_start opts) sp"
  shows "prefix (sent_to (sp_monitors sp) k) session"
proof -
  have "list_all (\<lambda>m. prefix (mo_sent m) session) (sp_monitors sp)"
  proof (rule speed_run_invariant [OF assms])
    fix sp1 sp2
    assume run: "speed_run p h read_file execute re opts (speed_start opts) sp1"
      and step: "speed_step p h read_file execute re opts sp1 sp2"
      and old: "list_all (\<lambda>m. prefix (mo_sent m) session) (sp_monitors sp1)"
    have inv: "range_inv sp2" by (rule run_range_inv [OF speed_trans [OF run step] start_range_inv])
    show "list_all (\<lambda>m. prefix (mo_sent m) session) (sp_monitors sp2)"
    proof (cases "main_phase (sp_main sp2) = None")
      case False
      with inv monitors_at_session show ?thesis by (auto simp: range_inv_def)
    next
      case True
      from step have "sp_monitors sp2 = sp_monitors sp1"
        by cases (use True main_next_ends in \<open>auto simp: release_all_def\<close>)
      with old show ?thesis by simp
    qed
  qed (simp add: speed_start_def)
  then show ?thesis by (auto simp: sent_to_def nth_opt_def list_all_length)
qed

section \<open>A turn of a host\<close>

lemma conn_iteration_sent:
  assumes "conn_iteration p env order fmt ((s, c), w) = (r, ((s', c'), w'))" "c_reads c = Inr b # rs"
    and "handle_byte p env order fmt b (s, w) = (r1, (s1, w1))"
  shows "c_sent c' = c_sent c \<and> (\<forall>k pkt. r1 = Ok (k, Some pkt) \<longrightarrow> (\<exists>e. r = Err e)) \<or>
      (\<exists>k. r1 = Ok (k, Some (stat_packet fmt s1)) \<and> c_sent c' = c_sent c @ [stat_packet fmt s1])"
    and "(case r1 of Ok (k, out) \<Rightarrow> r = Ok k \<or> (\<exists>e. r = Err e) | Err e \<Rightarrow> r = Err e | Panic q \<Rightarrow> r = Panic q)"
    and "c_shutdown c' = c_shutdown c"
proof -
  note run_defs = conn_iteration_def read_byte_def bind_def seq_def get_state_def gets_def on_state_def modify_def
    lift_o_def within_def zoom_def
  have wr: "(r2 = Ok () \<and> c_sent c2 = c_sent c0 @ [pkt] \<or> (\<exists>e. r2 = Err e) \<and> c_sent c2 = c_sent c0) \<and> c_shutdown c2 = c_shutdown c0"
    if "write_all pkt ((s0, c0), w0) = (r2, ((s2, c2), w2))" for pkt s0 c0 w0 r2 s2 c2 w2
    using that by (auto simp: write_all_def bind_def seq_def get_state_def gets_def on_state_def modify_def lift_o_def io_unit_def
        split: list.splits option.splits)
  show "c_sent c' = c_sent c \<and> (\<forall>k pkt. r1 = Ok (k, Some pkt) \<longrightarrow> (\<exists>e. r = Err e)) \<or>
      (\<exists>k. r1 = Ok (k, Some (stat_packet fmt s1)) \<and> c_sent c' = c_sent c @ [stat_packet fmt s1])"
    and "(case r1 of Ok (k, out) \<Rightarrow> r = Ok k \<or> (\<exists>e. r = Err e) | Err e \<Rightarrow> r = Err e | Panic q \<Rightarrow> r = Panic q)"
    and "c_shutdown c' = c_shutdown c"
  proof (atomize(full), cases r1)
    case (Ok x)
    obtain k out where x: "x = (k, out)" by (cases x)
    show "(c_sent c' = c_sent c \<and> (\<forall>k pkt. r1 = Ok (k, Some pkt) \<longrightarrow> (\<exists>e. r = Err e)) \<or>
      (\<exists>k. r1 = Ok (k, Some (stat_packet fmt s1)) \<and> c_sent c' = c_sent c @ [stat_packet fmt s1])) \<and>
      (case r1 of Ok (k, out) \<Rightarrow> r = Ok k \<or> (\<exists>e. r = Err e) | Err e \<Rightarrow> r = Err e | Panic q \<Rightarrow> r = Panic q) \<and>
      c_shutdown c' = c_shutdown c"
    proof (cases out)
      case None
      with assms Ok x show ?thesis by (auto simp: run_defs)
    next
      case (Some pkt)
      have pkt: "pkt = stat_packet fmt s1" using handle_byte_packet assms(3) Ok x Some by blast
      obtain r2 s2 c2 w2 where w: "write_all pkt ((s1, c\<lparr>c_reads := rs\<rparr>), w1) = (r2, ((s2, c2), w2))" by (metis prod.exhaust)
      from wr [OF w] assms Ok x Some w pkt show ?thesis by (cases r2) (auto simp: run_defs)
    qed
  qed (use assms in \<open>auto simp: run_defs\<close>)
qed

lemma host_turn:
  assumes "server_step Release env order fmt (wire bs srv) a srv'" "srv_conns srv = [(c, Running)]"
    and "length (srv_conns srv') = 1" "srv_conns srv' \<noteq> srv_conns (wire bs srv)"
  shows "\<exists>c' t'. srv_conns srv' = [(c', t')] \<and>
    (case bs of [] \<Rightarrow> a = Silent \<and> (\<exists>e. t' = FailedWith e) \<and> c_sent c' = c_sent c
     | b # _ \<Rightarrow> (a = Handled b \<or> a = Silent \<and> (srv_aborted srv' \<or> (\<exists>e. t' = FailedWith e))) \<and>
        (c_sent c' = c_sent c \<or> a = Handled b \<and> wants_packet b \<and> \<not> srv_aborted srv' \<and>
           c_sent c' = c_sent c @ [stat_packet fmt (srv_stats srv')]) \<and>
        (wants_packet b \<and> t' = Running \<longrightarrow> c_sent c' \<noteq> []) \<and> (t' = Finished \<longrightarrow> b = 0x71) \<and>
        (t' = Running \<or> t' = Finished \<or> srv_aborted srv' \<or> (\<exists>e. t' = FailedWith e)))"
  using assms(1)
proof cases
  case (turn i d r s c' w)
  have w: "srv_conns (wire bs srv) = [(c\<lparr>c_reads := map Inr bs\<rparr>, Running)]" using assms(2) by (simp add: wire_def)
  with turn have i: "i = 0" and d: "d = c\<lparr>c_reads := map Inr bs\<rparr>" by simp_all
  show ?thesis
  proof (cases bs)
    case Nil
    have "c_reads d = []" using Nil d by simp
    from conn_iteration_eof [OF this] turn(6) have "r = Err UnexpectedEof" "c' = d" by simp_all
    with turn i d w Nil show ?thesis by (simp add: after_turn_def turn_action_def)
  next
    case (Cons b bs')
    obtain r1 s1 w1 where h: "handle_byte Release env order fmt b (srv_stats (wire bs srv), srv_world (wire bs srv)) = (r1, (s1, w1))"
      by (metis prod.exhaust)
    have rd: "c_reads d = Inr b # map Inr bs'" using Cons d by simp
    note res = conn_iteration_sent [OF turn(6) rd h] conn_iteration_byte [OF turn(6) rd h]
    have a: "a = (case r1 of Ok _ \<Rightarrow> Handled b | _ \<Rightarrow> Silent)" using turn(1) rd h by (simp add: turn_action_def)
    have wants: "wants_packet b = (\<exists>pkt. out = Some pkt)" if "r1 = Ok (k, out)" for k out
      using that h by (auto simp: handle_byte_def seq_eq_Ok bind_eq_Ok wants_packet_def split: if_splits)
    have brk: "b = 0x71" if "r1 = Ok (Break, out)" for out
      using that h by (auto simp: handle_byte_def seq_eq_Ok bind_eq_Ok split: if_splits)
    have s': "srv_stats srv' = s" using turn(2) by (simp add: after_turn_def panic_effect_def Let_def split: outcome.splits control.splits)
    show ?thesis
    proof (cases r1)
      case (Ok x)
      obtain k out where x: "x = (k, out)" by (cases x)
      with res(2) Ok have r: "r = Ok k \<or> (\<exists>e. r = Err e)" by simp
      have "c_sent c' = c_sent c \<or> wants_packet b \<and> c_sent c' = c_sent c @ [stat_packet fmt (srv_stats srv')]"
        using res(1,4) d s' Ok x wants by auto
      moreover have "c_sent c' \<noteq> []" if "wants_packet b" "r = Ok k"
        using that res(1) Ok x wants by auto
      ultimately show ?thesis using turn(2,3) i w a Ok x r brk Cons
        by (cases k) (auto simp: after_turn_def Let_def split: option.splits)
    qed (use turn(2) i d w a res Cons in \<open>auto simp: after_turn_def panic_effect_def Let_def\<close>)
  qed
qed (use assms in \<open>auto simp: wire_def after_tick_def panic_effect_def accepted_def split: outcome.splits\<close>)


section \<open>The invariant of a host\<close>

text \<open>
  A packet is measured when it is the packet of the statistics that the host had right after it closed a
  range, in the middle of the log, with no other range byte since the range was opened.
\<close>

definition measured :: "(event list \<Rightarrow> trial \<Rightarrow> bool) \<Rightarrow> (f64 \<Rightarrow> string) \<Rightarrow> nat \<Rightarrow> event list \<Rightarrow> string \<Rightarrow> bool" where
  "measured run fmt k es pkt \<longleftrightarrow> (\<exists>xs ys zs x. es = xs @ Host k (Handled 0x5B) # ys @ Host k (Handled 0x5D) # zs \<and>
     Host k (Handled 0x5B) \<notin> set ys \<and> Host k (Handled 0x5D) \<notin> set ys \<and>
     run (xs @ Host k (Handled 0x5B) # ys @ [Host k (Handled 0x5D)]) x \<and> \<not> srv_aborted (server_of x k) \<and>
     pkt = stat_packet fmt (srv_stats (server_of x k)))"

definition conn_sound ::
  "(event list \<Rightarrow> trial \<Rightarrow> bool) \<Rightarrow> (f64 \<Rightarrow> string) \<Rightarrow> nat \<Rightarrow> event list \<Rightarrow> trial \<Rightarrow> conn \<Rightarrow> task \<Rightarrow> bool" where
  "conn_sound run fmt k es x c t \<longleftrightarrow>
     (t = Running \<and> \<not> srv_aborted (server_of x k) \<longrightarrow>
        length (handled_bytes (host_log k es)) = ho_taken (ex_hosts x ! k)) \<and>
     (t = Finished \<and> \<not> srv_aborted (server_of x k) \<longrightarrow> 0x71 \<in> set (handled_bytes (host_log k es))) \<and>
     (t = Running \<or> t = Finished \<or> srv_aborted (server_of x k) \<or> (\<exists>e. t = FailedWith e)) \<and>
     (t = Running \<and> \<not> srv_aborted (server_of x k) \<and> 0x5D \<in> set (handled_bytes (host_log k es)) \<longrightarrow> c_sent c \<noteq> []) \<and>
     list_all (measured run fmt k es) (c_sent c)"

definition host_inv :: "(event list \<Rightarrow> trial \<Rightarrow> bool) \<Rightarrow> (f64 \<Rightarrow> string) \<Rightarrow> string \<Rightarrow> nat \<Rightarrow> event list \<Rightarrow> trial \<Rightarrow> bool" where
  "host_inv run fmt hp k es x \<longleftrightarrow>
     server_inv hp (server_of x k) \<and>
     (\<not> srv_aborted (server_of x k) \<longrightarrow> range_rel (fold abs_action (host_log k es) (False, 0)) (srv_stats (server_of x k))) \<and>
     prefix (handled_bytes (host_log k es)) (stream x k) \<and>
     (case srv_conns (server_of x k) of
        [] \<Rightarrow> handled_bytes (host_log k es) = []
      | [(c, t)] \<Rightarrow> conn_sound run fmt k es x c t
      | _ \<Rightarrow> False)"

lemma measured_later: "measured run fmt k es pkt \<Longrightarrow> measured run fmt k (es @ es') pkt"
  unfolding measured_def by (metis append.assoc append_Cons)

lemma conn_sound_later:
  assumes "conn_sound run fmt k es x c t" "host_log k es' = []"
    and "server_of x' k = server_of x k" "ho_taken (ex_hosts x' ! k) = ho_taken (ex_hosts x ! k)"
  shows "conn_sound run fmt k (es @ es') x' c t"
  using assms by (auto simp: conn_sound_def list_all_iff intro: measured_later)

lemma host_inv_later:
  assumes "host_inv run fmt hp k es x" "host_log k es' = []" "prefix (stream x k) (stream x' k)"
    and "server_of x' k = server_of x k" "ho_taken (ex_hosts x' ! k) = ho_taken (ex_hosts x ! k)"
  shows "host_inv run fmt hp k (es @ es') x'"
  using assms conn_sound_later [of run fmt k es x _ _ es' x']
  by (auto simp: host_inv_def intro: prefix_order.trans split: list.splits)

lemma take_choice_streams:
  assumes "take_choice p h read_file execute re opts ch sp = Some sp'"
  shows "prefix (sent_to (sp_monitors sp) k) (sent_to (sp_monitors sp') k)"
    and "line_in (sp_monitors sp') k = line_in (sp_monitors sp) k \<or>
      (\<exists>l. ch = C_Main None l \<and> sp_main sp = M_Read k \<and> line_in (sp_monitors sp') k = l)"
proof (atomize(full), cases ch)
  case (C_Main a l)
  then have "main_next p re opts a l (sp_main sp) sp = Some sp'" using assms by (simp split: if_splits)
  from main_next_streams [OF this refl] C_Main
  show "prefix (sent_to (sp_monitors sp) k) (sent_to (sp_monitors sp') k) \<and>
    (line_in (sp_monitors sp') k = line_in (sp_monitors sp) k \<or>
      (\<exists>l. ch = C_Main None l \<and> sp_main sp = M_Read k \<and> line_in (sp_monitors sp') k = l))" by blast
qed (use assms in \<open>auto simp: release_all_def split: if_splits\<close>)

lemma step_other:
  assumes "trial_step p h read_file execute re opts env order fmt x e x'" "host_log k [e] = []"
  shows "prefix (stream x k) (stream x' k)" "server_of x' k = server_of x k"
    "ho_taken (ex_hosts x' ! k) = ho_taken (ex_hosts x ! k)" "length (ex_hosts x') = length (ex_hosts x)"
proof -
  from assms(1) have "prefix (stream x k) (stream x' k) \<and> server_of x' k = server_of x k \<and>
    ho_taken (ex_hosts x' ! k) = ho_taken (ex_hosts x ! k) \<and> length (ex_hosts x') = length (ex_hosts x)"
  proof cases
    case (generator_moves ch sp)
    with take_choice_streams(1) [OF generator_moves(4)] show ?thesis by (simp add: server_of_def)
  qed (use assms(2) in \<open>auto simp: server_of_def split: if_splits\<close>)
  then show "prefix (stream x k) (stream x' k)" "server_of x' k = server_of x k"
    "ho_taken (ex_hosts x' ! k) = ho_taken (ex_hosts x ! k)" "length (ex_hosts x') = length (ex_hosts x)" by simp_all
qed


lemma server_inv_wire [simp]: "server_inv hp (wire bs srv) = server_inv hp srv"
  by (simp add: server_inv_def wire_def list_all_iff)

lemma wire_fields [simp]: "srv_stats (wire bs srv) = srv_stats srv" "srv_aborted (wire bs srv) = srv_aborted srv"
  by (simp_all add: wire_def)

lemma split_log:
  assumes "handled_bytes (host_log k es) = [b]"
  obtains xs ys where "es = xs @ Host k (Handled b) # ys" "\<And>b'. Host k (Handled b') \<notin> set ys"
proof -
  have "b \<in> set (handled_bytes (host_log k es))" using assms by simp
  then have "Host k (Handled b) \<in> set es" by (simp only: handled_bytes_set host_log_set)
  then obtain xs ys where es: "es = xs @ Host k (Handled b) # ys" by (meson split_list)
  with assms have "handled_bytes (host_log k ys) = []" by (cases "handled_bytes (host_log k xs)") auto
  then have "Host k (Handled b') \<notin> set ys" for b' by (simp add: handled_bytes_nil host_log_set)
  with es that show thesis by blast
qed

text \<open>On a session, the byte that is answered closes the range that was opened.\<close>

lemma session_packet:
  assumes "prefix (bs @ [b]) session" "wants_packet b"
  shows "b = 0x5D \<and> bs = [0x5B]"
  using assms by (auto simp: session_def wants_packet_def prefix_Cons Cons_eq_append_conv append_eq_Cons_conv)

lemma measured_now:
  assumes "handled_bytes (host_log k es) = [0x5B]" "run (es @ [Host k (Handled 0x5D)]) x" "\<not> srv_aborted (server_of x k)"
  shows "measured run fmt k (es @ [Host k (Handled 0x5D)]) (stat_packet fmt (srv_stats (server_of x k)))"
proof -
  obtain xs ys where "es = xs @ Host k (Handled 0x5B) # ys" "\<And>b'. Host k (Handled b') \<notin> set ys"
    using split_log [OF assms(1)] by blast
  with assms(2,3) show ?thesis
    unfolding measured_def by (intro exI [of _ xs] exI [of _ ys] exI [of _ "[]"] exI [of _ x]) simp
qed

lemma host_server_moves:
  assumes "server_step Release env order fmt srv a srv'" "server_inv hp srv" "iterates order"
    and "\<And>y. set (fmt y) \<subseteq> float_chars" "clean hp" "range_rel (fold abs_action as (False, 0)) (srv_stats srv)"
  shows "server_inv hp srv'" "\<not> srv_aborted srv' \<longrightarrow> range_rel (fold abs_action (as @ [a]) (False, 0)) (srv_stats srv')"
  using server_step_inv [OF assms(1-5)] server_step_refines [OF assms(1-3) _ assms(6)] by simp_all

lemma host_reads_sound:
  assumes "conn_sound run fmt k es x c Running" "\<not> srv_aborted (server_of x k)" "prefix (handled_bytes (host_log k es)) (stream x k)"
    and "srv_conns (server_of x k) = [(c, Running)]" "prefix (stream x k) session"
    and "server_step Release (env k) (order k) fmt (wire (untaken x k) (server_of x k)) a srv"
    and "length (srv_conns srv) = 1" "srv_conns srv \<noteq> srv_conns (wire (untaken x k) (server_of x k))"
    and "server_of x' k = srv" "ho_taken (ex_hosts x' ! k) = (if untaken x k = [] then ho_taken (ex_hosts x ! k) else Suc (ho_taken (ex_hosts x ! k)))"
    and "stream x' k = stream x k" "run (es @ [Host k a]) x'"
  shows "prefix (handled_bytes (host_log k (es @ [Host k a]))) (stream x' k) \<and>
    (\<exists>c' t'. srv_conns srv = [(c', t')] \<and> conn_sound run fmt k (es @ [Host k a]) x' c' t')"
proof -
  let ?bytes = "handled_bytes (host_log k es)"
  have taken: "length ?bytes = ho_taken (ex_hosts x ! k)" and old: "list_all (measured run fmt k (es @ [Host k a])) (c_sent c)"
    using assms(1,2) by (auto simp: conn_sound_def list_all_iff intro: measured_later)
  have stream: "stream x k = ?bytes @ untaken x k"
    using assms(3) taken by (metis untaken_def append_eq_conv_conj prefix_def)
  from host_turn [OF assms(6,4,7,8)] obtain c' t' where conns: "srv_conns srv = [(c', t')]"
    and res: "case untaken x k of [] \<Rightarrow> a = Silent \<and> (\<exists>e. t' = FailedWith e) \<and> c_sent c' = c_sent c
     | b # _ \<Rightarrow> (a = Handled b \<or> a = Silent \<and> (srv_aborted srv \<or> (\<exists>e. t' = FailedWith e))) \<and>
        (c_sent c' = c_sent c \<or> a = Handled b \<and> wants_packet b \<and> \<not> srv_aborted srv \<and>
           c_sent c' = c_sent c @ [stat_packet fmt (srv_stats srv)]) \<and>
        (wants_packet b \<and> t' = Running \<longrightarrow> c_sent c' \<noteq> []) \<and> (t' = Finished \<longrightarrow> b = 0x71) \<and>
        (t' = Running \<or> t' = Finished \<or> srv_aborted srv \<or> (\<exists>e. t' = FailedWith e))" by blast
  have "prefix (handled_bytes (host_log k (es @ [Host k a]))) (stream x' k) \<and> conn_sound run fmt k (es @ [Host k a]) x' c' t'"
  proof (cases "untaken x k")
    case Nil
    with res old assms(3,11) show ?thesis by (auto simp: conn_sound_def)
  next
    case (Cons b bs)
    have new: "list_all (measured run fmt k (es @ [Host k a])) (c_sent c')"
    proof (cases "c_sent c' = c_sent c")
      case False
      with res Cons have a: "a = Handled b" "wants_packet b" "\<not> srv_aborted srv" "c_sent c' = c_sent c @ [stat_packet fmt (srv_stats srv)]" by simp_all
      have "prefix (?bytes @ [b]) session" using stream Cons assms(5) by (auto simp: prefix_def)
      from session_packet [OF this a(2)] a(1,3) assms(9,12) have "measured run fmt k (es @ [Host k a]) (stat_packet fmt (srv_stats (server_of x' k)))"
        by (auto intro: measured_now)
      with old a(4) assms(9) show ?thesis by simp
    qed (use old in simp)
    have "prefix (handled_bytes (host_log k (es @ [Host k a]))) (stream x' k)"
      using res Cons assms(11) stream by auto
    moreover have "conn_sound run fmt k (es @ [Host k a]) x' c' t'"
      using res Cons new taken assms(1,2,9,10) by (auto simp: conn_sound_def wants_packet_def)
    ultimately show ?thesis ..
  qed
  with conns show ?thesis by blast
qed


lemma own_step_inv:
  assumes "trial_step p h read_file execute re opts env order fmt x (Host k a) x'" "host_inv run fmt hp k es x"
    and "iterates (order k)" "\<And>y. set (fmt y) \<subseteq> float_chars" "clean hp"
    and "prefix (stream x k) session" "run (es @ [Host k a]) x'"
  shows "host_inv run fmt hp k (es @ [Host k a]) x'"
proof -
  let ?srv = "server_of x k"
  have inv: "server_inv hp ?srv" "\<not> srv_aborted ?srv \<longrightarrow> range_rel (fold abs_action (host_log k es) (False, 0)) (srv_stats ?srv)"
    "prefix (handled_bytes (host_log k es)) (stream x k)"
    "case srv_conns ?srv of [] \<Rightarrow> handled_bytes (host_log k es) = [] | [(c, t)] \<Rightarrow> conn_sound run fmt k es x c t | _ \<Rightarrow> False"
    using assms(2) by (simp_all add: host_inv_def)
  have moves: "server_inv hp srv' \<and> (\<not> srv_aborted srv' \<longrightarrow> range_rel (fold abs_action (host_log k (es @ [Host k a])) (False, 0)) (srv_stats srv'))"
    if "server_step Release (env k) (order k) fmt srv a srv'" "srv = ?srv \<or> srv = wire (untaken x k) ?srv" for srv srv'
    using host_server_moves [OF that(1) _ assms(3-5), of "host_log k es"] step_not_aborted [OF that(1)] that(2) inv(1,2) by auto
  from assms(1) show ?thesis
  proof cases
    case (host_accepts srv)
    from host_accepts(6) obtain c where c: "srv_conns srv = [accepted c]" "c_sent c = []"
      by cases (use host_accepts(5,7) in \<open>auto simp: after_tick_def panic_effect_def split: outcome.splits\<close>)
    have "server_of x' k = srv" "ho_taken (ex_hosts x' ! k) = 0" "stream x' k = stream x k"
      using host_accepts by (simp_all add: server_of_def)
    moreover have "handled_bytes (host_log k es) = []" using inv(4) host_accepts(5) by simp
    ultimately show ?thesis
      using moves [OF host_accepts(6)[folded host_accepts(1)]] host_accepts(1) c
      by (auto simp: host_inv_def conn_sound_def accepted_def split: option.splits)
  next
    case (host_ticks srv)
    have x': "server_of x' k = srv" "ho_taken (ex_hosts x' ! k) = ho_taken (ex_hosts x ! k)" "stream x' k = stream x k"
      using host_ticks by (simp_all add: server_of_def)
    have bytes: "handled_bytes (host_log k (es @ [Host k a])) = handled_bytes (host_log k es)" using host_ticks(4) by auto
    have "conn_sound run fmt k (es @ [Host k a]) x' c t" if "conn_sound run fmt k es x c t" for c t
      using that step_not_aborted [OF host_ticks(3)] bytes x' by (auto simp: conn_sound_def list_all_iff intro: measured_later)
    with moves [OF host_ticks(3)] inv(3,4) x' bytes host_ticks(5) show ?thesis
      by (auto simp: host_inv_def split: list.splits)
  next
    case (host_reads c srv)
    have x': "server_of x' k = srv" "stream x' k = stream x k"
      "ho_taken (ex_hosts x' ! k) = (if untaken x k = [] then ho_taken (ex_hosts x ! k) else Suc (ho_taken (ex_hosts x ! k)))"
      using host_reads by (simp_all add: server_of_def)
    have "\<not> srv_aborted ?srv" using step_not_aborted [OF host_reads(5)] by simp
    moreover have "conn_sound run fmt k es x c Running" using inv(4) host_reads(3) by simp
    ultimately obtain c' t' where "prefix (handled_bytes (host_log k (es @ [Host k a]))) (stream x' k)"
        "srv_conns srv = [(c', t')]" "conn_sound run fmt k (es @ [Host k a]) x' c' t'"
      using host_reads_sound [where run = run and env = env and order = order, OF _ _ inv(3) host_reads(3) assms(6) host_reads(5-7) x'(1,3,2) assms(7)] by blast
    with moves [OF host_reads(5)] x' show ?thesis by (simp add: host_inv_def)
  qed
qed

lemma step_host_inv:
  assumes "trial_step p h read_file execute re opts env order fmt x e x'" "host_inv run fmt hp k es x"
    and "iterates (order k)" "\<And>y. set (fmt y) \<subseteq> float_chars" "clean hp"
    and "prefix (stream x k) session" "run (es @ [e]) x'"
  shows "host_inv run fmt hp k (es @ [e]) x'"
proof (cases "host_log k [e] = []")
  case True
  from host_inv_later [OF assms(2) True] step_other [OF assms(1) True] show ?thesis by blast
next
  case False
  then obtain a where "e = Host k a" by (cases e) (auto split: if_splits)
  with own_step_inv [of p h read_file execute re opts env order fmt x k a x' run hp es] assms show ?thesis by blast
qed

lemma server_start_conns: "server_start p env order opts w = Some (Ok srv) \<Longrightarrow> srv_conns srv = []"
  by (auto simp: server_start_def split: option.splits prod.splits outcome.splits)

lemma start_host_inv:
  assumes "hosts_started opts env order mopts w0 srvs" "k < length srvs"
  shows "host_inv run fmt (opt_host_prefix (mopts k)) k [] (trial_start opts srvs)"
proof -
  have st: "server_start Release (env k) (order k) (mopts k) (w0 k) = Some (Ok (srvs ! k))" "\<not> flocked (w0 k)" "iterates (order k)"
    using assms by (auto simp: hosts_started_def)
  from server_start_conns [OF st(1)] server_start_inv [OF st(1,3,2)] server_start_range [OF st(1,3)] assms(2) show ?thesis
    by (simp add: host_inv_def trial_start_def server_of_def)
qed

lemma run_hosts:
  assumes "trial_run p h read_file execute re opts env order fmt x es x'"
  shows "length (ex_hosts x') = length (ex_hosts x)"
  by (rule trials.run_invariant [where I = "\<lambda>x'. length (ex_hosts x') = length (ex_hosts x)", OF assms])
    (auto elim!: trial_step.cases)

lemma run_host_inv:
  assumes "hosts_started opts env order mopts w0 srvs" "k < length srvs" "\<And>y. set (fmt y) \<subseteq> float_chars"
    and "trial_run p h read_file execute re opts env order fmt (trial_start opts srvs) es x"
  shows "host_inv (trial_run p h read_file execute re opts env order fmt (trial_start opts srvs)) fmt (opt_host_prefix (mopts k)) k es x"
proof (rule trials.run_log_invariant [OF assms(4)])
  let ?run = "trial_run p h read_file execute re opts env order fmt (trial_start opts srvs)"
  show "host_inv ?run fmt (opt_host_prefix (mopts k)) k [] (trial_start opts srvs)" by (rule start_host_inv [OF assms(1,2)])
  fix es e x1 x2
  assume run: "?run es x1" and inv: "host_inv ?run fmt (opt_host_prefix (mopts k)) k es x1"
    and step: "trial_step p h read_file execute re opts env order fmt x1 e x2"
  have st: "iterates (order k)" "clean (opt_host_prefix (mopts k))" using assms(1,2) by (auto simp: hosts_started_def)
  have "prefix (stream x1 k) session" using run_session [OF trial_speed_run [OF run]] by (simp add: trial_start_def)
  from step_host_inv [where run = ?run, OF step inv st(1) assms(3) st(2) this trial_trans [OF run step]]
  show "host_inv ?run fmt (opt_host_prefix (mopts k)) k (es @ [e]) x2" .
qed

section \<open>The lines that were read\<close>

text \<open>A packet once sent stays the first, and a host that has failed never recovers.\<close>

lemma host_step_grows:
  assumes "trial_step p h read_file execute re opts env order fmt x (Host j a) x'"
  shows "srv_conns (server_of x k) = [(c, t)] \<Longrightarrow> \<exists>c' t'. srv_conns (server_of x' k) = [(c', t')] \<and> prefix (c_sent c) (c_sent c')"
    and "host_failed (server_of x k) \<Longrightarrow> host_failed (server_of x' k)"
proof -
  have "(\<forall>c t. srv_conns (server_of x k) = [(c, t)] \<longrightarrow> (\<exists>c' t'. srv_conns (server_of x' k) = [(c', t')] \<and> prefix (c_sent c) (c_sent c'))) \<and>
    (host_failed (server_of x k) \<longrightarrow> host_failed (server_of x' k))"
  proof (cases "j = k")
    case True
    from assms show ?thesis
    proof cases
      case (host_accepts srv)
      then show ?thesis using True step_not_aborted [OF host_accepts(6)] by (auto simp: host_failed_def)
    next
      case (host_ticks srv)
      then show ?thesis using True step_not_aborted [OF host_ticks(3)] by (auto simp: host_failed_def server_of_def)
    next
      case (host_reads c srv)
      from host_turn [OF host_reads(5,3,6,7)] obtain c' t' where "srv_conns srv = [(c', t')]" "prefix (c_sent c) (c_sent c')"
        by (cases "untaken x j") auto
      then show ?thesis
        using True host_reads step_not_aborted [OF host_reads(5)] by (auto simp: host_failed_def server_of_def)
    qed
  next
    case False
    from assms have "server_of x' k = server_of x k" by cases (use False in \<open>auto simp: server_of_def\<close>)
    then show ?thesis by simp
  qed
  then show "srv_conns (server_of x k) = [(c, t)] \<Longrightarrow> \<exists>c' t'. srv_conns (server_of x' k) = [(c', t')] \<and> prefix (c_sent c) (c_sent c')"
    and "host_failed (server_of x k) \<Longrightarrow> host_failed (server_of x' k)" by blast+
qed

lemma main_next_quit:
  assumes "main_next p re opts a l pc sp = Some sp'" "sp_main sp = pc"
  shows "sp_main sp' = M_Quit k \<Longrightarrow> a = None \<and> pc = M_Read k \<and> sp_monitors sp' = sp_monitors (read_line k l sp)"
    and "0x71 \<in> set (sent_to (sp_monitors sp') k) \<Longrightarrow> 0x71 \<in> set (sent_to (sp_monitors sp) k) \<or> pc = M_Quit k"
  using assms
  by (cases "(p, re, opts, a, l, pc, sp)" rule: main_next.cases;
      auto simp: main_report_def send_byte_def read_line_def Let_def
      split: if_splits option.splits prog_pc.splits fn_pc.splits outcome.splits prod.splits)+

definition line_inv :: "nat \<Rightarrow> trial \<Rightarrow> bool" where
  "line_inv k x \<longleftrightarrow>
     (line_of x k \<noteq> [] \<longrightarrow> host_failed (server_of x k) \<or>
        (\<exists>c t. srv_conns (server_of x k) = [(c, t)] \<and> c_sent c \<noteq> [] \<and> line_of x k = hd (c_sent c))) \<and>
     ((0x71 \<in> set (stream x k) \<or> sp_main (ex_speed x) = M_Quit k) \<and> line_of x k = [] \<longrightarrow> host_failed (server_of x k))"

lemma host_step_line:
  assumes "trial_step p h read_file execute re opts env order fmt x (Host j a) x'" "line_inv k x"
  shows "line_inv k x'"
proof -
  have sp: "ex_speed x' = ex_speed x" using assms(1) by cases simp_all
  have "\<exists>c' t'. srv_conns (server_of x' k) = [(c', t')] \<and> c_sent c' \<noteq> [] \<and> hd (c_sent c) = hd (c_sent c')"
    if "srv_conns (server_of x k) = [(c, t)]" "c_sent c \<noteq> []" for c t
    using host_step_grows(1) [OF assms(1) that(1)] that(2) by (auto simp: prefix_def)
  then show ?thesis using assms(2) host_step_grows(2) [OF assms(1)] unfolding line_inv_def sp by metis
qed

text \<open>What a server has sent is whole lines, so the line that is read is the first packet.\<close>

lemma line_from_packet:
  assumes "line_from srv = Some l" "l \<noteq> []" "server_inv hp srv" "length (srv_conns srv) \<le> 1"
  shows "\<exists>c t. srv_conns srv = [(c, t)] \<and> c_sent c \<noteq> [] \<and> l = hd (c_sent c)"
proof -
  from assms obtain c t where c: "srv_conns srv = [(c, t)]" "l = take_line (concat (c_sent c))"
    by (cases "srv_conns srv") (auto simp: line_from_def Let_def split: if_splits)
  with assms(2) obtain pkt rest where sent: "c_sent c = pkt # rest" by (cases "c_sent c") (auto simp: take_line_def)
  with assms(3) c(1) have "one_line pkt" by (simp add: server_inv_def)
  with c sent take_line_one_line show ?thesis by simp
qed

lemma line_from_empty:
  assumes "line_from (server_of x k) = Some []" "host_inv run fmt hp k es x" "0x71 \<notin> set (stream x k)"
  shows "host_failed (server_of x k)"
proof -
  have "0x71 \<notin> set (handled_bytes (host_log k es))" using assms(2,3) set_mono_prefix by (auto simp: host_inv_def)
  with assms(1,2) show ?thesis
    by (auto simp: line_from_def host_inv_def conn_sound_def host_failed_def Let_def split: list.splits if_splits)
qed


lemma host_inv_conns: "host_inv run fmt hp k es x \<Longrightarrow> length (srv_conns (server_of x k)) \<le> 1"
  by (cases "srv_conns (server_of x k)"; cases "tl (srv_conns (server_of x k))") (auto simp: host_inv_def)

lemma host_inv_conn:
  assumes "host_inv run fmt hp k es x" "srv_conns (server_of x k) \<noteq> []"
  shows "\<exists>c t. srv_conns (server_of x k) = [(c, t)] \<and> conn_sound run fmt k es x c t"
  using assms by (cases "srv_conns (server_of x k)"; cases "tl (srv_conns (server_of x k))") (auto simp: host_inv_def)

lemma read_line_line:
  assumes "hears x (C_Main None l)" "sp_main (ex_speed x) = M_Read k" "range_inv (ex_speed x)" "host_inv run fmt hp k es x"
  shows "l \<noteq> [] \<Longrightarrow> host_failed (server_of x k) \<or> (\<exists>c t. srv_conns (server_of x k) = [(c, t)] \<and> c_sent c \<noteq> [] \<and> l = hd (c_sent c))"
    and "l = [] \<Longrightarrow> host_failed (server_of x k)" and "k < length (sp_monitors (ex_speed x))"
proof -
  have l: "line_from (server_of x k) = Some l \<or> host_failed (server_of x k)" using assms(1,2) by (auto simp: hears_def may_read_def)
  have at: "k < length (sp_monitors (ex_speed x))" "mo_sent (sp_monitors (ex_speed x) ! k) = [0x5B, 0x5D]"
    using assms(2,3) by (auto simp: range_inv_def)
  then show "k < length (sp_monitors (ex_speed x))" by simp
  have "0x71 \<notin> set (stream x k)" using at by (simp add: sent_to_def nth_opt_def)
  with l line_from_empty assms(4) show "l = [] \<Longrightarrow> host_failed (server_of x k)" by blast
  have "server_inv hp (server_of x k)" using assms(4) by (simp add: host_inv_def)
  with line_from_packet l host_inv_conns [OF assms(4)]
  show "l \<noteq> [] \<Longrightarrow> host_failed (server_of x k) \<or> (\<exists>c t. srv_conns (server_of x k) = [(c, t)] \<and> c_sent c \<noteq> [] \<and> l = hd (c_sent c))" by blast
qed

lemma generator_line:
  assumes "hears x ch" "take_choice p h read_file execute re opts ch (ex_speed x) = Some sp" "line_inv k x"
    and "range_inv (ex_speed x)" "host_inv run fmt hp k es x"
  shows "line_inv k (x\<lparr>ex_speed := sp\<rparr>)"
proof (cases "\<exists>l. ch = C_Main None l \<and> sp_main (ex_speed x) = M_Read k")
  case True
  then obtain l where ch: "ch = C_Main None l" "sp_main (ex_speed x) = M_Read k" by blast
  note rd = read_line_line [OF assms(1)[unfolded ch(1)] ch(2) assms(4,5)]
  from assms(2) ch have "sp = (read_line k l (ex_speed x))\<lparr>sp_main := M_Quit k\<rparr>" by (simp split: if_splits)
  with rd(3) have "line_in (sp_monitors sp) k = l" by (simp add: read_line_def)
  with rd(1,2) show ?thesis by (cases "l = []") (simp_all add: line_inv_def server_of_def)
next
  case False
  then have same: "line_in (sp_monitors sp) k = line_of x k" using take_choice_streams(2) [OF assms(2)] by blast
  have "0x71 \<in> set (stream x k) \<or> sp_main (ex_speed x) = M_Quit k"
    if "0x71 \<in> set (sent_to (sp_monitors sp) k) \<or> sp_main sp = M_Quit k"
  proof (cases ch)
    case (C_Main a l)
    then have "main_next p re opts a l (sp_main (ex_speed x)) (ex_speed x) = Some sp" using assms(2) by (simp split: if_splits)
    from main_next_quit [OF this refl, of k] that False C_Main show ?thesis by blast
  qed (use that assms(2) in \<open>auto simp: release_all_def main_release_def split: if_splits\<close>)
  with assms(3) same show ?thesis by (auto simp: line_inv_def server_of_def)
qed

lemma run_line_inv:
  assumes "hosts_started opts env order mopts w0 srvs" "k < length srvs" "\<And>y. set (fmt y) \<subseteq> float_chars"
    and "trial_run p h read_file execute re opts env order fmt (trial_start opts srvs) es x"
  shows "line_inv k x"
proof (rule trials.run_log_invariant [where I = "\<lambda>_. line_inv k", OF assms(4)])
  show "line_inv k (trial_start opts srvs)"
    by (simp add: line_inv_def trial_start_def speed_start_def sent_to_def line_in_def)
  fix es e x1 x2
  assume run: "trial_run p h read_file execute re opts env order fmt (trial_start opts srvs) es x1" and inv: "line_inv k x1"
    and step: "trial_step p h read_file execute re opts env order fmt x1 e x2"
  have rng: "range_inv (ex_speed x1)"
    using run_connected [OF trial_speed_run [OF run]] by (simp add: trial_start_def connected_inv_def)
  show "line_inv k x2"
  proof (cases e)
    case (Gen ch)
    with step obtain sp where "x2 = x1\<lparr>ex_speed := sp\<rparr>" "hears x1 ch"
        "take_choice p h read_file execute re opts ch (ex_speed x1) = Some sp" by cases auto
    with generator_line [OF _ _ inv rng run_host_inv [OF assms(1-3) run]] show ?thesis by blast
  next
    case (Host j a)
    with host_step_line step inv show ?thesis by blast
  qed
qed

section \<open>No request after a range is closed\<close>

fun is_request :: "event \<Rightarrow> bool" where
  "is_request (Gen (C_Request j now a)) = True"
| "is_request e = False"

lemma closed_finished:
  assumes "host_inv run fmt hp k es x" "Host k (Handled 0x5D) \<in> set es" "range_inv (ex_speed x)"
  shows "list_all finished (sp_tasks (ex_speed x))"
proof -
  have "0x5D \<in> set (handled_bytes (host_log k es))" using assms(2) by (simp add: handled_bytes_set host_log_set)
  then have "0x5D \<in> set (stream x k)" using assms(1) set_mono_prefix by (auto simp: host_inv_def)
  then have "closing (ex_speed x)" by (auto simp: closing_def sent_to_def nth_opt_def split: if_splits)
  with assms(3) show ?thesis
    by (intro done_finished [of "sp_fns (ex_speed x)"]) (simp_all add: range_inv_def)
qed

lemma finished_no_request:
  assumes "list_all finished (sp_tasks (ex_speed x))" "trial_step p h read_file execute re opts env order fmt x e x'"
  shows "\<not> is_request e"
proof
  assume "is_request e"
  then obtain j now a where "e = Gen (C_Request j now a)" by (cases e rule: is_request.cases) simp_all
  with assms(2) obtain sp where "take_choice p h read_file execute re opts (C_Request j now a) (ex_speed x) = Some sp"
    by cases auto
  moreover from this have "j < length (sp_tasks (ex_speed x))" by (simp split: if_splits)
  with assms(1) obtain r where "rt_state (sp_tasks (ex_speed x) ! j) = R_Finished r" by (auto simp: list_all_length finished_def)
  ultimately show False by (simp split: if_splits)
qed

lemma run_no_request:
  assumes "hosts_started opts env order mopts w0 srvs" "k < length srvs" "\<And>y. set (fmt y) \<subseteq> float_chars"
    and "trial_run p h read_file execute re opts env order fmt (trial_start opts srvs) (xs @ Host k (Handled 0x5D) # zs) x"
  shows "list_all (\<lambda>e. \<not> is_request e) zs"
  using assms(4)
proof (induction zs arbitrary: x rule: rev_induct)
  case (snoc e zs)
  let ?es = "xs @ Host k (Handled 0x5D) # zs"
  from snoc.prems obtain x1 where run: "trial_run p h read_file execute re opts env order fmt (trial_start opts srvs) ?es x1"
      "trial_step p h read_file execute re opts env order fmt x1 e x"
    using trials.run_snoc [of p h read_file execute re opts env order fmt _ ?es e x] by auto
  have "range_inv (ex_speed x1)"
    using run_connected [OF trial_speed_run [OF run(1)]] by (simp add: trial_start_def connected_inv_def)
  from closed_finished [OF run_host_inv [OF assms(1-3) run(1)] _ this] have "list_all finished (sp_tasks (ex_speed x1))" by simp
  from finished_no_request [OF this run(2)] snoc.IH [OF run(1)] show ?case by simp
qed simp


section \<open>What an experiment reports\<close>

lemma count_host_log: "count_list (host_log k es) a = count_list es (Host k a)"
  by (induction k es rule: host_log.induct) auto

lemma measured_counts:
  assumes "hosts_started opts env order mopts w0 srvs" "k < length srvs" "\<And>y. set (fmt y) \<subseteq> float_chars"
    and "trial_run p h read_file execute re opts env order fmt (trial_start opts srvs)
      (xs @ Host k (Handled 0x5B) # ys @ [Host k (Handled 0x5D)]) x"
    and "Host k (Handled 0x5B) \<notin> set ys" "Host k (Handled 0x5D) \<notin> set ys" "\<not> srv_aborted (server_of x k)"
  shows "\<forall>st \<in> set (st_table (srv_stats (server_of x k))). value_cnt st = of_nat (Suc (count_list ys (Host k Updated)))"
proof -
  note inv = run_host_inv [OF assms(1-4)]
  have "Handled 0x5B \<notin> set (host_log k ys)" "Handled 0x5D \<notin> set (host_log k ys)" using assms(5,6) by (simp_all add: host_log_set)
  from fold_range [OF this, of "host_log k xs" "(False, 0)"] inv assms(7)
  have "range_rel (False, Suc (count_list ys (Host k Updated))) (srv_stats (server_of x k))"
    by (simp add: host_inv_def count_host_log)
  moreover have "length (st_table (srv_stats (server_of x k))) = 54"
    using inv by (simp add: host_inv_def server_inv_def stats_inv_def wf_stats_def wf_table_def)
  ultimately show ?thesis by (auto simp: range_rel_def in_set_conv_nth)
qed

text \<open>The load generator has sent a host its whole session, so it has a line of the host, unless the host failed.\<close>

lemma complete_line:
  assumes "hosts_started opts env order mopts w0 srvs" "k < length srvs" "\<And>y. set (fmt y) \<subseteq> float_chars"
    and "trial_run p h read_file execute re opts env order fmt (trial_start opts srvs) es x"
    and "complete opts (ex_speed x)" "\<not> host_failed (server_of x k)"
  shows "measured (trial_run p h read_file execute re opts env order fmt (trial_start opts srvs)) fmt k es (line_of x k)"
proof -
  have "k < length (sp_monitors (ex_speed x))" "list_all served (sp_monitors (ex_speed x))"
    using assms(1,2,5) by (simp_all add: complete_def hosts_started_def)
  then have "0x71 \<in> set (stream x k)" by (simp add: sent_to_def nth_opt_def list_all_length served_def)
  with run_line_inv [OF assms(1-4)] assms(6) obtain c t where
    "srv_conns (server_of x k) = [(c, t)]" "c_sent c \<noteq> []" "line_of x k = hd (c_sent c)" by (auto simp: line_inv_def)
  with run_host_inv [OF assms(1-4)] show ?thesis
    by (cases "c_sent c") (auto simp: host_inv_def conn_sound_def)
qed

end
