(* ===== verification/Experiment_Ranges.thy ===== *)
theory Experiment_Ranges
  imports Experiment
begin

text \<open>
  What lies behind the numbers of an experiment: between the byte that opened the range of a host and the byte
  that closed it, its statistics went through a chain of successful updates, one per tick and one for the
  closing byte, so what a range reports of such a chain holds of the line in the report.
\<close>

section \<open>Chains of updates\<close>

lemma update_chain_snoc:
  "update_chain upd c (ds @ [d]) \<longleftrightarrow> update_chain upd c ds \<and> upd (last (c # ds)) = (Ok (), d)"
  by (induction ds arbitrary: c) auto

text \<open>The statistics and the world of a host \<open>n\<close> updates after its range was begun.\<close>

definition in_chain :: "os \<Rightarrow> event_order \<Rightarrow> nat \<Rightarrow> Stats \<times> world \<Rightarrow> bool" where
  "in_chain env order n d \<longleftrightarrow> (\<exists>s w c ds. wf_stats s \<and> begin_range env order (s, w) = (Ok (), c) \<and>
     update_chain (stats_update Release env order) c ds \<and> length ds = n \<and> last (c # ds) = d)"

lemma chain_begins: "wf_stats s \<Longrightarrow> begin_range env order (s, w) = (Ok (), d) \<Longrightarrow> in_chain env order 0 d"
  unfolding in_chain_def by (intro exI [of _ s] exI [of _ w] exI [of _ d] exI [of _ "[]"]) simp

lemma chain_grows:
  assumes "in_chain env order n d" "stats_update Release env order d = (Ok (), e)"
  shows "in_chain env order (Suc n) e"
proof -
  from assms(1) obtain s w c ds where "wf_stats s" "begin_range env order (s, w) = (Ok (), c)"
    "update_chain (stats_update Release env order) c ds" "length ds = n" "last (c # ds) = d" unfolding in_chain_def by blast
  with assms(2) show ?thesis
    unfolding in_chain_def by (intro exI [of _ s] exI [of _ w] exI [of _ c] exI [of _ "ds @ [e]"]) (simp add: update_chain_snoc)
qed

section \<open>The steps of a host on its statistics\<close>

lemma conn_iteration_world:
  assumes "conn_iteration p env order fmt ((s, c), w) = (r, ((s', c'), w'))" "c_reads c = Inr b # rs"
    and "handle_byte p env order fmt b (s, w) = (r1, (s1, w1))"
  shows "s' = s1 \<and> w' = w1"
proof -
  note run_defs = conn_iteration_def read_byte_def bind_def seq_def get_state_def gets_def on_state_def modify_def
    lift_o_def within_def zoom_def
  have wr: "s2 = s0 \<and> w2 = w0" if "write_all pkt ((s0, c0), w0) = (r2, ((s2, c2), w2))" for pkt s0 c0 w0 r2 s2 c2 w2
    using that by (auto simp: write_all_def bind_def seq_def get_state_def gets_def on_state_def modify_def lift_o_def io_unit_def
        split: list.splits option.splits)
  show ?thesis
  proof (cases r1)
    case (Ok x)
    obtain k out where x: "x = (k, out)" by (cases x)
    show ?thesis
    proof (cases out)
      case None
      with assms Ok x show ?thesis by (auto simp: run_defs)
    next
      case (Some pkt)
      obtain r2 s2 c2 w2 where w: "write_all pkt ((s1, c\<lparr>c_reads := rs\<rparr>), w1) = (r2, ((s2, c2), w2))" by (metis prod.exhaust)
      from wr [OF w] assms Ok x Some w show ?thesis by (cases r2) (auto simp: run_defs)
    qed
  qed (use assms in \<open>auto simp: run_defs\<close>)
qed

lemma updated_step:
  assumes "server_step Release env order fmt srv Updated srv'"
  shows "stats_update Release env order (srv_stats srv, srv_world srv) = (Ok (), (srv_stats srv', srv_world srv'))"
  using assms
proof cases
  case (tick r s w)
  then show ?thesis by (cases r) (simp_all add: after_tick_def)
next
  case (turn i c r s c' w)
  then show ?thesis by (auto simp: turn_action_def split: list.splits sum.splits outcome.splits)
qed

lemma handled_step:
  assumes "server_step Release env order fmt srv (Handled b) srv'" "srv_conns srv = [(c, Running)]" "c_reads c = Inr b' # rs"
  shows "b' = b \<and> (\<exists>x. handle_byte Release env order fmt b (srv_stats srv, srv_world srv) = (Ok x, (srv_stats srv', srv_world srv')))"
  using assms(1)
proof cases
  case (turn i d r s c' w)
  then have d: "i = 0" "d = c" using assms(2) by simp_all
  obtain r1 s1 w1 where h: "handle_byte Release env order fmt b' (srv_stats srv, srv_world srv) = (r1, (s1, w1))" by (metis prod.exhaust)
  from turn(1) d assms(3) h have "b' = b" "\<exists>x. r1 = Ok x" by (auto simp: turn_action_def split: outcome.splits)
  moreover from this conn_iteration_sent(2) [OF turn(6) _ h] d assms(3) have "\<not> is_panic r" by (auto split: prod.splits)
  then have "srv_stats srv' = s" "srv_world srv' = w"
    using turn(2) by (cases r; simp add: after_turn_def Let_def split: control.splits)+
  ultimately show ?thesis using conn_iteration_world [OF turn(6) _ h] d assms(3) h by auto
qed (auto split: outcome.splits)

lemma silent_step:
  assumes "server_step Release env order fmt srv Silent srv'" "\<not> srv_aborted srv'" "srv_conns srv' = srv_conns srv"
  shows "srv_stats srv' = srv_stats srv \<and> srv_world srv' = srv_world srv"
  using assms(1)
proof cases
  case (tick r s w)
  with assms(2) show ?thesis by (cases r) (auto simp: after_tick_def panic_effect_def)
next
  case (turn i c r s c' w)
  have "r \<noteq> Ok k" for k
  proof
    assume r: "r = Ok k"
    from conn_iteration_reads [of Release env order fmt "srv_stats srv" c "srv_world srv" k s c' w] turn(6) r
    have "length (c_reads c) = Suc (length (c_reads c'))" by simp
    moreover have "srv_conns srv' ! i = (c', t) \<longrightarrow> c' = c" for t using assms(3) turn(5) by auto
    moreover have "\<exists>t. srv_conns srv' ! i = (c', t)" using turn(2,4) r by (auto simp: after_turn_def Let_def split: control.splits)
    ultimately show False by auto
  qed
  then have "\<exists>t. srv_conns srv' ! i = (c', t) \<and> t \<noteq> Running"
    using turn(2,4) assms(2) by (cases r) (auto simp: after_turn_def panic_effect_def Let_def)
  with assms(3) turn(5) show ?thesis by auto
qed simp_all

section \<open>The chain of a host\<close>

lemma open_count:
  assumes "handled_bytes as = [0x5B]"
  shows "fold abs_action as (False, 0) = (True, snd (fold abs_action as (False, 0)))"
proof -
  have "0x5B \<in> set (handled_bytes as)" using assms by simp
  then have "Handled 0x5B \<in> set as" by (simp only: handled_bytes_set)
  then obtain us vs where as: "as = us @ Handled 0x5B # vs" by (meson split_list)
  with assms have "handled_bytes vs = []" by (cases "handled_bytes us") auto
  then have "Handled 0x5B \<notin> set vs" "Handled 0x5D \<notin> set vs" by (simp_all add: handled_bytes_nil)
  from fold_open_range [OF this, of 0] show ?thesis by (simp add: as)
qed

definition open_conn :: "trial \<Rightarrow> nat \<Rightarrow> bool" where
  "open_conn x k \<longleftrightarrow> \<not> srv_aborted (server_of x k) \<and> (\<exists>c. srv_conns (server_of x k) = [(c, Running)])"

definition host_state :: "trial \<Rightarrow> nat \<Rightarrow> Stats \<times> world" where
  "host_state x k = (srv_stats (server_of x k), srv_world (server_of x k))"

definition chain_inv :: "os \<Rightarrow> event_order \<Rightarrow> nat \<Rightarrow> event list \<Rightarrow> trial \<Rightarrow> bool" where
  "chain_inv env order k es x \<longleftrightarrow> (open_conn x k \<and> handled_bytes (host_log k es) = [0x5B] \<longrightarrow>
     in_chain env order (snd (fold abs_action (host_log k es) (False, 0))) (host_state x k))"

lemma reads_chain:
  assumes "host_inv run fmt hp k es x" "iterates (order k)"
    and "srv_conns (server_of x k) = [(c, Running)]"
    and "server_step Release (env k) (order k) fmt (wire (untaken x k) (server_of x k)) a srv"
    and "length (srv_conns srv) = 1" "srv_conns srv \<noteq> srv_conns (wire (untaken x k) (server_of x k))"
    and "server_of x' k = srv" "open_conn x' k"
  shows "\<exists>b bs r. untaken x k = b # bs \<and> a = Handled b \<and>
    handle_byte Release (env k) (order k) fmt b (host_state x k) = (Ok r, host_state x' k)"
proof -
  let ?srv = "wire (untaken x k) (server_of x k)"
  from assms(7,8) host_turn [OF assms(4,3,5,6)] obtain b bs where b: "untaken x k = b # bs" "a = Handled b"
    by (cases "untaken x k") (auto simp: open_conn_def)
  have w: "srv_conns ?srv = [(c\<lparr>c_reads := map Inr (b # bs)\<rparr>, Running)]" using assms(3) b(1) by (simp add: wire_def)
  have "srv_world ?srv = srv_world (server_of x k)" by (simp add: wire_def)
  with handled_step [OF assms(4) [unfolded b(2)] w] b assms(7) show ?thesis by (auto simp: host_state_def)
qed

lemma handle_open:
  assumes "handle_byte Release env order fmt 0x5B (s, w) = (Ok r, d)" "iterates order" "wf_stats s"
  shows "in_chain env order 0 d"
proof -
  from assms(1) obtain s1 w1 where u: "stats_update Release env order (s, w) = (Ok (), (s1, w1))"
    and b: "begin_range env order (s1, w1) = (Ok (), d)" by (auto simp: handle_byte_def seq_eq_Ok)
  from chain_begins [OF update_keeps_wf [OF assms(2,3) u] b] show ?thesis .
qed

lemma step_chain:
  assumes "trial_step p h read_file execute re opts env order fmt x e x'" "host_inv run fmt hp k es x" "iterates (order k)"
    and "chain_inv (env k) (order k) k es x"
  shows "chain_inv (env k) (order k) k (es @ [e]) x'"
proof (cases "host_log k [e] = []")
  case True
  with step_other [OF assms(1) True] assms(4) show ?thesis by (simp add: chain_inv_def open_conn_def host_state_def)
next
  case False
  then obtain a where e: "e = Host k a" by (cases e) (auto split: if_splits)
  show ?thesis
    unfolding chain_inv_def
  proof (intro impI, elim conjE)
    assume op: "open_conn x' k" and bytes: "handled_bytes (host_log k (es @ [e])) = [0x5B]"
    from assms(1) e show "in_chain (env k) (order k) (snd (fold abs_action (host_log k (es @ [e])) (False, 0))) (host_state x' k)"
    proof cases
      case (host_accepts j srv)
      then have "handled_bytes (host_log k es) = []" using assms(2) e by (simp add: host_inv_def)
      with bytes e host_accepts show ?thesis by simp
    next
      case (host_ticks j a' srv)
      then have x': "server_of x' k = srv" and step: "server_step Release (env k) (order k) fmt (server_of x k) a srv"
        and a: "a = Updated \<or> a = Silent" and same: "srv_conns srv = srv_conns (server_of x k)"
        using e by (auto simp: server_of_def)
      have old: "open_conn x k" "handled_bytes (host_log k es) = [0x5B]"
        using op x' same step_not_aborted [OF step] bytes e a by (auto simp: open_conn_def)
      with assms(4) have ch: "in_chain (env k) (order k) (snd (fold abs_action (host_log k es) (False, 0))) (host_state x k)"
        by (simp add: chain_inv_def)
      from a show ?thesis
      proof
        assume up: "a = Updated"
        have "snd (abs_update (fold abs_action (host_log k es) (False, 0))) = Suc (snd (fold abs_action (host_log k es) (False, 0)))"
          by (subst open_count [OF old(2)]) (simp add: abs_update_def)
        with chain_grows [OF ch] updated_step [OF step [unfolded up]] e up x' show ?thesis by (simp add: host_state_def)
      next
        assume "a = Silent"
        with silent_step [of "env k" "order k" fmt "server_of x k" srv] step same op x' ch e show ?thesis
          by (simp add: host_state_def open_conn_def)
      qed
    next
      case (host_reads j c a' srv)
      then have x': "server_of x' k = srv" and j: "j = k" "a' = a" using e by (auto simp: server_of_def)
      from reads_chain [where env = env and order = order, OF assms(2,3) host_reads(4,6-8) [unfolded j] x' op] obtain b bs r where
        b: "untaken x k = b # bs" "a = Handled b" "handle_byte Release (env k) (order k) fmt b (host_state x k) = (Ok r, host_state x' k)"
        by blast
      with bytes e have b5: "b = 0x5B" by (cases "handled_bytes (host_log k es)") auto
      have "wf_stats (srv_stats (server_of x k))" using assms(2) by (simp add: host_inv_def server_inv_def stats_inv_def)
      from handle_open [OF b(3) [unfolded b5 host_state_def [of x]] assms(3) this] b(2) b5 e show ?thesis by simp
    qed simp
  qed
qed


lemma run_chain:
  assumes "hosts_started opts env order mopts w0 srvs" "k < length srvs" "\<And>y. set (fmt y) \<subseteq> float_chars"
    and "trial_run p h read_file execute re opts env order fmt (trial_start opts srvs) es x"
  shows "chain_inv (env k) (order k) k es x"
proof (rule trials.run_log_invariant [where I = "chain_inv (env k) (order k) k", OF assms(4)])
  show "chain_inv (env k) (order k) k [] (trial_start opts srvs)" by (simp add: chain_inv_def)
  fix es e x1 x2
  assume run: "trial_run p h read_file execute re opts env order fmt (trial_start opts srvs) es x1"
    and inv: "chain_inv (env k) (order k) k es x1"
    and step: "trial_step p h read_file execute re opts env order fmt x1 e x2"
  have "iterates (order k)" using assms(1,2) by (simp add: hosts_started_def)
  from step_chain [OF step run_host_inv [OF assms(1-3) run] this inv] show "chain_inv (env k) (order k) k (es @ [e]) x2" .
qed

lemma end_range_table: "end_range env order (s, w) = (Ok (), (s', w')) \<Longrightarrow> st_table s' = st_table s"
  by (auto simp: end_range_def seq_eq_Ok adapt_def within_Ok split: prod.splits)

lemma handle_close:
  assumes "handle_byte Release env order fmt 0x5D d = (Ok r, d')" "in_chain env order n d"
  shows "\<exists>e. in_chain env order (Suc n) e \<and> st_table (fst d') = st_table (fst e)"
proof -
  obtain s w where d: "d = (s, w)" by (cases d)
  from assms(1) obtain s1 w1 where u: "stats_update Release env order d = (Ok (), (s1, w1))"
    and en: "end_range env order (s1, w1) = (Ok (), d')"
    by (auto simp: handle_byte_def seq_eq_Ok bind_eq_Ok)
  have "st_table (fst d') = st_table s1" using end_range_table [of env order s1 w1 "fst d'" "snd d'"] en by simp
  with chain_grows [OF assms(2) u] show ?thesis by (intro exI [of _ "(s1, w1)"]) simp
qed

text \<open>The step that closes a range is the answer to the byte, on the connection of the load generator.\<close>

lemma closing_step:
  assumes "trial_step p h read_file execute re opts env order fmt x (Host k (Handled b)) x'"
  shows "open_conn x k \<and> (\<exists>r. handle_byte Release (env k) (order k) fmt b (host_state x k) = (Ok r, host_state x' k))"
  using assms
proof cases
  case (host_reads c srv)
  have x': "server_of x' k = srv" using host_reads by (simp add: server_of_def)
  from host_turn [OF host_reads(5,3,6,7)] obtain b' bs where b: "untaken x k = b' # bs" by (cases "untaken x k") auto
  have "srv_conns (wire (untaken x k) (server_of x k)) = [(c\<lparr>c_reads := map Inr (b' # bs)\<rparr>, Running)]"
    using host_reads(3) b by (simp add: wire_def)
  from handled_step [OF host_reads(5) this] x' have
    "\<exists>r. handle_byte Release (env k) (order k) fmt b (host_state x k) = (Ok r, host_state x' k)"
    by (auto simp: host_state_def wire_def)
  with step_not_aborted [OF host_reads(5)] host_reads(3) show ?thesis by (auto simp: open_conn_def)
qed simp_all

lemma measured_chain:
  assumes "hosts_started opts env order mopts w0 srvs" "k < length srvs" "\<And>y. set (fmt y) \<subseteq> float_chars"
    and "trial_run p h read_file execute re opts env order fmt (trial_start opts srvs)
      (xs @ Host k (Handled 0x5B) # ys @ [Host k (Handled 0x5D)]) x"
    and "Host k (Handled 0x5B) \<notin> set ys" "Host k (Handled 0x5D) \<notin> set ys"
  shows "\<exists>d. in_chain (env k) (order k) (Suc (count_list ys (Host k Updated))) d \<and>
    st_table (srv_stats (server_of x k)) = st_table (fst d)"
proof -
  let ?es = "xs @ Host k (Handled 0x5B) # ys"
  from trials.run_snoc [of p h read_file execute re opts env order fmt "trial_start opts srvs" ?es "Host k (Handled 0x5D)" x] assms(4)
  obtain x0 where run: "trial_run p h read_file execute re opts env order fmt (trial_start opts srvs) ?es x0"
    and step: "trial_step p h read_file execute re opts env order fmt x0 (Host k (Handled 0x5D)) x" by auto
  from closing_step [OF step] obtain r where op: "open_conn x0 k"
    and hd: "handle_byte Release (env k) (order k) fmt 0x5D (host_state x0 k) = (Ok r, host_state x k)" by blast
  have "prefix (stream x k) session" using run_session [OF trial_speed_run [OF assms(4)]] by (simp add: trial_start_def)
  then have "prefix (handled_bytes (host_log k ?es) @ [0x5D]) session"
    using run_host_inv [OF assms(1-4)] by (auto simp: host_inv_def intro: prefix_order.trans)
  from session_packet [OF this] have "handled_bytes (host_log k ?es) = [0x5B]" by (simp add: wants_packet_def)
  with run_chain [OF assms(1-3) run] op have
    "in_chain (env k) (order k) (snd (fold abs_action (host_log k ?es) (False, 0))) (host_state x0 k)" by (simp only: chain_inv_def)
  moreover have "Handled 0x5B \<notin> set (host_log k ys)" "Handled 0x5D \<notin> set (host_log k ys)" using assms(5,6) by (simp_all add: host_log_set)
  from fold_open_range [OF this, of 0] have "snd (fold abs_action (host_log k ?es) (False, 0)) = count_list ys (Host k Updated)"
    by (simp add: count_host_log)
  ultimately show ?thesis using handle_close [OF hd] by (auto simp: host_state_def)
qed

end
