(* ===== verification/Speed_Output.thy ===== *)
theory Speed_Output
  imports Speed_Main
begin

text \<open>
  What a successful run has printed: the line of every monitor appears in the report.
\<close>

section \<open>Printing only adds lines\<close>

definition grows :: "(string list, 'a) rust \<Rightarrow> bool" where
  "grows m \<longleftrightarrow> (\<forall>out r out'. m out = (r, out') \<longrightarrow> set out \<subseteq> set out')"

lemma growsD: "grows m \<Longrightarrow> m out = (r, out') \<Longrightarrow> set out \<subseteq> set out'"
  by (simp add: grows_def)

lemma grows_ret: "grows (ret x)" and grows_println: "grows (println l)" and grows_lift: "grows (lift_o r)"
  by (auto simp: grows_def println_def lift_o_def)

lemma grows_bind: "grows m \<Longrightarrow> (\<And>x. grows (f x)) \<Longrightarrow> grows (bind m f)"
  unfolding grows_def bind_def by (fastforce split: prod.splits outcome.splits)

lemma grows_seq: "grows m \<Longrightarrow> grows n \<Longrightarrow> grows (seq m n)"
  unfolding seq_def by (rule grows_bind)

lemma grows_if: "grows m \<Longrightarrow> grows n \<Longrightarrow> grows (if b then m else n)"
  by simp

lemma grows_for_each: "(\<And>x. grows (f x)) \<Longrightarrow> grows (for_each f xs)"
  by (induction xs) (simp_all add: grows_ret grows_seq)

lemma grows_pair: "(\<And>a b. grows (f a b)) \<Longrightarrow> grows (case x of (a, b) \<Rightarrow> f a b)"
  by (cases x) simp

lemmas grows_rules = grows_ret grows_println grows_lift grows_bind grows_seq grows_if grows_for_each grows_pair

lemma grows_report_function: "grows (report_function p sort_by fmt opts results)"
  unfolding report_function_def print_stats_def Let_def by (intro grows_rules)

lemma grows_print_header: "grows (print_header fmt opts ndp n monitoring i results errors)"
  unfolding print_header_def Let_def by (intro grows_rules)

section \<open>The lines of the monitors\<close>

definition monitor_entry :: "SpeedOptions \<Rightarrow> string \<Rightarrow> string" where
  "monitor_entry opts l = (if csv opts then ''monitor,'' else ''Monitoring result: '') @ trim l"

lemma for_each_println:
  assumes "for_each (\<lambda>m. println (f m)) ms out = (Ok (), out')"
  shows "f ` set ms \<subseteq> set out'"
  using assms
proof (induction ms arbitrary: out)
  case (Cons m ms)
  obtain out1 where pr: "println (f m) out = (Ok (), out1)" and rest: "for_each (\<lambda>m. println (f m)) ms out1 = (Ok (), out')"
    using Cons.prems unfolding for_each_Ok_Cons by blast
  have "f m \<in> set out1" using pr by (auto simp: println_def modify_def)
  then have "f m \<in> set out'" using growsD [OF grows_for_each [OF grows_println] rest] by blast
  with Cons.IH [OF rest] show ?case by simp
qed simp

lemma header_entries:
  assumes "print_header fmt opts ndp n monitoring i results errors out = (Ok (), out')"
  shows "monitor_entry opts ` set monitoring \<subseteq> set out'"
proof -
  obtain out1 where "for_each (\<lambda>m. println (monitor_entry opts m)) monitoring out1 = (Ok (), out')"
    using assms by (cases "csv opts") (auto simp: print_header_def monitor_entry_def Let_def bind_eq_Ok seq_eq_Ok)
  then show ?thesis by (rule for_each_println)
qed

lemma report_entries:
  assumes "print_report p sort_by fmt opts ndp n monitoring res out = (Ok (), out')" "res \<noteq> []"
  shows "monitor_entry opts ` set monitoring \<subseteq> set out'"
proof -
  let ?f = "\<lambda>(fidx, results, errors). seq (print_header fmt opts ndp n monitoring fidx results errors)
        (report_function p sort_by fmt opts results)"
  obtain results errors rest where res: "enumerate 0 res = (0, results, errors) # rest" using assms(2) by (cases res) auto
  with assms(1) obtain out1 out2 where
    hd: "print_header fmt opts ndp n monitoring 0 results errors out = (Ok (), out1)"
    and fn: "report_function p sort_by fmt opts results out1 = (Ok (), out2)"
    and rest: "for_each ?f rest out2 = (Ok (), out')"
    by (auto simp: print_report_def for_each_Ok_Cons seq_eq_Ok)
  have "grows (?f x)" for x by (intro grows_rules grows_report_function grows_print_header)
  from growsD [OF grows_for_each [OF this] rest] growsD [OF grows_report_function fn] header_entries [OF hd] show ?thesis by blast
qed

definition printed_inv :: "SpeedOptions \<Rightarrow> speed \<Rightarrow> bool" where
  "printed_inv opts sp \<longleftrightarrow> (sp_main sp = M_Returned \<and> \<not> oneshot opts \<and> sp_fns sp \<noteq> [] \<longrightarrow>
     (\<forall>m \<in> set (sp_monitors sp). monitor_entry opts (mo_line m) \<in> set (sp_out sp)))"

lemma main_report_printed:
  assumes "sp_main (main_report p re opts acc sp) = M_Returned" "acc \<noteq> []"
  shows "\<forall>m \<in> set (sp_monitors sp). monitor_entry opts (mo_line m) \<in> set (sp_out (main_report p re opts acc sp))"
proof -
  obtain r out where rep: "print_report p (re_sort re) (re_fmt re) opts (sh_ndp (sp_shared sp)) (sh_total (sp_shared sp))
      (map mo_line (sp_monitors sp)) acc (sp_out sp) = (r, out)" by (metis prod.exhaust)
  with assms(1) have r: "r = Ok ()" by (cases r) (simp_all add: main_report_def Let_def)
  from report_entries [OF rep [unfolded r] assms(2)] rep r show ?thesis by (auto simp: main_report_def Let_def)
qed

lemma step_printed:
  assumes "speed_step p h read_file execute re opts sp sp'" "printed_inv opts sp"
  shows "printed_inv opts sp'"
  using assms(1)
proof cases
  case (main_moves ans l)
  show ?thesis
  proof (cases "sp_main sp' = M_Returned \<and> sp_fns sp' \<noteq> []")
    case True
    from main_next_returns(1) [OF main_moves(2)] True obtain acc where acc: "sp_main sp = M_Gather acc" by blast
    with main_moves(2) True have "sp' = main_report p re opts acc sp" "\<not> length acc < length (sp_fns sp)"
      by (auto split: if_splits fn_pc.splits)
    moreover from this True main_next_frame [OF main_moves(2)] have "acc \<noteq> []" by auto
    moreover have "sp_monitors sp' = sp_monitors sp" using main_next_returns(2) [OF main_moves(2)] True by blast
    ultimately show ?thesis using main_report_printed [of p re opts acc sp] True by (simp add: printed_inv_def)
  qed (auto simp: printed_inv_def)
next
  case barrier
  then show ?thesis by (auto simp: printed_inv_def release_all_def main_release_def)
qed (use assms(2) in \<open>auto simp: printed_inv_def\<close>)

lemma run_printed:
  assumes "speed_run p h read_file execute re opts (speed_start opts) sp"
  shows "printed_inv opts sp"
proof -
  have "printed_inv opts (speed_start opts)" by (simp add: printed_inv_def speed_start_def)
  from speed_run_invariant [where I = "printed_inv opts", OF assms this] step_printed show ?thesis by blast
qed

end
