(* ===== verification/Experiment_Runs.thy ===== *)
theory Experiment_Runs
  imports Experiment_Ranges Speed_Output
begin

text \<open>
  What whole experiments come to: the report of every run that returns, that healthy hosts never keep the
  load generator waiting for ever, and that a range may be opened too late.
\<close>

section \<open>The report\<close>

text \<open>
  C2. What an experiment reports, for every interleaving of the load generator with its hosts and whatever
  the network does: when the load generator has returned, the report has a line for every host that has not
  failed, and it is the packet of the statistics that the host had right after it closed its range. The host
  had opened the range before; the table of statistics is the one that \<open>begin_range\<close> and a chain of successful
  updates leave, one update for each of its ticks in between and one more, and every count is that number; every
  request was finished when the range was closed, and none was made after that.
\<close>

theorem experiment_reports_range:
  assumes "hosts_started opts env order mopts w0 srvs" "k < length srvs" "\<And>y. set (fmt y) \<subseteq> float_chars"
    and "trial_run p h read_file execute re opts env order fmt (trial_start opts srvs) es x"
    and "sp_main (ex_speed x) = M_Returned" "\<not> oneshot opts" "function_names opts \<noteq> []" "\<not> host_failed (server_of x k)"
  shows "\<exists>xs ys zs x1. es = xs @ Host k (Handled 0x5B) # ys @ Host k (Handled 0x5D) # zs \<and>
    trial_run p h read_file execute re opts env order fmt (trial_start opts srvs)
      (xs @ Host k (Handled 0x5B) # ys @ [Host k (Handled 0x5D)]) x1 \<and>
    monitor_entry opts (stat_packet fmt (srv_stats (server_of x1 k))) \<in> set (sp_out (ex_speed x)) \<and>
    (\<exists>d. in_chain (env k) (order k) (Suc (count_list ys (Host k Updated))) d \<and>
       st_table (srv_stats (server_of x1 k)) = st_table (fst d)) \<and>
    (\<forall>st \<in> set (st_table (srv_stats (server_of x1 k))). value_cnt st = of_nat (Suc (count_list ys (Host k Updated)))) \<and>
    list_all finished (sp_tasks (ex_speed x1)) \<and> list_all (\<lambda>e. \<not> is_request e) zs"
proof -
  have sp: "speed_run p h read_file execute re opts (speed_start opts) (ex_speed x)"
    by (rule trial_speed_run [OF assms(4)]) (simp add: trial_start_def)
  have cmp: "complete opts (ex_speed x)" using run_returned [OF sp] assms(5,6) by (simp add: returned_inv_def)
  from complete_line [OF assms(1-4) cmp assms(8)] obtain xs ys zs x1 where
    es: "es = xs @ Host k (Handled 0x5B) # ys @ Host k (Handled 0x5D) # zs"
    and no: "Host k (Handled 0x5B) \<notin> set ys" "Host k (Handled 0x5D) \<notin> set ys"
    and run: "trial_run p h read_file execute re opts env order fmt (trial_start opts srvs)
      (xs @ Host k (Handled 0x5B) # ys @ [Host k (Handled 0x5D)]) x1"
    and x1: "\<not> srv_aborted (server_of x1 k)" "line_of x k = stat_packet fmt (srv_stats (server_of x1 k))"
    unfolding measured_def by blast
  have k: "k < length (sp_monitors (ex_speed x))" using cmp assms(1,2) by (simp add: complete_def hosts_started_def)
  have "sp_fns (ex_speed x) \<noteq> []" using run_gather [OF sp] assms(7) by (auto simp: gather_inv_def)
  with run_printed [OF sp] assms(5,6) k have
    "monitor_entry opts (mo_line (sp_monitors (ex_speed x) ! k)) \<in> set (sp_out (ex_speed x))" by (simp add: printed_inv_def)
  then have "monitor_entry opts (line_of x k) \<in> set (sp_out (ex_speed x))" using k by (simp add: line_in_def nth_opt_def)
  moreover have "list_all finished (sp_tasks (ex_speed x1))"
    using closed_finished [OF run_host_inv [OF assms(1-3) run]] run_connected [OF trial_speed_run [OF run]]
    by (simp add: trial_start_def connected_inv_def)
  moreover have "list_all (\<lambda>e. \<not> is_request e) zs"
    using run_no_request [where xs = "xs @ Host k (Handled 0x5B) # ys", OF assms(1-3)] assms(4) es by simp
  ultimately show ?thesis
    using es run x1(2) measured_counts [OF assms(1-3) run no x1(1)] measured_chain [OF assms(1-3) run no] by metis
qed


section \<open>Healthy hosts answer\<close>

definition hosts_healthy :: "(nat \<Rightarrow> os) \<Rightarrow> (nat \<Rightarrow> string \<Rightarrow> string) \<Rightarrow> (nat \<Rightarrow> Options) \<Rightarrow> nat \<Rightarrow> bool" where
  "hosts_healthy env files mopts n \<longleftrightarrow> (\<forall>k < n. healthy_host (env k) (files k) (netdev (mopts k)) \<and> counters_work (env k) \<and>
     netdev (mopts k) \<noteq> [])"

text \<open>No operation on a socket of a host has failed or will fail.\<close>

definition sockets_sound :: "trial \<Rightarrow> nat \<Rightarrow> bool" where
  "sockets_sound x k \<longleftrightarrow> list_all (\<lambda>ct. sound_conn (fst ct) \<and> (snd ct = Running \<or> snd ct = Finished)) (srv_conns (server_of x k))"

lemma healthy_server_wire [simp]: "healthy_server i (wire bs srv) = healthy_server i srv"
  by (simp add: healthy_server_def wire_def)

lemma started_healthy:
  assumes "hosts_started opts env order mopts w0 srvs" "hosts_healthy env files mopts (length srvs)" "k < length srvs"
  shows "healthy_server (netdev (mopts k)) (srvs ! k)"
proof -
  have st: "server_start Release (env k) (order k) (mopts k) (w0 k) = Some (Ok (srvs ! k))" "iterates (order k)"
    using assms(1,3) by (auto simp: hosts_started_def)
  then obtain s w where "Stats_new (env k) (w0 k) = Some (s, w)" by (auto simp: server_start_def split: option.splits)
  from server_start_healthy [OF _ st(2) _ this, of "files k" "mopts k"] assms(2,3) st(1) show ?thesis
    by (auto simp: hosts_healthy_def)
qed

lemma trial_healthy:
  assumes "hosts_started opts env order mopts w0 srvs" "hosts_healthy env files mopts (length srvs)" "k < length srvs"
    and "trial_run p h read_file execute re opts env order fmt (trial_start opts srvs) es x"
  shows "healthy_server (netdev (mopts k)) (server_of x k)"
proof -
  have hk: "healthy_host (env k) (files k) (netdev (mopts k))" "counters_work (env k)" "iterates (order k)"
    using assms(1-3) by (auto simp: hosts_healthy_def hosts_started_def)
  have step: "healthy_server (netdev (mopts k)) (server_of x2 k)"
    if "trial_step p h read_file execute re opts env order fmt x1 e x2" "healthy_server (netdev (mopts k)) (server_of x1 k)" for x1 e x2
  proof (cases "\<exists>a. e = Host k a")
    case True
    then obtain a where e: "e = Host k a" by blast
    have moved: "healthy_server (netdev (mopts k)) srv'"
      if "server_step Release (env k) (order k) fmt srv a srv'" "healthy_server (netdev (mopts k)) srv" for srv a srv'
      by (rule healthy_step [OF hk that(2,1)])
    from that(1) show ?thesis
      by cases (use e that(2) in \<open>auto simp: server_of_def dest!: moved\<close>)
  next
    case False
    then have "host_log k [e] = []" by (cases e) auto
    with step_other(2) [OF that(1)] that(2) show ?thesis by simp
  qed
  have "healthy_server (netdev (mopts k)) (server_of (trial_start opts srvs) k)"
    using started_healthy [OF assms(1-3)] assms(3) by (simp add: trial_start_def server_of_def)
  from trials.run_invariant [where I = "\<lambda>x. healthy_server (netdev (mopts k)) (server_of x k)", OF assms(4) this] step
  show ?thesis by blast
qed

lemma host_can_accept:
  assumes "k < length (ex_hosts x)" "k < length (sp_monitors (ex_speed x))" "srv_conns (server_of x k) = []"
    and "healthy_server i (server_of x k)"
  shows "\<exists>x' c. trial_step p h read_file execute re opts env order fmt x (Host k Silent) x' \<and> ex_speed x' = ex_speed x \<and>
    srv_conns (server_of x' k) = [(c, Running)] \<and> sound_conn c"
proof -
  let ?srv = "(server_of x k)\<lparr>srv_conns := srv_conns (server_of x k) @ [accepted (demo_conn [])]\<rparr>"
  have "server_step Release (env k) (order k) fmt (server_of x k) Silent ?srv"
    by (rule server_step.accept_ok) (use assms(4) in \<open>simp_all add: healthy_server_def demo_conn_def\<close>)
  from host_accepts [where env = env and order = order and p = p and h = h and read_file = read_file and execute = execute and re = re and opts = opts,
      OF assms(1-3) this] assms(1,3) show ?thesis
    by (intro exI [of _ "x\<lparr>ex_hosts := (ex_hosts x)[k := \<lparr>ho_server = ?srv, ho_taken = 0\<rparr>]\<rparr>"] exI [of _ "demo_conn []"])
      (simp add: server_of_def sound_demo_conn, simp add: accepted_def demo_conn_def)
qed

lemma host_can_read:
  assumes "k < length (ex_hosts x)" "srv_conns (server_of x k) = [(c, Running)]" "sound_conn c"
    and "healthy_host (env k) files i" "counters_work (env k)" "iterates (order k)" "healthy_server i (server_of x k)"
    and "untaken x k = b # bs" "b \<noteq> 0x71"
  shows "\<exists>x' c'. trial_step p h read_file execute re opts env order fmt x (Host k (Handled b)) x' \<and> ex_speed x' = ex_speed x \<and>
    srv_conns (server_of x' k) = [(c', Running)] \<and> sound_conn c' \<and> untaken x' k = bs"
proof -
  let ?srv = "wire (untaken x k) (server_of x k)"
  let ?c = "c\<lparr>c_reads := map Inr (untaken x k)\<rparr>"
  have w: "srv_conns ?srv = [(?c, Running)]" "sound_conn ?c" "c_reads ?c = Inr b # map Inr bs" "healthy_server i ?srv"
    using assms(2,3,7,8) by (simp_all add: wire_def sound_conn_def) (simp add: healthy_server_def)
  from healthy_turn [OF assms(4-6) w(4,1,2,3) assms(9), of fmt] obtain srv c' where
    srv: "server_step Release (env k) (order k) fmt ?srv (Handled b) srv" "srv_conns srv = [(c', Running)]" "sound_conn c'"
      "c_reads c' = map Inr bs" by blast
  let ?x = "x\<lparr>ex_hosts := (ex_hosts x)[k := \<lparr>ho_server = srv, ho_taken = Suc (ho_taken (ex_hosts x ! k))\<rparr>]\<rparr>"
  have "srv_conns srv \<noteq> srv_conns ?srv" using srv(2,4) w(1,3) by auto
  from host_reads [where env = env and order = order and p = p and h = h and read_file = read_file and execute = execute and re = re and opts = opts,
      OF assms(1,2) _ srv(1) _ this] assms(8) srv(2)
  have "trial_step p h read_file execute re opts env order fmt x (Host k (Handled b)) ?x" by simp
  moreover have "untaken ?x k = bs" using assms(1,8) by (simp add: untaken_def) (metis drop_Suc drop_tl list.sel(3))
  ultimately show ?thesis using srv(2,3) assms(1) by (intro exI [of _ ?x] exI [of _ c']) (simp add: server_of_def)
qed


text \<open>While \<open>q\<close> has not been sent, the connection of a healthy host is open; when it has taken everything, there is a line.\<close>

lemma host_serving:
  assumes "host_inv run fmt hp k es x" "srv_conns (server_of x k) \<noteq> []" "sockets_sound x k" "\<not> srv_aborted (server_of x k)"
    and "0x71 \<notin> set (stream x k)"
  shows "\<exists>c. srv_conns (server_of x k) = [(c, Running)] \<and> sound_conn c \<and> conn_sound run fmt k es x c Running"
proof -
  obtain c t where ct: "srv_conns (server_of x k) = [(c, t)]" "conn_sound run fmt k es x c t"
    using host_inv_conn [OF assms(1,2)] by blast
  have "0x71 \<notin> set (handled_bytes (host_log k es))" using assms(1,5) set_mono_prefix by (auto simp: host_inv_def)
  with ct assms(3,4) show ?thesis by (auto simp: sockets_sound_def conn_sound_def)
qed

lemma host_answered:
  assumes "host_inv run fmt hp k es x" "srv_conns (server_of x k) = [(c, Running)]" "conn_sound run fmt k es x c Running"
    and "\<not> srv_aborted (server_of x k)" "untaken x k = []" "0x5D \<in> set (stream x k)"
  shows "\<exists>l. line_from (server_of x k) = Some l"
proof -
  have "handled_bytes (host_log k es) = stream x k"
    using assms(1,3-5) by (auto simp: host_inv_def conn_sound_def untaken_def prefix_def)
  with assms(3,4,6) obtain pkt rest where pkt: "c_sent c = pkt # rest" by (cases "c_sent c") (auto simp: conn_sound_def)
  have one: "one_line pkt" using assms(1,2) pkt by (simp add: host_inv_def server_inv_def)
  then have "CHR 0x0A \<in> set (take_line (pkt @ concat rest))"
    unfolding take_line_one_line [OF one] one_line_def by (metis last_in_set)
  with assms(2) pkt show ?thesis by (simp add: line_from_def Let_def)
qed

text \<open>A host that is asked for its line takes what is still on its way and then has sent the line.\<close>

lemma host_can_answer:
  assumes "hosts_started opts env order mopts w0 srvs" "hosts_healthy env files mopts (length srvs)" "k < length srvs"
    and "\<And>y. set (fmt y) \<subseteq> float_chars"
    and "trial_run p h read_file execute re opts env order fmt (trial_start opts srvs) es x"
    and "sp_main (ex_speed x) = M_Read k" "sockets_sound x k"
  shows "\<exists>es' x' l. trial_run p h read_file execute re opts env order fmt x es' x' \<and> ex_speed x' = ex_speed x \<and>
    line_from (server_of x' k) = Some l \<and> sockets_sound x' k \<and> (\<forall>j. j \<noteq> k \<longrightarrow> host_log j es' = [])"
  using assms(5-7)
proof (induction "length (untaken x k) + (if srv_conns (server_of x k) = [] then 4 else 0)" arbitrary: x es rule: less_induct)
  case less
  let ?run = "trial_run p h read_file execute re opts env order fmt"
  have hk: "healthy_host (env k) (files k) (netdev (mopts k))" "counters_work (env k)" "iterates (order k)"
    using assms(1-3) by (auto simp: hosts_healthy_def hosts_started_def)
  note healthy = trial_healthy [OF assms(1-3) less.prems(1)]
  note inv = run_host_inv [OF assms(1,3,4) less.prems(1)]
  have "connected_inv opts (ex_speed x)" using run_connected [OF trial_speed_run [OF less.prems(1)]] by (simp add: trial_start_def)
  then have mon: "k < length (sp_monitors (ex_speed x))" "mo_sent (sp_monitors (ex_speed x) ! k) = [0x5B, 0x5D]"
    using less.prems(2) by (auto simp: connected_inv_def range_inv_def)
  then have stream: "stream x k = [0x5B, 0x5D]" by (simp add: sent_to_def nth_opt_def)
  have hosts: "k < length (ex_hosts x)" using run_hosts [OF less.prems(1)] assms(3) by (simp add: trial_start_def)
  have ab: "\<not> srv_aborted (server_of x k)" using healthy by (simp add: healthy_server_def)
  have continue: ?case if step: "trial_step p h read_file execute re opts env order fmt x (Host k a) x1"
      and x1: "ex_speed x1 = ex_speed x" "sockets_sound x1 k"
        "length (untaken x1 k) + (if srv_conns (server_of x1 k) = [] then 4 else 0) <
         length (untaken x k) + (if srv_conns (server_of x k) = [] then 4 else 0)" for a x1
  proof -
    have run1: "?run x [Host k a] x1" using step by (rule trials.run_one)
    from less.hyps [OF x1(3) trials.run_append [OF less.prems(1) run1] _ x1(2)] x1(1) less.prems(2) obtain es' x' l where
      "?run x1 es' x'" "ex_speed x' = ex_speed x" "line_from (server_of x' k) = Some l" "sockets_sound x' k"
      "(\<forall>j. j \<noteq> k \<longrightarrow> host_log j es' = [])" by auto
    with trials.run_append [OF run1, of es' x'] show ?thesis by (intro exI [of _ "[Host k a] @ es'"]) auto
  qed
  show ?case
  proof (cases "srv_conns (server_of x k) = []")
    case True
    from host_can_accept [OF hosts mon(1) True healthy] obtain x1 c where
      x1: "trial_step p h read_file execute re opts env order fmt x (Host k Silent) x1" "ex_speed x1 = ex_speed x"
        "srv_conns (server_of x1 k) = [(c, Running)]" "sound_conn c" by blast
    have "length (untaken x1 k) \<le> 2" using x1(2) stream by (simp add: untaken_def)
    with True x1 show ?thesis by (intro continue [OF x1(1,2)]) (simp_all add: sockets_sound_def)
  next
    case False
    then obtain c where c: "srv_conns (server_of x k) = [(c, Running)]" "sound_conn c"
      and cs: "conn_sound (?run (trial_start opts srvs)) fmt k es x c Running"
      using host_serving [OF inv _ less.prems(3) ab] stream by auto
    show ?thesis
    proof (cases "untaken x k")
      case Nil
      obtain l where "line_from (server_of x k) = Some l" using host_answered [OF inv c(1) cs ab Nil] stream by auto
      with less.prems(3) show ?thesis by (intro exI [of _ "[]"]) (auto intro: trial_refl)
    next
      case (Cons b bs)
      have "b \<in> set (stream x k)" using Cons by (metis in_set_dropD list.set_intros(1) untaken_def)
      then have "b \<noteq> 0x71" using stream by auto
      from host_can_read [where env = env and order = order, OF hosts c hk healthy Cons this] obtain x1 c1 where
        x1: "trial_step p h read_file execute re opts env order fmt x (Host k (Handled b)) x1" "ex_speed x1 = ex_speed x"
          "srv_conns (server_of x1 k) = [(c1, Running)]" "sound_conn c1" "untaken x1 k = bs" by blast
      with c(1) Cons show ?thesis by (intro continue [OF x1(1,2)]) (simp_all add: sockets_sound_def)
    qed
  qed
qed


section \<open>Experiments can succeed\<close>

lemma others_kept:
  assumes "trial_run p h read_file execute re opts env order fmt x es x'" "host_log j es = []"
  shows "server_of x' j = server_of x j"
proof -
  have "host_log j es = [] \<longrightarrow> server_of x' j = server_of x j"
    by (rule trials.run_log_invariant [where I = "\<lambda>es x'. host_log j es = [] \<longrightarrow> server_of x' j = server_of x j", OF assms(1)])
      (auto simp: step_other(2))
  with assms(2) show ?thesis by simp
qed

text \<open>
  One step of the load generator towards its report: as in a run of its own, but for the line of a monitor,
  for which the host has to come first.
\<close>

lemma trial_live_step:
  assumes "hosts_started opts env order mopts w0 srvs" "hosts_healthy env files mopts (length srvs)"
    and "\<And>y. set (fmt y) \<subseteq> float_chars" "startable p h read_file execute opts" "clones h"
    and "trial_run p h read_file execute re opts env order fmt (trial_start opts srvs) es x"
    and "\<forall>k < length srvs. sockets_sound x k" "\<not> ended (sp_main (ex_speed x))" "\<not> reporting (ex_speed x)"
  shows "\<exists>es' x'. trial_run p h read_file execute re opts env order fmt x es' x' \<and> \<not> ended (sp_main (ex_speed x')) \<and>
    (\<forall>k < length srvs. sockets_sound x' k) \<and>
    steps_left h read_file opts (ex_speed x') < steps_left h read_file opts (ex_speed x)"
proof (cases "\<exists>k. sp_main (ex_speed x) = M_Read k")
  case True
  then obtain k where k: "sp_main (ex_speed x) = M_Read k" by blast
  have sp: "speed_run p h read_file execute re opts (speed_start opts) (ex_speed x)"
    by (rule trial_speed_run [OF assms(6)]) (simp add: trial_start_def)
  have len: "k < length srvs"
    using run_connected [OF sp] k assms(1) by (auto simp: connected_inv_def range_inv_def hosts_started_def)
  from host_can_answer [OF assms(1,2) len assms(3,6) k] assms(7) len obtain es' x1 l where
    x1: "trial_run p h read_file execute re opts env order fmt x es' x1" "ex_speed x1 = ex_speed x"
      "line_from (server_of x1 k) = Some l" "sockets_sound x1 k" "\<forall>j. j \<noteq> k \<longrightarrow> host_log j es' = []" by blast
  let ?sp = "(read_line k l (ex_speed x))\<lparr>sp_main := M_Quit k\<rparr>"
  have "\<not> halted p (ex_speed x)" by (rule live_not_halted [OF assms(8) run_live [OF sp assms(4,5)]])
  then have c: "take_choice p h read_file execute re opts (C_Main None l) (ex_speed x) = Some ?sp" using k by simp
  have "hears x1 (C_Main None l)" using x1(2,3) k by (simp add: hears_def may_read_def)
  from generator_moves [OF this, of p h read_file execute re opts ?sp env order fmt] c x1(2) have
    "trial_run p h read_file execute re opts env order fmt x (es' @ [Gen (C_Main None l)]) (x1\<lparr>ex_speed := ?sp\<rparr>)"
    using trial_trans [OF x1(1)] by simp
  moreover have "sockets_sound (x1\<lparr>ex_speed := ?sp\<rparr>) j" if "j < length srvs" for j
    using that assms(7) x1(4,5) others_kept [OF x1(1), of j] by (cases "j = k") (simp_all add: sockets_sound_def server_of_def)
  ultimately show ?thesis using choice_steps_left [OF c] by (intro exI [of _ "es' @ [Gen (C_Main None l)]"] exI [of _ "x1\<lparr>ex_speed := ?sp\<rparr>"]) simp
next
  case False
  have sp: "speed_run p h read_file execute re opts (speed_start opts) (ex_speed x)"
    by (rule trial_speed_run [OF assms(6)]) (simp add: trial_start_def)
  from live_step [OF sp assms(4,5,8,9)] obtain c sp' where
    c: "take_choice p h read_file execute re opts c (ex_speed x) = Some sp'" "\<not> ended (sp_main sp')"
      "steps_left h read_file opts sp' < steps_left h read_file opts (ex_speed x)" by blast
  have "hears x c" using False by (auto simp: hears_def split: choice.splits option.splits main_pc.splits)
  from trials.run_one [OF generator_moves [OF this c(1)]]
  have "trial_run p h read_file execute re opts env order fmt x [Gen c] (x\<lparr>ex_speed := sp'\<rparr>)" .
  with c(2,3) assms(7) show ?thesis
    by (intro exI [of _ "[Gen c]"] exI [of _ "x\<lparr>ex_speed := sp'\<rparr>"]) (simp add: sockets_sound_def server_of_def)
qed


lemma trial_can_report:
  assumes "hosts_started opts env order mopts w0 srvs" "hosts_healthy env files mopts (length srvs)"
    and "\<And>y. set (fmt y) \<subseteq> float_chars" "startable p h read_file execute opts" "clones h"
    and "trial_run p h read_file execute re opts env order fmt (trial_start opts srvs) es x"
    and "\<forall>k < length srvs. sockets_sound x k" "\<not> ended (sp_main (ex_speed x))"
  shows "\<exists>es' x'. trial_run p h read_file execute re opts env order fmt x es' x' \<and> reporting (ex_speed x') \<and>
    (\<forall>k < length srvs. sockets_sound x' k)"
  using assms(6-8)
proof (induction "steps_left h read_file opts (ex_speed x)" arbitrary: x es rule: less_induct)
  case less
  show ?case
  proof (cases "reporting (ex_speed x)")
    case True
    with less.prems(2) show ?thesis by (blast intro: trial_refl)
  next
    case False
    from trial_live_step [OF assms(1-5) less.prems this] obtain es1 x1 where
      x1: "trial_run p h read_file execute re opts env order fmt x es1 x1" "\<not> ended (sp_main (ex_speed x1))"
        "\<forall>k < length srvs. sockets_sound x1 k"
        "steps_left h read_file opts (ex_speed x1) < steps_left h read_file opts (ex_speed x)" by blast
    from less.hyps [OF x1(4) trials.run_append [OF less.prems(1) x1(1)] x1(3,2)] trials.run_append [OF x1(1)] show ?thesis by blast
  qed
qed

text \<open>The last step of a run that reports is the report itself; no host takes part.\<close>

lemma trial_report:
  assumes "trial_run Release h read_file execute re opts env order fmt x0 es x" "ex_speed x0 = speed_start opts"
    and "startable Release h read_file execute opts" "clones h" "sorts (re_sort re)" "reporting (ex_speed x)"
  shows "\<exists>sp. trial_step Release h read_file execute re opts env order fmt x (Gen (C_Main None [])) (x\<lparr>ex_speed := sp\<rparr>) \<and>
    sp_main sp = M_Returned"
proof -
  note sp = trial_speed_run [OF assms(1,2)]
  have st: "ok_den (offload_frac_den opts)" "\<not> oneshot opts" using assms(3) by (auto simp: startable_def)
  obtain sp2 where sp2: "main_next Release re opts None [] (sp_main (ex_speed x)) (ex_speed x) = Some sp2" "sp_main sp2 = M_Returned"
    using report_returns [OF sp st(1) assms(4) st(2) assms(5,6)] by blast
  have gather: "\<exists>acc. sp_main (ex_speed x) = M_Gather acc" using assms(6) by (auto simp: reporting_def split: main_pc.splits)
  then have "\<not> halted Release (ex_speed x)" using live_not_halted [OF _ run_live [OF sp assms(3,4)]] by auto
  with sp2(1) have "take_choice Release h read_file execute re opts (C_Main None []) (ex_speed x) = Some sp2" by simp
  moreover have "hears x (C_Main None [])" using gather by (auto simp: hears_def)
  ultimately show ?thesis using sp2(2) generator_moves by blast
qed

lemma trial_can_return:
  assumes "hosts_started opts env order mopts w0 srvs" "hosts_healthy env files mopts (length srvs)"
    and "\<And>y. set (fmt y) \<subseteq> float_chars" "startable Release h read_file execute opts" "clones h" "sorts (re_sort re)"
    and "trial_run Release h read_file execute re opts env order fmt (trial_start opts srvs) es x"
    and "\<forall>k < length srvs. sockets_sound x k" "\<not> ended (sp_main (ex_speed x))"
  shows "\<exists>es' x'. trial_run Release h read_file execute re opts env order fmt x es' x' \<and>
    sp_main (ex_speed x') = M_Returned \<and> (\<forall>k < length srvs. \<not> host_failed (server_of x' k))"
proof -
  let ?run = "trial_run Release h read_file execute re opts env order fmt"
  from trial_can_report [OF assms(1-5,7-9)] obtain es1 x1 where
    x1: "?run x es1 x1" "reporting (ex_speed x1)" "\<forall>k < length srvs. sockets_sound x1 k" by blast
  note run = trials.run_append [OF assms(7) x1(1)]
  have "ex_speed (trial_start opts srvs) = speed_start opts" by (simp add: trial_start_def)
  from trial_report [OF run this assms(4-6) x1(2)] obtain sp2 where
    sp2: "trial_step Release h read_file execute re opts env order fmt x1 (Gen (C_Main None [])) (x1\<lparr>ex_speed := sp2\<rparr>)"
      "sp_main sp2 = M_Returned" by blast
  have "\<not> host_failed (server_of (x1\<lparr>ex_speed := sp2\<rparr>) k)" if k: "k < length srvs" for k
    using x1(3) k trial_healthy [OF assms(1,2) k run]
    by (auto simp: host_failed_def sockets_sound_def server_of_def healthy_server_def split: list.splits task.splits)
  with trial_trans [OF x1(1) sp2(1)] sp2(2) show ?thesis
    by (intro exI [of _ "es1 @ [Gen (C_Main None [])]"] exI [of _ "x1\<lparr>ex_speed := sp2\<rparr>"]) simp
qed


section \<open>A concrete experiment\<close>

text \<open>Two requests against one host.\<close>

abbreviation demo_trial :: "trial \<Rightarrow> event list \<Rightarrow> trial \<Rightarrow> bool" where
  "demo_trial \<equiv> trial_run Release demo_http (\<lambda>_. Inl (Errno 2)) (\<lambda>_. run_reply) run_env run_opts (\<lambda>_. demo_env) (\<lambda>_. rev) (\<lambda>_. ''0.5'')"

abbreviation demo_started :: "server list \<Rightarrow> bool" where
  "demo_started \<equiv> hosts_started run_opts (\<lambda>_. demo_env) (\<lambda>_. rev) (\<lambda>_. Options_default ''eth0'') (\<lambda>_. start_world)"

lemma demo_monitor_count: "length (monitor_names run_opts) = 1"
  by code_simp

lemma demo_hosts: "\<exists>srv. demo_started [srv]"
proof -
  obtain srv where "server_start Release demo_env rev (Options_default ''eth0'') start_world = Some (Ok srv)"
    using demo_run by blast
  then show ?thesis
    using demo_assumptions(1,3) iterates_rev by (auto simp: hosts_started_def demo_monitor_count)
qed

lemma demo_conns: "demo_started [srv] \<Longrightarrow> srv_conns srv = []"
  using server_start_conns by (auto simp: hosts_started_def)

lemma demo_healthy: "hosts_healthy (\<lambda>_. demo_env) (\<lambda>_. demo_files) (\<lambda>_. Options_default ''eth0'') n"
  using healthy_demo demo_counters by (simp add: hosts_healthy_def Options_default_def)

lemmas demo_can_return = trial_can_return [OF _ demo_healthy demo_assumptions(2) demo_startable demo_clones run_env_sorts]


text \<open>The load generator runs through its choices without its hosts, up to the line of the first.\<close>

primrec alone :: "choice list \<Rightarrow> speed \<Rightarrow> speed option" where
  "alone [] sp = Some sp"
| "alone (c # cs) sp =
    (case sp_main sp of M_Read k \<Rightarrow> None
     | _ \<Rightarrow> (case take_choice Release demo_http (\<lambda>_. Inl (Errno 2)) (\<lambda>_. run_reply) run_env run_opts c sp of
         None \<Rightarrow> None | Some sp' \<Rightarrow> alone cs sp'))"

lemma alone_trial: "alone cs (ex_speed x) = Some sp \<Longrightarrow> demo_trial x (map Gen cs) (x\<lparr>ex_speed := sp\<rparr>)"
proof (induction cs arbitrary: x)
  case (Cons c cs)
  from Cons.prems obtain sp1 where sp1: "take_choice Release demo_http (\<lambda>_. Inl (Errno 2)) (\<lambda>_. run_reply) run_env run_opts c (ex_speed x) = Some sp1"
      "alone cs sp1 = Some sp" by (auto split: main_pc.splits option.splits)
  have "hears x c" using Cons.prems by (auto simp: hears_def split: choice.splits option.splits main_pc.splits)
  from trials.run_one [OF generator_moves [OF this sp1(1)]]
  have "demo_trial x [Gen c] (x\<lparr>ex_speed := sp1\<rparr>)" .
  from trials.run_append [OF this Cons.IH] sp1(2) show ?case by simp
next
  case Nil
  then have "x\<lparr>ex_speed := sp\<rparr> = x" by simp
  then show ?case by (simp add: trial_refl)
qed

definition choices_alone :: "choice list" where
  "choices_alone = choices_spawned @ [C_Fn 0] @ sends 0 @ sends 1 @ [C_Fn 0, C_Fn 0, C_Fn 0, C_Barrier] @ replicate 2 main_goes"

lemma alone_eval:
  "map_option (\<lambda>sp. (case sp_main sp of M_Read k \<Rightarrow> Some k | _ \<Rightarrow> None, length (sp_tasks sp))) (alone choices_alone (speed_start run_opts)) =
    Some (Some 0, 2)"
  by code_simp

lemma alone_requests: "length (filter is_request (map Gen choices_alone)) = 6"
  by code_simp


text \<open>When the functions are joined, no step of the load generator makes a request any more.\<close>

definition settled :: "speed \<Rightarrow> bool" where
  "settled sp \<longleftrightarrow> list_all is_done (sp_fns sp) \<and> list_all finished (sp_tasks sp)"

lemma settled_choice:
  assumes "take_choice p h read_file execute re opts c sp = Some sp'" "settled sp"
  shows "settled sp'"
proof (cases c)
  case (C_Fn i)
  have "\<exists>pl n rs. sp_fns sp ! i = F_Done pl n rs" if "i < length (sp_fns sp)"
    using that assms(2) by (auto simp: settled_def is_done_def list_all_length)
  with C_Fn assms(1) show ?thesis by (auto split: if_splits)
next
  case (C_Request j now a)
  have "\<exists>r. rt_state (sp_tasks sp ! j) = R_Finished r" if "j < length (sp_tasks sp)"
    using that assms(2) by (auto simp: settled_def finished_def list_all_length)
  with C_Request assms(1) show ?thesis by (auto split: if_splits)
next
  case (C_Main a l)
  then have "main_next p re opts a l (sp_main sp) sp = Some sp'" using assms(1) by (simp split: if_splits)
  from main_next_frame [OF this] assms(2) show ?thesis by (simp add: settled_def)
next
  case C_Barrier
  have "is_done (fn_release opts pc)" if "is_done pc" for pc using that by (auto simp: is_done_def)
  with C_Barrier assms show ?thesis by (auto simp: settled_def release_all_def list_all_iff split: if_splits)
qed (use assms in \<open>auto simp: settled_def split: if_splits\<close>)

lemma settled_run:
  assumes "trial_run p h read_file execute re opts env order fmt x es x'" "settled (ex_speed x)"
  shows "settled (ex_speed x') \<and> list_all (\<lambda>e. \<not> is_request e) es"
proof (rule trials.run_log_invariant [OF assms(1)])
  fix es e x1 x2
  assume old: "settled (ex_speed x1) \<and> list_all (\<lambda>e. \<not> is_request e) es"
    and step: "trial_step p h read_file execute re opts env order fmt x1 e x2"
  from step have "settled (ex_speed x2)" by cases (use old settled_choice in auto)
  moreover have "\<not> is_request e" using finished_no_request [OF _ step] old by (simp add: settled_def)
  ultimately show "settled (ex_speed x2) \<and> list_all (\<lambda>e. \<not> is_request e) (es @ [e])" using old by simp
qed (simp add: assms(2))

text \<open>The experiment in which the host is late: it does nothing until its line is read.\<close>

lemma late_trial:
  assumes "demo_started [srv]"
  shows "\<exists>es x. demo_trial (trial_start run_opts [srv]) (map Gen choices_alone @ es) x \<and> sp_main (ex_speed x) = M_Returned \<and>
    \<not> host_failed (server_of x 0) \<and> list_all (\<lambda>e. \<not> is_request e) es"
proof -
  let ?start = "trial_start run_opts [srv]"
  obtain sp where al: "alone choices_alone (speed_start run_opts) = Some sp"
      "(case sp_main sp of M_Read k \<Rightarrow> Some k | _ \<Rightarrow> None) = Some 0" using alone_eval by auto
  then have sp: "alone choices_alone (speed_start run_opts) = Some sp" "sp_main sp = M_Read 0" by (cases "sp_main sp"; simp)+
  let ?x = "?start\<lparr>ex_speed := sp\<rparr>"
  have run: "demo_trial ?start (map Gen choices_alone) ?x"
    by (rule alone_trial) (simp add: trial_start_def sp(1))
  have "range_inv sp" using run_connected [OF trial_speed_run [OF run]] by (simp add: trial_start_def connected_inv_def)
  then have settled: "settled sp"
    using sp(2) done_finished [of "sp_fns sp" "sp_tasks sp"] by (simp add: settled_def range_inv_def closing_def)
  have "\<forall>k < length [srv]. sockets_sound ?x k" using demo_conns [OF assms] by (simp add: sockets_sound_def trial_start_def server_of_def)
  moreover have "\<not> ended (sp_main (ex_speed ?x))" using sp(2) by simp
  ultimately obtain es x where es: "demo_trial ?x es x" "sp_main (ex_speed x) = M_Returned" "\<not> host_failed (server_of x 0)"
    using demo_can_return [OF assms run] by auto
  with settled_run [OF es(1)] settled trials.run_append [OF run es(1)] show ?thesis by auto
qed

lemma demo_fns: "\<not> oneshot run_opts" "function_names run_opts \<noteq> []" "length (function_names run_opts) = 1"
  by code_simp+

lemma run_den: "ok_den (offload_frac_den run_opts)"
  by code_simp

theorem experiment_reports_range_witness:
  "\<exists>srv es x xs ys zs x1. demo_trial (trial_start run_opts [srv]) es x \<and>
     es = xs @ Host 0 (Handled 0x5B) # ys @ Host 0 (Handled 0x5D) # zs \<and>
     monitor_entry run_opts (stat_packet (\<lambda>_. ''0.5'') (srv_stats (server_of x1 0))) \<in> set (sp_out (ex_speed x)) \<and>
     list_all finished (sp_tasks (ex_speed x1))"
proof -
  obtain srv where srv: "demo_started [srv]" using demo_hosts by blast
  obtain es x where es: "demo_trial (trial_start run_opts [srv]) (map Gen choices_alone @ es) x" "sp_main (ex_speed x) = M_Returned"
    "\<not> host_failed (server_of x 0)" using late_trial [OF srv] by blast
  have "0 < length [srv]" by simp
  from experiment_reports_range [OF srv this demo_assumptions(2) es(1,2) demo_fns(1,2) es(3)] es(1) show ?thesis by blast
qed

text \<open>
  C25. A range may be opened too late. The load generator writes the byte that opens the range and goes on
  without an answer, so nothing makes the host take it before the requests are made: there is an experiment
  on a healthy host, with a report and a successful end, in which both requests were sent, answered and
  finished before the host opened the range that is reported, and none was made after.
\<close>

theorem range_may_miss_requests:
  "\<exists>srv xs zs x. demo_started [srv] \<and>
     demo_trial (trial_start run_opts [srv]) (xs @ Host 0 (Handled 0x5B) # zs) x \<and>
     sp_main (ex_speed x) = M_Returned \<and> \<not> host_failed (server_of x 0) \<and> length (sp_tasks (ex_speed x)) = 2 \<and>
     length (filter is_request xs) = 6 \<and> list_all (\<lambda>e. \<not> is_request e) zs"
proof -
  obtain srv where srv: "demo_started [srv]" using demo_hosts by blast
  obtain es x where es: "demo_trial (trial_start run_opts [srv]) (map Gen choices_alone @ es) x" "sp_main (ex_speed x) = M_Returned"
    "\<not> host_failed (server_of x 0)" "list_all (\<lambda>e. \<not> is_request e) es" using late_trial [OF srv] by blast
  have sp: "speed_run Release demo_http (\<lambda>_. Inl (Errno 2)) (\<lambda>_. run_reply) run_env run_opts (speed_start run_opts) (ex_speed x)"
    by (rule trial_speed_run [OF es(1)]) (simp add: trial_start_def)
  then have cmp: "complete run_opts (ex_speed x)" using run_returned [OF sp] es(2) demo_fns(1) by (simp add: returned_inv_def)
  have "0 < length [srv]" by simp
  from complete_line [OF srv this demo_assumptions(2) es(1) cmp es(3)] obtain ps qs where
    "map Gen choices_alone @ es = ps @ Host 0 (Handled 0x5B) # qs" unfolding measured_def by blast
  then have "Host 0 (Handled 0x5B) \<in> set (map Gen choices_alone @ es)" by (metis in_set_conv_decomp)
  then have "Host 0 (Handled 0x5B) \<in> set es" by auto
  then obtain us vs where us: "es = us @ Host 0 (Handled 0x5B) # vs" by (meson split_list)
  have "length (filter is_request (map Gen choices_alone @ us)) = 6"
    using alone_requests es(4) us by (simp add: list_all_iff)
  moreover have "length (sp_tasks (ex_speed x)) = 2"
    using done_requests [OF run_counts [OF sp run_den demo_clones] _ _ demo_fns(1)] cmp run_connected [OF sp] run_gather [OF sp]
    by (simp add: complete_def connected_inv_def range_inv_def demo_fns(3) demo_requests)
  ultimately show ?thesis using srv es us by (intro exI [of _ srv] exI [of _ "map Gen choices_alone @ us"] exI [of _ vs] exI [of _ x]) simp
qed

text \<open>After an empty line the load generator goes on as after any other.\<close>

definition choices_rest :: "choice list" where
  "choices_rest = [main_goes, main_goes, C_Progress, main_goes, main_goes]"

definition empty_line :: choice where
  "empty_line = C_Main None []"

definition lost_state :: "speed option" where
  "lost_state =
    (case alone choices_alone (speed_start run_opts) of None \<Rightarrow> None
     | Some sp \<Rightarrow> (case run_schedule [empty_line] sp of None \<Rightarrow> None | Some sp' \<Rightarrow> alone choices_rest sp'))"

lemma lost_state_eval: "map_option (\<lambda>sp. (reporting sp, map mo_line (sp_monitors sp))) lost_state = Some (True, [[]])"
  by code_simp

text \<open>A connection that the host gives up at once, because an option of its socket was refused.\<close>

definition refused_conn :: conn where
  "refused_conn = (demo_conn [])\<lparr>c_nodelay := Some (Errno 22)\<rparr>"

lemma host_can_refuse:
  assumes "k < length (ex_hosts x)" "k < length (sp_monitors (ex_speed x))" "srv_conns (server_of x k) = []" "\<not> srv_aborted (server_of x k)"
  shows "\<exists>x'. trial_step p h read_file execute re opts env order fmt x (Host k Silent) x' \<and> ex_speed x' = ex_speed x \<and>
    host_failed (server_of x' k) \<and> line_from (server_of x' k) = Some []"
proof -
  let ?srv = "(server_of x k)\<lparr>srv_conns := srv_conns (server_of x k) @ [accepted refused_conn]\<rparr>"
  let ?x' = "x\<lparr>ex_hosts := (ex_hosts x)[k := \<lparr>ho_server = ?srv, ho_taken = 0\<rparr>]\<rparr>"
  have "server_step Release (env k) (order k) fmt (server_of x k) Silent ?srv"
    by (rule server_step.accept_ok) (use assms(4) in \<open>simp_all add: refused_conn_def demo_conn_def\<close>)
  from host_accepts [where env = env and order = order and p = p and h = h and read_file = read_file and execute = execute and
      re = re and opts = opts, OF assms(1-3) this] assms(3)
  have "trial_step p h read_file execute re opts env order fmt x (Host k Silent) ?x'" by simp
  moreover have "server_of ?x' k = (server_of x k)\<lparr>srv_conns := [(refused_conn, FailedWith (IoError (Errno 22)))]\<rparr>"
    using assms(1,3) by (simp add: server_of_def accepted_def refused_conn_def)
  ultimately show ?thesis
    by (intro exI [of _ ?x']) (simp add: host_failed_def line_from_def Let_def take_line_def refused_conn_def demo_conn_def)
qed


lemma host_log_gen: "host_log k (map Gen cs) = []"
  by (induction cs) simp_all

lemma lost_trial:
  assumes "demo_started [srv]"
  shows "\<exists>es x. demo_trial (trial_start run_opts [srv]) es x \<and> reporting (ex_speed x) \<and> host_failed (server_of x 0) \<and>
    map mo_line (sp_monitors (ex_speed x)) = [[]] \<and> host_log 0 es = [Silent]"
proof -
  let ?start = "trial_start run_opts [srv]"
  obtain sp sp' sp3 where al: "alone choices_alone (speed_start run_opts) = Some sp" "run_schedule [empty_line] sp = Some sp'"
      "alone choices_rest sp' = Some sp3" "reporting sp3" "map mo_line (sp_monitors sp3) = [[]]"
    using lost_state_eval by (auto simp: lost_state_def split: option.splits)
  have "(case sp_main sp of M_Read k \<Rightarrow> Some k | _ \<Rightarrow> None) = Some 0" using alone_eval al(1) by simp
  then have main: "sp_main sp = M_Read 0" by (cases "sp_main sp") simp_all
  let ?x = "?start\<lparr>ex_speed := sp\<rparr>"
  have run: "demo_trial ?start (map Gen choices_alone) ?x" by (rule alone_trial) (simp add: trial_start_def al(1))
  have "range_inv sp" using run_connected [OF trial_speed_run [OF run]] by (simp add: trial_start_def connected_inv_def)
  then have "0 < length (sp_monitors (ex_speed ?x))" using main by (simp add: range_inv_def)
  moreover have "srv_conns (server_of ?x 0) = []" "\<not> srv_aborted (server_of ?x 0)" "0 < length (ex_hosts ?x)"
    using started_healthy [OF assms demo_healthy, of 0] demo_conns [OF assms]
    by (simp_all add: trial_start_def server_of_def healthy_server_def)
  ultimately obtain x1 where x1: "trial_step Release demo_http (\<lambda>_. Inl (Errno 2)) (\<lambda>_. run_reply) run_env run_opts
      (\<lambda>_. demo_env) (\<lambda>_. rev) (\<lambda>_. ''0.5'') ?x (Host 0 Silent) x1" "ex_speed x1 = sp"
      "host_failed (server_of x1 0)" "line_from (server_of x1 0) = Some []"
    using host_can_refuse [of 0 ?x Release demo_http "\<lambda>_. Inl (Errno 2)" "\<lambda>_. run_reply" run_env run_opts
        "\<lambda>_. demo_env" "\<lambda>_. rev" "\<lambda>_. ''0.5''"] by auto
  have "hears x1 empty_line" using x1(2,4) main by (simp add: hears_def may_read_def empty_line_def)
  moreover have "take_choice Release demo_http (\<lambda>_. Inl (Errno 2)) (\<lambda>_. run_reply) run_env run_opts empty_line (ex_speed x1) = Some sp'"
    using al(2) x1(2) by (simp add: run_schedule_def split: option.splits)
  ultimately have "demo_trial ?start ((map Gen choices_alone @ [Host 0 Silent]) @ [Gen empty_line]) (x1\<lparr>ex_speed := sp'\<rparr>)"
    by (intro trial_trans [OF trial_trans [OF run x1(1)]] generator_moves)
  moreover have "demo_trial (x1\<lparr>ex_speed := sp'\<rparr>) (map Gen choices_rest) (x1\<lparr>ex_speed := sp'\<rparr>\<lparr>ex_speed := sp3\<rparr>)"
    by (rule alone_trial) (simp add: al(3))
  ultimately have "demo_trial ?start (((map Gen choices_alone @ [Host 0 Silent]) @ [Gen empty_line]) @ map Gen choices_rest)
      (x1\<lparr>ex_speed := sp3\<rparr>)" using trials.run_append by fastforce
  with al(4,5) x1(3) show ?thesis
    by (intro exI [of _ "((map Gen choices_alone @ [Host 0 Silent]) @ [Gen empty_line]) @ map Gen choices_rest"]
        exI [of _ "x1\<lparr>ex_speed := sp3\<rparr>"]) (simp add: server_of_def host_log_gen)
qed

text \<open>
  C26. A failed host goes unnoticed. The end of the stream is a line of no characters for \<open>read_line\<close>, and its
  result is not looked at: there is an experiment in which the host gives up the connection before it takes a
  byte, no range is ever opened, and the load generator still prints its report, with an empty monitoring
  result, and returns successfully.
\<close>

theorem failed_host_goes_unnoticed:
  "\<exists>srv es x. demo_started [srv] \<and> demo_trial (trial_start run_opts [srv]) es x \<and> sp_main (ex_speed x) = M_Returned \<and>
     host_failed (server_of x 0) \<and> Host 0 (Handled 0x5B) \<notin> set es \<and> monitor_entry run_opts [] \<in> set (sp_out (ex_speed x))"
proof -
  obtain srv where srv: "demo_started [srv]" using demo_hosts by blast
  from lost_trial [OF srv] obtain es x where x: "demo_trial (trial_start run_opts [srv]) es x" "reporting (ex_speed x)"
      "host_failed (server_of x 0)" "map mo_line (sp_monitors (ex_speed x)) = [[]]" "host_log 0 es = [Silent]" by (elim exE conjE)
  have "ex_speed (trial_start run_opts [srv]) = speed_start run_opts" by (simp add: trial_start_def)
  from trial_report [OF x(1) this demo_startable demo_clones run_env_sorts x(2)] obtain sp where
    step: "trial_step Release demo_http (\<lambda>_. Inl (Errno 2)) (\<lambda>_. run_reply) run_env run_opts (\<lambda>_. demo_env) (\<lambda>_. rev)
      (\<lambda>_. ''0.5'') x (Gen empty_line) (x\<lparr>ex_speed := sp\<rparr>)" and sp: "sp_main sp = M_Returned"
    unfolding empty_line_def by blast
  let ?x = "x\<lparr>ex_speed := sp\<rparr>"
  note run = trial_trans [OF x(1) step]
  have server: "server_of ?x 0 = server_of x 0" by (simp add: server_of_def)
  have speed: "speed_run Release demo_http (\<lambda>_. Inl (Errno 2)) (\<lambda>_. run_reply) run_env run_opts (speed_start run_opts) sp"
    using trial_speed_run [OF run] by (simp add: trial_start_def)
  have "take_choice Release demo_http (\<lambda>_. Inl (Errno 2)) (\<lambda>_. run_reply) run_env run_opts empty_line (ex_speed x) = Some sp"
    using step by cases (auto dest: arg_cong [where f = ex_speed])
  then have "sp_monitors sp = sp_monitors (ex_speed x)" using main_next_returns(2) [OF _ sp] by (simp add: empty_line_def split: if_splits)
  with x(4) have "\<exists>m \<in> set (sp_monitors sp). mo_line m = []" by (auto simp: map_eq_Cons_conv)
  moreover have "sp_fns sp \<noteq> []" using run_gather [OF speed] demo_fns(2) by auto
  ultimately have "monitor_entry run_opts [] \<in> set (sp_out sp)"
    using run_printed [OF speed] sp demo_fns(1) unfolding printed_inv_def by metis
  moreover have "Host 0 (Handled 0x5B) \<notin> set (es @ [Gen empty_line])"
    using x(5) host_log_set [of "Handled 0x5B" 0 es] by simp
  ultimately show ?thesis using srv run sp x(3) server by (intro exI [of _ srv] exI [of _ "es @ [Gen empty_line]"] exI [of _ ?x]) simp
qed

end

