(* ===== verification/Spec2Isabelle.thy ===== *)
theory Spec2Isabelle
  imports Offload_Sim Trace_Analysis Float_Figures Speed_Rates Experiment_Runs
begin

text \<open>
  A verification development for the Rust programs of the repository: tools around experiments with
  near-data processing, where functions run either on the compute node or next to their data.

  \<^bold>\<open>The programs and how they interact.\<close> The load generator (\<^verbatim>\<open>src/faasmspeed/src/main.rs\<close>) sends HTTP
  requests at a given rate, a given fraction of them marked for offloading, and reports latencies. Around the
  measured requests it drives, on every host under test, a monitoring server (\<^verbatim>\<open>src/statmon/src\<close>): one byte
  opens a range, one byte closes it and is answered by a line of statistics, which ends up in the report. The
  server samples files of the kernel, hardware counters and a file of the system under test. Apart from them
  there are the trace analyser (\<^verbatim>\<open>src/pin-NearMAP/analyse-results/src/main.rs\<close>), which counts the pages that
  the phases of a traced program read and write from logs of an instrumentation tool, and the data model of a
  scheduling simulator (\<^verbatim>\<open>src/ndoffloadsim/src/main.rs\<close>).

  \<^bold>\<open>Conventions.\<close> \<open>Rust_Prelude\<close> has the machine integers (\<open>w word\<close>, signed and unsigned readings of one type),
  the two build profiles (\<open>Dev\<close> panics on overflow, \<open>Release\<close> wraps around), outcomes (\<open>Ok\<close>, \<open>Err\<close>, \<open>Panic\<close>) and
  the combinators of stateful programs: a function on \<open>&mut self\<close> returns its outcome and the state, after an
  error too. The prelude also has the program logic (\<open>pres\<close>, \<open>keeps\<close>) and shared lemmas. \<open>Rust_Str\<close> is what the
  sources use of \<open>str\<close> (white space, splitting, decimal integers), with the locale \<open>printable\<close> for texts that
  read back; \<open>Rust_Map\<close> is the hash map with the locale \<open>hash_map\<close>, and iteration orders as a parameter
  (\<open>iterates\<close>); \<open>Rust_F64\<close> is binary64 arithmetic with rounding to nearest, and \<open>F64_Laws\<close> proves it right over
  the reals: rounding returns a nearest finite value, integers below \<open>2^53\<close> are exact, the order is the order of
  the reals. \<open>Os_Env\<close> is the operating system below the monitor as a record of functions of time: opening,
  reading and seeking files, locks, performance counters, the regular expression engine. What a theorem needs
  of it is a named hypothesis (\<open>healthy_host\<close>, \<open>serves\<close>) with a concrete instance (\<open>static_os\<close>).

  \<open>Runs\<close> has the locale \<open>logged_run\<close>, the contract of runs with a log of their steps, interpreted for the server, for the
  schedules of the load generator and for whole experiments; invariants of steps are lifted to runs by its lemmas.

  \<^bold>\<open>The scheduling simulator.\<close> \<open>Offload_Sim\<close>: the types and \<open>node_mask\<close>; masks represent sets of nodes.

  \<^bold>\<open>The trace analyser.\<close> \<open>Trace_Analysis\<close>: \<open>scan_lines\<close> (reading a log), \<open>phase_counts\<close> and its counters,
  \<open>analyse_file\<close>, \<open>analyse_folder\<close> and \<open>analyse_main\<close>. The counters are the cardinalities of sets of pages stated
  without the loops; the log format of the tool (\<^verbatim>\<open>src/pin-NearMAP\<close>, C++) scans back to its accesses; malformed
  lines panic.

  \<^bold>\<open>The monitor.\<close> \<open>Stat_Value\<close> is \<open>StatValue\<close> and \<open>Stat\<close> of \<^verbatim>\<open>stats.rs\<close>; the locale \<open>sample_store\<close> is the contract
  of an aggregation that represents a list of samples, interpreted for the integer statistics, for exact sums
  under overflow checks and (in \<open>Float_Figures\<close>) for floats. \<open>Which_Stat\<close> is the index of the table. \<open>Cpu_Stat\<close>,
  \<open>Io_Stat\<close> and \<open>Event_Stat\<close> are \<^verbatim>\<open>cpustat.rs\<close>, \<^verbatim>\<open>iostat.rs\<close> and \<^verbatim>\<open>eventstat.rs\<close>; the locale \<open>delta_sampler\<close> of
  \<open>Os_Env\<close> (what is reported is the growth since the reading before, so reports add up) is interpreted for the
  CPU, the disks and the network. \<open>Stats\<close> is \<open>Stats\<close> with its readers, \<open>stats_update\<close>, \<open>begin_range\<close>, \<open>end_range\<close>
  and \<open>stat_packet\<close>. On top of it: \<open>Safety\<close> (every outcome of an update leaves well-formed statistics, and every
  panic has a cause in the environment or is an overflow), \<open>Readers\<close> (what the readers store for files as the
  kernel prints them), \<open>Liveness\<close> (on a healthy host every update succeeds), \<open>Ranges\<close> (what a range reports, from
  \<open>begin_range\<close> over any number of updates; the locales \<open>stat_view\<close> and \<open>stat_view_cpu\<close> say what later readers
  leave alone), \<open>Packet\<close> (the line reads back), \<open>Float_Figures\<close> (averages are the nearest float to the exact mean,
  minima and maxima of floats are exact).

  \<^bold>\<open>The monitoring server.\<close> \<open>Server\<close> is \<^verbatim>\<open>statmon/src/main.rs\<close>: \<open>handle_byte\<close>, \<open>conn_handler\<close> and its loop, start-up,
  and \<open>server_step\<close>, the interleaving of the ticker, the accept loop and the connections on the shared
  statistics. Its abstract specification is a counter of the updates of a range, and a simulation shows that
  the server refines it; \<open>Server_Runs\<close> lifts this to whole runs, and shows that only whole lines are sent and
  that a client on a healthy host gets one packet per request. \<open>Server_Main\<close> is \<open>main\<close> and the bind of the port: the
  ways the process can end, and that on a healthy host it never does. \<open>Runtime_Setup\<close> has the settings of the
  asynchronous runtime, which both programs build.

  \<^bold>\<open>The load generator.\<close> \<open>Speed_Requests\<close> has the options, the request pool, the test request and the generator
  of the schedule; \<open>Speed_Report\<close> has what is printed; \<open>Speed_Run\<close> has the tasks: request, function, progress and main task
  are program counters with their local variables, and \<open>speed_step\<close> lets any of them take the step to its next
  point of interference, or lets the barrier release everyone; \<open>schedule\<close> executes a list of choices, and its
  runs are exactly those of the relation. \<open>Speed_Setup\<close> (defaults and remaining panics), \<open>Speed_Schedule\<close> (the
  schedule in closed form, and the denominator for which it hangs), \<open>Speed_Figures\<close> (summaries, intervals and
  error counts are exact), \<open>Speed_Rates\<close> (numbers of requests, periods and standard deviations computed in
  floating point), \<open>Speed_Safety\<close> (requests are made between the two bytes of a range), \<open>Speed_Counts\<close> (every request is
  accounted for), \<open>Speed_Progress\<close> (the percentage, and what a panicking function does), \<open>Speed_Termination\<close> (a
  bound on every interleaving, and no deadlock when every function can be started), \<open>Speed_Finish\<close> (a release
  build can always print its report and return). \<open>Speed_Main\<close> is \<open>make_client\<close> and \<open>main\<close>, with the builders of the
  client and of the runtime as parameters: a successful exit is a complete measurement. \<open>Speed_Output\<close>: the lines of
  the monitors are in what was printed.

  \<^bold>\<open>The composition.\<close> \<open>Monitoring\<close>: what a complete run writes to a monitor is a session of the server, which
  answers with exactly the line that the load generator prints. \<open>Experiment\<close> puts the programs together: \<open>trial_step\<close> is
  one step of the load generator (\<open>take_choice\<close>) or one step of one of its hosts (\<open>server_step\<close>), in any order; a host
  takes the bytes of its stream in their order and any time after they were written, and \<open>read_line\<close> returns a line
  that the host has sent, or what is left when the host has gone. Every run has a log of events. Invariants over
  the log relate the bytes a host has handled to those that were written, and every packet to the place in the log
  where its range was closed. \<open>Experiment_Ranges\<close>: between the two bytes of its range the statistics of a host go
  through a chain of updates, to which what \<open>Ranges\<close> shows of chains applies. \<open>Experiment_Runs\<close>: what is reported for a host is its range, with its ticks and with no
  request after it; from every state healthy hosts and the load generator can come to a successful end together; the
  range may be opened after the requests are made, and a host that is lost goes unnoticed. The hosts are distinct
  machines, and the load generator is their only client.

  \<^bold>\<open>Loops and bounds.\<close> Loops over lists are recursion on the list. \<open>conn_loop\<close> is fuelled, with one turn per answer of
  the stream, and more fuel changes nothing (\<open>conn_loop_enough\<close>). The two loops that may run for ever are
  \<open>partial_function (option)\<close>: \<open>open_counters\<close>, which returns if some CPU number is refused, and \<open>ndp_wrap\<close>, which
  returns for every positive denominator and is shown not to return for 0. The endless loops of the server and of the
  progress task are step relations. The bounds of the theorems are those of the types (64-bit sums,
  128-bit totals) or of the exact range of the floats (\<open>2^53\<close>), stated as hypotheses.

  \<^bold>\<open>Not modelled.\<close> The option parser is third-party code: the models start from parsed options. HTTP, sockets, the clock, the
  formatting of floats and the unstable sort are parameters, and memory does not run out. Unit tests and
  \<open>Default\<close> instances that call \<open>new\<close> have no model of their own. The C++ benchmarks (\<^verbatim>\<open>src/memspeed\<close>,
  \<^verbatim>\<open>src/faultspeed\<close>) and their vendored library measure hardware; the instrumentation tool is modelled only as the
  writer of its log; the R notebooks and scripts draw graphs.
\<close>

end
